(* ===== verification/Prelude.thy ===== *)
theory Prelude
  imports Main "HOL-Library.Word"
begin

text \<open>
  Shared vocabulary of the development: machine integers, C strings, the faults a C program can
  run into, the result type of every operation that can run into one, and the store that holds
  heap objects whose lifetime matters.  The collection \<open>res_iff\<close> inverts results, the
  collection \<open>store_simps\<close> evaluates the store.
\<close>

named_theorems res_iff \<open>inversion of results\<close>
named_theorems store_simps \<open>evaluation of the store\<close>

unbundle bit_operations_syntax

type_synonym u8 = "8 word"
type_synonym u16 = "16 word"
type_synonym u32 = "32 word"
type_synonym u64 = "64 word"

section \<open>Faults and results\<close>

text \<open>
  The undefined behaviours the code could reach: an access to a freed object, a dereferenced NULL,
  an array access out of bounds.  A fault ends the run.
\<close>

datatype fault = Use_After_Free | Null_Deref | Out_Of_Bounds

type_synonym 'a res = "fault + 'a"

definition bindR :: "'a res \<Rightarrow> ('a \<Rightarrow> 'b res) \<Rightarrow> 'b res" where
  "bindR m f = (case m of Inl e \<Rightarrow> Inl e | Inr x \<Rightarrow> f x)"

lemma bindR_simps [simp]:
  "bindR (Inl e) f = Inl e"
  "bindR (Inr x) f = f x"
  by (simp_all add: bindR_def)

lemma bindR_assoc: "bindR (bindR m f) g = bindR m (\<lambda>x. bindR (f x) g)"
  by (cases m) simp_all

lemma bindR_cong [fundef_cong]:
  "m = m' \<Longrightarrow> (\<And>x. m' = Inr x \<Longrightarrow> f x = g x) \<Longrightarrow> bindR m f = bindR m' g"
  by (cases m') simp_all

lemma bindR_Inr_iff [res_iff]: "bindR m f = Inr y \<longleftrightarrow> (\<exists>x. m = Inr x \<and> f x = Inr y)"
  by (cases m) simp_all

lemma bindR_Inl_iff [res_iff]:
  "bindR m f = Inl e \<longleftrightarrow> m = Inl e \<or> (\<exists>x. m = Inr x \<and> f x = Inl e)"
  by (cases m) simp_all

lemma Inr_bindR_iff [res_iff]: "Inr y = bindR m f \<longleftrightarrow> (\<exists>x. m = Inr x \<and> f x = Inr y)"
  by (metis bindR_Inr_iff)

section \<open>The store of heap objects\<close>

text \<open>
  A store maps addresses to live objects; \<open>None\<close> is an address that was never handed out or whose
  object has been freed.  Addresses are never reused, so that every access through a dangling
  pointer is seen as one.
\<close>

type_synonym 'a store = "nat \<Rightarrow> 'a option"

definition deref :: "'a store \<Rightarrow> nat \<Rightarrow> 'a res" where
  "deref h p = (case h p of None \<Rightarrow> Inl Use_After_Free | Some x \<Rightarrow> Inr x)"

definition free_obj :: "'a store \<Rightarrow> nat \<Rightarrow> 'a store res" where
  "free_obj h p = (case h p of None \<Rightarrow> Inl Use_After_Free | Some _ \<Rightarrow> Inr (h(p := None)))"

lemma deref_live [store_simps]: "h p = Some x \<Longrightarrow> deref h p = Inr x"
  by (simp add: deref_def)

lemma deref_dead [store_simps]: "h p = None \<Longrightarrow> deref h p = Inl Use_After_Free"
  by (simp add: deref_def)

lemma free_obj_live [store_simps]: "h p = Some x \<Longrightarrow> free_obj h p = Inr (h(p := None))"
  by (simp add: free_obj_def)

lemma free_obj_dead [store_simps]: "h p = None \<Longrightarrow> free_obj h p = Inl Use_After_Free"
  by (simp add: free_obj_def)

lemma deref_Inr_iff [res_iff]: "deref h p = Inr x \<longleftrightarrow> h p = Some x"
  by (simp add: deref_def split: option.splits)

lemma free_obj_Inr_iff [res_iff]: "free_obj h p = Inr h' \<longleftrightarrow> h p \<noteq> None \<and> h' = h(p := None)"
  by (auto simp: free_obj_def split: option.splits)

section \<open>C strings\<close>

text \<open>
  A C string ends at the first NUL byte of its buffer; \<open>snprintf\<close> into a buffer of \<open>n\<close> bytes
  keeps at most \<open>n - 1\<close> characters.
\<close>

definition cstr :: "string \<Rightarrow> string" where
  "cstr s = takeWhile (\<lambda>c. c \<noteq> CHR 0x00) s"

definition snprintf_s :: "nat \<Rightarrow> string \<Rightarrow> string" where
  "snprintf_s n s = take (n - 1) s"

lemma cstr_id: "CHR 0x00 \<notin> set s \<Longrightarrow> cstr s = s"
  unfolding cstr_def by (rule takeWhile_eq_all_conv [THEN iffD2]) auto

lemma cstr_no_nul: "CHR 0x00 \<notin> set (cstr s)"
  by (auto simp: cstr_def dest: set_takeWhileD)

lemma cstr_idem [simp]: "cstr (cstr s) = cstr s"
  by (rule cstr_id) (rule cstr_no_nul)

lemma cstr_stops: "CHR 0x00 \<notin> set s \<Longrightarrow> cstr (s @ CHR 0x00 # t) = s"
  by (simp add: cstr_def takeWhile_append takeWhile_eq_all_conv [THEN iffD2])

lemma snprintf_s_short: "length s < n \<Longrightarrow> snprintf_s n s = s"
  by (simp add: snprintf_s_def)

lemma length_snprintf_s: "0 < n \<Longrightarrow> length (snprintf_s n s) < n"
  by (simp add: snprintf_s_def)

text \<open>The decimal digits of a number, as \<open>printf\<close> writes them for \<open>%u\<close>.\<close>

fun decimal :: "nat \<Rightarrow> string" where
  "decimal n = (if n < 10 then [char_of (48 + n)] else decimal (n div 10) @ [char_of (48 + n mod 10)])"

declare decimal.simps [simp del]

lemma decimal_small: "n < 10 \<Longrightarrow> decimal n = [char_of (48 + n)]"
  by (subst decimal.simps) simp

lemma decimal_large: "\<not> n < 10 \<Longrightarrow> decimal n = decimal (n div 10) @ [char_of (48 + n mod 10)]"
  by (subst decimal.simps) simp

lemma decimal_nonempty: "decimal n \<noteq> []"
  by (subst decimal.simps) simp

lemma decimal_digit_inj:
  assumes "(char_of (48 + a mod 10) :: char) = char_of (48 + b mod (10 :: nat))"
  shows "a mod 10 = b mod (10 :: nat)"
proof -
  have "a mod 10 < 10" "b mod 10 < (10 :: nat)" by simp_all
  then have "(48 + a mod 10) < 256" "48 + b mod (10 :: nat) < 256" by linarith+
  then show ?thesis
    using arg_cong [OF assms, of "of_char :: char \<Rightarrow> nat"] by simp
qed

text \<open>Different numbers have different digits: the key of the placeholder names below.\<close>

lemma decimal_inj: "decimal m = decimal n \<Longrightarrow> m = n"
proof (induction m arbitrary: n rule: less_induct)
  case (less m)
  have split: "decimal k = (if k < 10 then [] else decimal (k div 10)) @ [char_of (48 + k mod 10)]" for k
    by (cases "k < 10") (simp_all add: decimal_small decimal_large)
  from less.prems split [of m] split [of n]
  have front: "(if m < 10 then [] else decimal (m div 10)) = (if n < 10 then [] else decimal (n div 10))"
    and last: "(char_of (48 + m mod 10) :: char) = char_of (48 + n mod 10)"
    by (simp_all del: append.simps)
  from last have eq: "m mod 10 = n mod 10" by (rule decimal_digit_inj)
  show ?case
  proof (cases "m < 10")
    case True
    with front have "n < 10" by (metis decimal_nonempty)
    with True eq show ?thesis by simp
  next
    case False
    with front have "\<not> n < 10" by (metis decimal_nonempty)
    with False front have "decimal (m div 10) = decimal (n div 10)" by simp
    with less.IH [of "m div 10" "n div 10"] False have "m div 10 = n div 10" by simp
    with eq show ?thesis by (metis mult_div_mod_eq)
  qed
qed

section \<open>Words\<close>

lemma unat_succ_less:
  assumes "i < (c :: 'a::len word)"
  shows "unat (i + 1) = Suc (unat i)"
proof -
  have "Suc (unat i) < 2 ^ LENGTH('a)"
    using assms le_less_trans [OF Suc_leI unsigned_less] unfolding word_less_nat_alt by blast
  then show ?thesis by (simp add: unat_word_ariths)
qed

lemma word_le_diff_cancel: "(s :: 'a::len word) \<le> v \<Longrightarrow> s + (v - s) = v"
  by simp

lemma unat_diff_le: "(s :: 'a::len word) \<le> v \<Longrightarrow> unat (v - s) = unat v - unat s"
  by (rule unat_sub)

lemma unat_add_le:
  assumes "(s :: 'a::len word) \<le> e" and "unat i \<le> unat (e - s)"
  shows "unat (s + i) = unat s + unat i"
proof -
  have "unat s + unat i \<le> unat e" using assms by (simp add: unat_sub word_le_nat_alt)
  then have "unat s + unat i < 2 ^ LENGTH('a)" using unsigned_less [of e] by (rule order.strict_trans1)
  then show ?thesis by (simp add: unat_add_lem [THEN iffD1])
qed

lemma unat_u32_bound: "unat (w :: u32) < 4294967296"
  using unsigned_less [of w, where ?'a = nat] by simp

lemma unat_image_interval: "unat ` {s..e} = {unat s..unat (e :: 'a::len word)}"
proof
  show "{unat s..unat e} \<subseteq> unat ` {s..e}"
  proof
    fix k assume k: "k \<in> {unat s..unat e}"
    then have "k < 2 ^ LENGTH('a)" using unsigned_less [of e] by (auto intro: le_less_trans)
    then have "unat (of_nat k :: 'a word) = k" by (simp add: unat_of_nat)
    with k show "k \<in> unat ` {s..e}"
      by (intro image_eqI [of _ _ "of_nat k"]) (simp_all add: word_le_nat_alt)
  qed
qed (auto simp: word_le_nat_alt)

lemma card_word_interval: "s \<le> e \<Longrightarrow> card {s..e :: 'a::len word} = unat (e - s) + 1"
proof -
  assume "s \<le> e"
  moreover have "card {s..e} = card (unat ` {s..e})"
    by (rule card_image [symmetric]) (simp add: inj_on_def word_unat_eq_iff)
  ultimately show ?thesis
    by (simp add: unat_image_interval unat_sub word_le_nat_alt)
qed

lemma finite_words [simp]: "finite (A :: 'a::len word set)"
  by simp

section \<open>Pointers and loops\<close>

text \<open>A pointer used where \<open>NULL\<close> would be dereferenced, and a loop over a list that a fault ends.\<close>

definition nonnull :: "'a option \<Rightarrow> 'a res" where
  "nonnull x = (case x of None \<Rightarrow> Inl Null_Deref | Some y \<Rightarrow> Inr y)"

lemma nonnull_simps [simp]:
  "nonnull (Some y) = Inr y"
  "nonnull None = Inl Null_Deref"
  by (simp_all add: nonnull_def)

lemma nonnull_Inr_iff [res_iff]: "nonnull x = Inr y \<longleftrightarrow> x = Some y"
  by (simp add: nonnull_def split: option.splits)

fun foldR :: "('a \<Rightarrow> 's \<Rightarrow> 's res) \<Rightarrow> 'a list \<Rightarrow> 's \<Rightarrow> 's res" where
  "foldR f [] s = Inr s"
| "foldR f (x # xs) s = bindR (f x s) (foldR f xs)"

lemma foldR_append: "foldR f (xs @ ys) s = bindR (foldR f xs s) (foldR f ys)"
proof (induction xs arbitrary: s)
  case (Cons x xs)
  then show ?case by (cases "f x s") simp_all
qed simp

fun mapR :: "('a \<Rightarrow> 'b res) \<Rightarrow> 'a list \<Rightarrow> 'b list res" where
  "mapR f [] = Inr []"
| "mapR f (x # xs) = bindR (f x) (\<lambda>y. bindR (mapR f xs) (\<lambda>ys. Inr (y # ys)))"

lemma mapR_Inr: "(\<And>x. x \<in> set xs \<Longrightarrow> f x = Inr (g x)) \<Longrightarrow> mapR f xs = Inr (map g xs)"
  by (induction xs) simp_all

section \<open>Services\<close>

text \<open>A service that answers calls one after the other: an allowed call keeps its invariant, and what
  \<open>frame\<close> says never changes.  A steady one keeps a further fact as long as the calls obey a rule.\<close>

locale call_service =
  fixes serve :: "'c \<Rightarrow> 't \<Rightarrow> 't res"
    and invar :: "'t \<Rightarrow> bool"
    and allowed :: "'c \<Rightarrow> bool"
    and frame :: "'t \<Rightarrow> 't \<Rightarrow> bool"
  assumes serve_law: "invar t \<Longrightarrow> allowed c \<Longrightarrow> \<exists>t'. serve c t = Inr t' \<and> invar t' \<and> frame t t'"
    and frame_id: "frame t t"
    and frame_step: "frame t t' \<Longrightarrow> frame t' t'' \<Longrightarrow> frame t t''"
begin

lemma run_law:
  "invar t \<Longrightarrow> list_all allowed cs \<Longrightarrow> \<exists>t'. foldR serve cs t = Inr t' \<and> invar t' \<and> frame t t'"
proof (induction cs arbitrary: t)
  case (Cons c cs)
  then obtain t1 where t1: "serve c t = Inr t1" "invar t1" "frame t t1" using serve_law [of t c] by auto
  then show ?case using Cons.IH [OF t1(2)] Cons.prems(2) frame_step [OF t1(3)] by auto
qed (simp add: frame_id)

end

locale steady_service = call_service serve invar allowed frame
  for serve :: "'c \<Rightarrow> 't \<Rightarrow> 't res" and invar :: "'t \<Rightarrow> bool" and allowed :: "'c \<Rightarrow> bool"
    and frame :: "'t \<Rightarrow> 't \<Rightarrow> bool" +
  fixes obeys :: "'c \<Rightarrow> bool"
    and good :: "'t \<Rightarrow> bool"
  assumes obeys_law: "invar t \<Longrightarrow> good t \<Longrightarrow> allowed c \<Longrightarrow> obeys c \<Longrightarrow> serve c t = Inr t' \<Longrightarrow> good t'"
begin

lemma steady_law:
  "invar t \<Longrightarrow> good t \<Longrightarrow> allowed c \<Longrightarrow> obeys c \<Longrightarrow> \<exists>t'. serve c t = Inr t' \<and> (invar t' \<and> good t') \<and> frame t t'"
  using serve_law obeys_law by blast

end

sublocale steady_service \<subseteq> steady: call_service serve "\<lambda>t. invar t \<and> good t" "\<lambda>c. allowed c \<and> obeys c" frame
  by unfold_locales (use steady_law frame_id frame_step in blast)+

end
