(* ===== verification/Identity_Manager.thy ===== *)
theory Identity_Manager
  imports Prelude
begin

text \<open>
  \<open>identity_manager.c\<close>: the user name of an IKE_SA.  The objects of charon are seen through the
  getters the code calls; the authentication config may be absent, every identity may be \<open>NULL\<close>, and
  an encoding is a chunk, \<open>None\<close> for a \<open>NULL\<close> pointer.  \<open>strndup_ok\<close> is the answer of the allocator.
\<close>

section \<open>What the code sees of an IKE_SA\<close>

datatype id_type =
    ID_IPV4_ADDR | ID_FQDN | ID_RFC822_ADDR | ID_IPV6_ADDR | ID_DER_ASN1_DN | ID_KEY_ID | ID_OTHER int

record identification =
  id_get_type :: id_type
  id_get_encoding :: "string option"

datatype auth_rule = AUTH_RULE_EAP_IDENTITY | AUTH_RULE_IDENTITY

record ike_sa =
  sa_auth_cfg :: "(auth_rule \<Rightarrow> identification option) option"
  sa_other_eap_id :: "identification option"
  sa_other_id :: "identification option"
  sa_unique_id :: u32

section \<open>The function\<close>

text \<open>The last part, on the identity chosen: only string types give a name.\<close>

definition id_username :: "bool \<Rightarrow> identification \<Rightarrow> string option" where
  "id_username strndup_ok i =
     (case id_get_encoding i of
        None \<Rightarrow> None
      | Some enc \<Rightarrow>
          if length enc = 0 then None
          else if id_get_type i = ID_FQDN \<or> id_get_type i = ID_RFC822_ADDR \<or> id_get_type i = ID_KEY_ID
          then (if strndup_ok then Some (cstr enc) else None)
          else None)"

definition identity_get_username :: "bool \<Rightarrow> ike_sa option \<Rightarrow> string option" where
  "identity_get_username strndup_ok sa =
     (case sa of
        None \<Rightarrow> None
      | Some s \<Rightarrow>
          let ac = sa_auth_cfg s;
              i = (case ac of None \<Rightarrow> None | Some get \<Rightarrow> get AUTH_RULE_EAP_IDENTITY);
              i = (if i = None then sa_other_eap_id s else i);
              i = (case ac of None \<Rightarrow> i | Some get \<Rightarrow> if i = None then get AUTH_RULE_IDENTITY else i);
              i = (if i = None then sa_other_id s else i)
          in case i of None \<Rightarrow> None | Some x \<Rightarrow> id_username strndup_ok x)"

section \<open>The order of the sources\<close>

text \<open>The sources in the order of the comment above the function.\<close>

definition identity_sources :: "ike_sa \<Rightarrow> identification option list" where
  "identity_sources s =
     [Option.bind (sa_auth_cfg s) (\<lambda>get. get AUTH_RULE_EAP_IDENTITY), sa_other_eap_id s,
      Option.bind (sa_auth_cfg s) (\<lambda>get. get AUTH_RULE_IDENTITY), sa_other_id s]"

fun first_some :: "'a option list \<Rightarrow> 'a option" where
  "first_some [] = None"
| "first_some (None # xs) = first_some xs"
| "first_some (Some x # xs) = Some x"

lemma first_some_Some_iff:
  "first_some xs = Some x \<longleftrightarrow> (\<exists>k < length xs. xs ! k = Some x \<and> (\<forall>j < k. xs ! j = None))"
proof (induction xs rule: first_some.induct)
  case (2 xs)
  show ?case
  proof
    assume "first_some (None # xs) = Some x"
    then obtain k where "k < length xs" "xs ! k = Some x" "\<forall>j < k. xs ! j = None" using 2 by auto
    then show "\<exists>k < length (None # xs). (None # xs) ! k = Some x \<and> (\<forall>j < k. (None # xs) ! j = None)"
      by (intro exI [of _ "Suc k"]) (auto simp: less_Suc_eq_0_disj)
  next
    assume "\<exists>k < length (None # xs). (None # xs) ! k = Some x \<and> (\<forall>j < k. (None # xs) ! j = None)"
    then obtain k where k: "k < length (None # xs)" "(None # xs) ! k = Some x" "\<forall>j < k. (None # xs) ! j = None"
      by blast
    then obtain m where "k = Suc m" by (cases k) auto
    with k have "m < length xs" "xs ! m = Some x" "\<forall>j < m. xs ! j = None" by (auto simp: less_Suc_eq_0_disj)
    then show "first_some (None # xs) = Some x" using 2 by auto
  qed
next
  case (3 y xs)
  show ?case by (auto intro!: exI [of _ 0]) (metis less_Suc_eq_0_disj nth_Cons_0 option.distinct(1) option.inject)
qed simp

lemma identity_first_source:
  "identity_get_username ok (Some s) = Option.bind (first_some (identity_sources s)) (id_username ok)"
  by (cases "sa_auth_cfg s"; cases "sa_other_eap_id s"; cases "sa_other_id s")
    (auto simp: identity_get_username_def identity_sources_def Let_def split: option.split)

lemma id_username_Some_iff:
  "id_username ok i = Some u \<longleftrightarrow>
     ok \<and> id_get_type i \<in> {ID_FQDN, ID_RFC822_ADDR, ID_KEY_ID} \<and>
     (\<exists>enc. id_get_encoding i = Some enc \<and> enc \<noteq> [] \<and> u = cstr enc)"
  by (auto simp: id_username_def split: option.split)

lemma username_no_nul: "identity_get_username ok sa = Some u \<Longrightarrow> CHR 0x00 \<notin> set u"
  by (cases sa)
    (auto simp: identity_get_username_def [of _ None] identity_first_source bind_eq_Some_conv
      id_username_Some_iff cstr_no_nul)

section \<open>Properties\<close>



text \<open>An identity that is no string ends the search: when the first identity present is an address
  or a distinguished name, there is no name, whatever string identities come after it.\<close>

theorem address_identity_gives_no_name:
  assumes "first_some (identity_sources s) = Some i"
    and "id_get_type i \<notin> {ID_FQDN, ID_RFC822_ADDR, ID_KEY_ID}"
  shows "identity_get_username ok (Some s) = None"
  using assms by (simp add: identity_first_source id_username_def split: option.split)

theorem address_identity_gives_no_name_witness:
  "identity_get_username True (Some \<lparr>sa_auth_cfg = None,
     sa_other_eap_id = Some \<lparr>id_get_type = ID_IPV4_ADDR, id_get_encoding = Some ''abcd''\<rparr>,
     sa_other_id = Some \<lparr>id_get_type = ID_FQDN, id_get_encoding = Some ''vip''\<rparr>, sa_unique_id = 7\<rparr>) = None"
  by (rule address_identity_gives_no_name [of _ "\<lparr>id_get_type = ID_IPV4_ADDR, id_get_encoding = Some ''abcd''\<rparr>"])
    (simp_all add: identity_sources_def)

text \<open>A NUL byte in an identity cuts the name: two identities that agree up to it get the same
  name.\<close>

theorem nul_byte_cuts_name:
  assumes "CHR 0x00 \<notin> set user" and "id_get_type i \<in> {ID_FQDN, ID_RFC822_ADDR, ID_KEY_ID}"
    and "id_get_encoding i = Some (user @ CHR 0x00 # rest)" and "first_some (identity_sources s) = Some i"
  shows "identity_get_username True (Some s) = Some user"
  using assms by (auto simp: identity_first_source id_username_def cstr_stops)

theorem nul_byte_cuts_name_witness:
  "identity_get_username True (Some \<lparr>sa_auth_cfg = None,
     sa_other_eap_id = Some \<lparr>id_get_type = ID_KEY_ID, id_get_encoding = Some (''vip'' @ CHR 0x00 # ''x'')\<rparr>,
     sa_other_id = None, sa_unique_id = 7\<rparr>) = Some ''vip''"
  by (rule nul_byte_cuts_name [of _ "\<lparr>id_get_type = ID_KEY_ID, id_get_encoding = Some (''vip'' @ CHR 0x00 # ''x'')\<rparr>"])
    (simp_all add: identity_sources_def)

end
