(* ===== verification/Strongswan.thy ===== *)
theory Strongswan
  imports Prelude
begin

text \<open>
  The interface of the code under \<open>plugin/src\<close> to strongSwan, which is not part of the repository.
  Its functions are parameters of the model, collected in one record; what the plugin relies on is
  the contract \<open>strongswan_ok\<close>, which states the documented behaviour of \<open>hashtable_t\<close> and of
  \<open>host_create_from_chunk\<close>.  The last section gives one concrete instance, used only to evaluate
  closed examples.
\<close>

section \<open>Hosts\<close>

text \<open>
  A \<open>host_t\<close> is seen through \<open>get_family\<close> and \<open>get_address\<close> only; \<open>clone\<close> yields an object with
  the same answers.  \<open>AF_INET\<close> and \<open>AF_INET6\<close> are the constants of the system headers.
\<close>

record host =
  h_family :: int
  h_address :: "u8 list"

definition AF_INET :: int where "AF_INET = 2"
definition AF_INET6 :: int where "AF_INET6 = 10"

section \<open>Hash tables\<close>

text \<open>
  \<open>hashtable_t\<close>: created from a hash and an equality; \<open>put\<close> returns the value it replaced,
  \<open>remove\<close> the value it removed; the enumerator yields the pairs of the table.
\<close>

record ('k, 'v, 't) hashtable_api =
  ht_create :: "('k \<Rightarrow> u32) \<Rightarrow> ('k \<Rightarrow> 'k \<Rightarrow> bool) \<Rightarrow> u32 \<Rightarrow> 't"
  ht_get :: "'t \<Rightarrow> 'k \<Rightarrow> 'v option"
  ht_put :: "'t \<Rightarrow> 'k \<Rightarrow> 'v \<Rightarrow> 't \<times> 'v option"
  ht_remove :: "'t \<Rightarrow> 'k \<Rightarrow> 't \<times> 'v option"
  ht_enum :: "'t \<Rightarrow> ('k \<times> 'v) list"

text \<open>The tables a program can hold: created with \<open>hash\<close> and \<open>eq\<close>, then changed by calls.\<close>

inductive ht_table ::
  "('k, 'v, 't) hashtable_api \<Rightarrow> ('k \<Rightarrow> u32) \<Rightarrow> ('k \<Rightarrow> 'k \<Rightarrow> bool) \<Rightarrow> 't \<Rightarrow> bool"
  for api hash eq where
  created [intro]: "ht_table api hash eq (ht_create api hash eq n)"
| put [intro]: "ht_table api hash eq t \<Longrightarrow> ht_table api hash eq (fst (ht_put api t k v))"
| removed [intro]: "ht_table api hash eq t \<Longrightarrow> ht_table api hash eq (fst (ht_remove api t k))"

text \<open>What the user of a table owes: an equivalence, and equal hashes for equivalent keys.\<close>

definition hash_compatible :: "('k \<Rightarrow> u32) \<Rightarrow> ('k \<Rightarrow> 'k \<Rightarrow> bool) \<Rightarrow> bool" where
  "hash_compatible hash eq \<longleftrightarrow> equivp eq \<and> (\<forall>a b. eq a b \<longrightarrow> hash a = hash b)"

definition hashtable_laws ::
  "('k, 'v, 't) hashtable_api \<Rightarrow> ('k \<Rightarrow> u32) \<Rightarrow> ('k \<Rightarrow> 'k \<Rightarrow> bool) \<Rightarrow> bool" where
  "hashtable_laws api hash eq \<longleftrightarrow>
     (\<forall>n k. ht_get api (ht_create api hash eq n) k = None) \<and>
     (\<forall>t. ht_table api hash eq t \<longrightarrow>
        (\<forall>k v. snd (ht_put api t k v) = ht_get api t k) \<and>
        (\<forall>k v k'. ht_get api (fst (ht_put api t k v)) k' = (if eq k k' then Some v else ht_get api t k')) \<and>
        (\<forall>k. snd (ht_remove api t k) = ht_get api t k) \<and>
        (\<forall>k k'. ht_get api (fst (ht_remove api t k)) k' = (if eq k k' then None else ht_get api t k')) \<and>
        (\<forall>k v. (k, v) \<in> set (ht_enum api t) \<longrightarrow> ht_get api t k = Some v) \<and>
        (\<forall>k v. ht_get api t k = Some v \<longrightarrow> (\<exists>k'. eq k k' \<and> (k', v) \<in> set (ht_enum api t))) \<and>
        distinct (map fst (ht_enum api t)))"

text \<open>The contract of the library: the laws hold for whoever pays what is owed.\<close>

definition hashtable_contract :: "('k, 'v, 't) hashtable_api \<Rightarrow> bool" where
  "hashtable_contract api \<longleftrightarrow>
     (\<forall>hash eq. hash_compatible hash eq \<longrightarrow> hashtable_laws api hash eq)"

subsection \<open>Tables whose equality is identity\<close>

text \<open>
  Both equalities of the plugin turn out to be identity on the keys of the model, so the laws are
  used in this form.  The collection \<open>ht_simps\<close> evaluates a table under the contract.
\<close>

named_theorems ht_simps \<open>evaluation of hash tables\<close>

lemma hash_compatible_eq: "hash_compatible hash (=)"
  by (simp add: hash_compatible_def identity_equivp)

lemma contract_laws: "hashtable_contract api \<Longrightarrow> hashtable_laws api hash (=)"
  by (simp add: hashtable_contract_def hash_compatible_eq)

lemma ht_get_create [ht_simps]:
  "hashtable_contract api \<Longrightarrow> ht_get api (ht_create api hash (=) n) k = None"
  using contract_laws by (fastforce simp: hashtable_laws_def)

lemma ht_laws_table:
  assumes "hashtable_contract api" and "ht_table api hash (=) t"
  shows snd_put: "snd (ht_put api t k v) = ht_get api t k"
    and get_put: "ht_get api (fst (ht_put api t k v)) k' = (if k = k' then Some v else ht_get api t k')"
    and snd_remove: "snd (ht_remove api t k) = ht_get api t k"
    and get_remove: "ht_get api (fst (ht_remove api t k)) k' = (if k = k' then None else ht_get api t k')"
    and enum_iff: "(k, v) \<in> set (ht_enum api t) \<longleftrightarrow> ht_get api t k = Some v"
    and enum_distinct: "distinct (map fst (ht_enum api t))"
  using contract_laws [OF assms(1), of hash] assms(2) unfolding hashtable_laws_def by metis+

lemmas ht_ops [ht_simps] = snd_put get_put snd_remove get_remove

lemma option_eqI: "(\<And>v. m = Some v \<longleftrightarrow> n = Some v) \<Longrightarrow> m = n"
  by (cases m; cases n) auto

lemma enum_map_of:
  "hashtable_contract api \<Longrightarrow> ht_table api hash (=) t \<Longrightarrow> map_of (ht_enum api t) = ht_get api t"
  by (rule ext, rule option_eqI) (simp add: enum_distinct enum_iff)

lemma enum_length:
  assumes "hashtable_contract api" and "ht_table api hash (=) t"
  shows "length (ht_enum api t) = card (dom (ht_get api t))"
proof -
  have "dom (ht_get api t) = set (map fst (ht_enum api t))"
    using enum_map_of [OF assms] by (metis dom_map_of_conv_image_fst set_map)
  then show ?thesis
    using enum_distinct [OF assms] by (metis distinct_card length_map)
qed

section \<open>The functions of the library\<close>

text \<open>
  Everything the plugin calls outside the C library, except the identity and job interfaces, which
  are introduced with their users.  The three table types are those of \<open>by_uid\<close>, \<open>by_user\<close> and
  the table of fixed addresses; a \<open>void*\<close> key is a 64-bit value.
\<close>

record ('u, 's, 'f) strongswan =
  uid_ht :: "(u64, nat, 'u) hashtable_api"
  user_ht :: "(string, nat, 's) hashtable_api"
  fixed_ht :: "(string, host, 'f) hashtable_api"
  host_create_from_chunk :: "int \<Rightarrow> u8 list \<Rightarrow> u16 \<Rightarrow> host option"
  host_create_from_string :: "string \<Rightarrow> u16 \<Rightarrow> host option"

definition strongswan_ok :: "('u, 's, 'f) strongswan \<Rightarrow> bool" where
  "strongswan_ok L \<longleftrightarrow>
     hashtable_contract (uid_ht L) \<and> hashtable_contract (user_ht L) \<and> hashtable_contract (fixed_ht L) \<and>
     (\<forall>bs. length bs = 4 \<longrightarrow>
        host_create_from_chunk L AF_INET bs 0 = Some \<lparr>h_family = AF_INET, h_address = bs\<rparr>)"

lemma strongswan_okD:
  assumes "strongswan_ok L"
  shows uid_ok: "hashtable_contract (uid_ht L)"
    and user_ok: "hashtable_contract (user_ht L)"
    and fixed_ok: "hashtable_contract (fixed_ht L)"
    and chunk_ok: "length bs = 4 \<Longrightarrow>
      host_create_from_chunk L AF_INET bs 0 = Some \<lparr>h_family = AF_INET, h_address = bs\<rparr>"
  using assms by (simp_all add: strongswan_ok_def)

section \<open>One instance, for closed examples\<close>

text \<open>
  Association lists keep the contract.  Nothing outside the closed examples depends on them.
\<close>

datatype 'k keyeq = KeyEq (same: "'k \<Rightarrow> 'k \<Rightarrow> bool")

type_synonym ('k, 'v) atable = "'k keyeq \<times> ('k \<times> 'v) list"

fun at_get :: "('k, 'v) atable \<Rightarrow> 'k \<Rightarrow> 'v option" where
  "at_get (e, []) k = None"
| "at_get (e, (k', v) # kvs) k = (if same e k k' then Some v else at_get (e, kvs) k)"

fun at_del :: "'k keyeq \<Rightarrow> 'k \<Rightarrow> ('k \<times> 'v) list \<Rightarrow> ('k \<times> 'v) list" where
  "at_del e k [] = []"
| "at_del e k ((k', v) # kvs) = (if same e k k' then at_del e k kvs else (k', v) # at_del e k kvs)"

fun at_put :: "('k, 'v) atable \<Rightarrow> 'k \<Rightarrow> 'v \<Rightarrow> ('k, 'v) atable \<times> 'v option" where
  "at_put (e, kvs) k v = ((e, (k, v) # at_del e k kvs), at_get (e, kvs) k)"

fun at_remove :: "('k, 'v) atable \<Rightarrow> 'k \<Rightarrow> ('k, 'v) atable \<times> 'v option" where
  "at_remove (e, kvs) k = ((e, at_del e k kvs), at_get (e, kvs) k)"

definition assoc_api :: "('k, 'v, ('k, 'v) atable) hashtable_api" where
  "assoc_api =
     \<lparr>ht_create = (\<lambda>hash eq n. (KeyEq eq, [])), ht_get = at_get, ht_put = at_put,
      ht_remove = at_remove, ht_enum = snd\<rparr>"

lemma assoc_api_simps [simp]:
  "ht_create assoc_api hash eq n = (KeyEq eq, [])"
  "ht_get assoc_api = at_get"
  "ht_put assoc_api = at_put"
  "ht_remove assoc_api = at_remove"
  "ht_enum assoc_api = snd"
  by (simp_all add: assoc_api_def)

fun at_ok :: "'k keyeq \<Rightarrow> ('k \<times> 'v) list \<Rightarrow> bool" where
  "at_ok e [] = True"
| "at_ok e ((k, v) # kvs) = (at_get (e, kvs) k = None \<and> at_ok e kvs)"

text \<open>An equivalence is the kernel of a function, which is the form the proofs below use.\<close>

definition kernel :: "('k \<Rightarrow> 'c) \<Rightarrow> 'k keyeq \<Rightarrow> bool" where
  "kernel f e \<longleftrightarrow> same e = (\<lambda>a b. f a = f b)"

lemma same_kernel: "kernel f e \<Longrightarrow> same e a b \<longleftrightarrow> f a = f b"
  by (simp add: kernel_def)

lemma equivp_kernel: "equivp eq \<Longrightarrow> kernel eq (KeyEq eq)"
  unfolding kernel_def keyeq.sel by (intro ext) (rule equivp_def [THEN iffD1, rule_format])

lemma at_get_del:
  "kernel f e \<Longrightarrow> at_get (e, at_del e k kvs) k' = (if same e k k' then None else at_get (e, kvs) k')"
  by (induction kvs) (auto simp: same_kernel)

lemma at_get_cong: "kernel f e \<Longrightarrow> f k = f k' \<Longrightarrow> at_get (e, kvs) k = at_get (e, kvs) k'"
  by (induction kvs) (auto simp: same_kernel)

lemma at_ok_del: "kernel f e \<Longrightarrow> at_ok e kvs \<Longrightarrow> at_ok e (at_del e k kvs)"
  by (induction kvs) (auto simp: at_get_del)

lemma at_get_key: "kernel f e \<Longrightarrow> (k, v) \<in> set kvs \<Longrightarrow> at_get (e, kvs) k \<noteq> None"
  by (induction kvs) (auto simp: same_kernel)

lemma at_get_mem: "kernel f e \<Longrightarrow> at_ok e kvs \<Longrightarrow> (k, v) \<in> set kvs \<Longrightarrow> at_get (e, kvs) k = Some v"
proof (induction kvs)
  case (Cons a kvs)
  obtain k' v' where a: "a = (k', v')" by fastforce
  show ?case
  proof (cases "(k, v) = a")
    case False
    with Cons have got: "at_get (e, kvs) k = Some v" by (auto simp: a)
    have "f k \<noteq> f k'"
      using at_get_cong [OF Cons.prems(1), of k k' kvs] got Cons.prems(2) by (auto simp: a)
    with got Cons.prems(1) show ?thesis by (simp add: a same_kernel)
  qed (use Cons.prems(1) in \<open>simp add: a same_kernel\<close>)
qed simp

lemma at_get_Some: "at_get (e, kvs) k = Some v \<Longrightarrow> \<exists>k'. same e k k' \<and> (k', v) \<in> set kvs"
proof (induction kvs)
  case (Cons a kvs)
  then show ?case by (cases a) (auto split: if_splits)
qed simp

lemma at_ok_distinct: "kernel f e \<Longrightarrow> at_ok e kvs \<Longrightarrow> distinct (map fst kvs)"
proof (induction kvs)
  case (Cons a kvs)
  then show ?case using at_get_key [of f e _ _ kvs] by (cases a) fastforce
qed simp

lemma assoc_table:
  assumes "ht_table assoc_api hash eq t" and "kernel f (KeyEq eq)"
  shows "\<exists>kvs. t = (KeyEq eq, kvs) \<and> at_ok (KeyEq eq) kvs"
  using assms(1)
proof (induction rule: ht_table.induct)
  case (put t k v)
  then show ?case using assms(2) by (auto simp: at_ok_del at_get_del same_kernel simp del: keyeq.sel)
next
  case (removed t k)
  then show ?case using assms(2) by (auto simp: at_ok_del)
qed simp

lemma assoc_laws:
  assumes "kernel f (KeyEq eq)"
  shows "hashtable_laws assoc_api hash eq"
  unfolding hashtable_laws_def
proof (intro conjI allI impI)
  fix t k v k'
  assume "ht_table assoc_api hash eq t"
  then obtain kvs where t: "t = (KeyEq eq, kvs)" "at_ok (KeyEq eq) kvs"
    using assoc_table assms by blast
  have k: "at_get (KeyEq eq, at_del (KeyEq eq) k kvs) k' = (if eq k k' then None else at_get (KeyEq eq, kvs) k')" for k'
    using at_get_del [OF assms, of k kvs k'] by simp
  show "snd (ht_put assoc_api t k v) = ht_get assoc_api t k"
    "snd (ht_remove assoc_api t k) = ht_get assoc_api t k"
    by (simp_all add: t)
  show "ht_get assoc_api (fst (ht_put assoc_api t k v)) k' = (if eq k k' then Some v else ht_get assoc_api t k')"
    "ht_get assoc_api (fst (ht_remove assoc_api t k)) k' = (if eq k k' then None else ht_get assoc_api t k')"
    by (simp_all add: t k) (metis assms keyeq.sel same_kernel)+
  show "distinct (map fst (ht_enum assoc_api t))"
    using at_ok_distinct [OF assms t(2)] by (simp add: t)
  show "ht_get assoc_api t k = Some v" if "(k, v) \<in> set (ht_enum assoc_api t)"
    using at_get_mem [OF assms t(2)] that by (simp add: t)
  show "\<exists>k'. eq k k' \<and> (k', v) \<in> set (ht_enum assoc_api t)" if "ht_get assoc_api t k = Some v"
    using at_get_Some [of "KeyEq eq"] that by (simp add: t)
qed simp

lemma assoc_contract: "hashtable_contract assoc_api"
  unfolding hashtable_contract_def hash_compatible_def using assoc_laws equivp_kernel by metis

definition demo_from_chunk :: "int \<Rightarrow> u8 list \<Rightarrow> u16 \<Rightarrow> host option" where
  "demo_from_chunk fam bs port = (if length bs = 4 then Some \<lparr>h_family = fam, h_address = bs\<rparr> else None)"

text \<open>Addresses of the examples are written as one character per byte.\<close>

definition demo_from_string :: "string \<Rightarrow> u16 \<Rightarrow> host option" where
  "demo_from_string s port = (if length s = 4 then Some \<lparr>h_family = AF_INET, h_address = map of_char s\<rparr> else None)"

definition demo_lib :: "((u64, nat) atable, (string, nat) atable, (string, host) atable) strongswan" where
  "demo_lib = \<lparr>uid_ht = assoc_api, user_ht = assoc_api, fixed_ht = assoc_api,
     host_create_from_chunk = demo_from_chunk, host_create_from_string = demo_from_string\<rparr>"

lemma demo_lib_simps [simp]:
  "uid_ht demo_lib = assoc_api"
  "user_ht demo_lib = assoc_api"
  "fixed_ht demo_lib = assoc_api"
  "host_create_from_chunk demo_lib = demo_from_chunk"
  "host_create_from_string demo_lib = demo_from_string"
  by (simp_all add: demo_lib_def)

lemma demo_lib_ok: "strongswan_ok demo_lib"
  by (simp add: strongswan_ok_def assoc_contract demo_from_chunk_def)

end
