(* ===== verification/Dynamic_Pool.thy ===== *)
theory Dynamic_Pool
  imports Strongswan
begin

text \<open>
  \<open>dynamic_pool.c\<close>: the pool of addresses between two IPv4 endpoints, with one bit per address.
  The integers keep their 32 bits, so the computation of the capacity and of the size of the bitmap
  wraps as in C; an access to the bitmap outside the allocated bytes is the fault
  \<open>Out_Of_Bounds\<close>.  The lock of the pool makes each operation atomic; it has no other trace here.
\<close>

section \<open>State\<close>

record dynamic_pool =
  dp_start :: host
  dp_end :: host
  dp_start_h :: u32
  dp_end_h :: u32
  dp_capacity :: u32
  dp_bits :: "u8 list"
  dp_used :: u32

section \<open>Addresses in host byte order\<close>

text \<open>
  \<open>memcpy\<close> of four bytes followed by \<open>ntohl\<close> reads them as a big-endian number on every machine;
  \<open>htonl\<close> followed by \<open>chunk_from_thing\<close> writes one.
\<close>

definition load_be32 :: "u8 list \<Rightarrow> u32" where
  "load_be32 bs =
     push_bit 24 (ucast (bs ! 0)) OR push_bit 16 (ucast (bs ! 1)) OR
     push_bit 8 (ucast (bs ! 2)) OR ucast (bs ! 3)"

definition store_be32 :: "u32 \<Rightarrow> u8 list" where
  "store_be32 v = [ucast (drop_bit 24 v), ucast (drop_bit 16 v), ucast (drop_bit 8 v), ucast v]"

definition host_to_u32 :: "host \<Rightarrow> u32" where
  "host_to_u32 h = (let c = h_address h in if 4 \<le> length c then load_be32 c else 0)"

definition u32_to_host :: "('u, 's, 'f) strongswan \<Rightarrow> u32 \<Rightarrow> host option" where
  "u32_to_host L v = host_create_from_chunk L AF_INET (store_be32 v) 0"

section \<open>The bitmap\<close>

definition bit_test :: "u8 list \<Rightarrow> u32 \<Rightarrow> bool res" where
  "bit_test bs i =
     (if unat (i div 8) < length bs
      then Inr (bs ! unat (i div 8) AND push_bit (unat (i mod 8)) 1 \<noteq> 0)
      else Inl Out_Of_Bounds)"

definition bit_set :: "u8 list \<Rightarrow> u32 \<Rightarrow> u8 list res" where
  "bit_set bs i =
     (if unat (i div 8) < length bs
      then Inr (bs[unat (i div 8) := bs ! unat (i div 8) OR push_bit (unat (i mod 8)) 1])
      else Inl Out_Of_Bounds)"

definition bit_clear :: "u8 list \<Rightarrow> u32 \<Rightarrow> u8 list res" where
  "bit_clear bs i =
     (if unat (i div 8) < length bs
      then Inr (bs[unat (i div 8) := bs ! unat (i div 8) AND NOT (push_bit (unat (i mod 8)) 1)])
      else Inl Out_Of_Bounds)"

section \<open>Operations\<close>

text \<open>The loop of \<open>acquire\<close>: the first index from \<open>i\<close> on whose bit is clear.\<close>

function dp_scan :: "u8 list \<Rightarrow> u32 \<Rightarrow> u32 \<Rightarrow> u32 option res" where
  "dp_scan bs cap i =
     (if i < cap
      then bindR (bit_test bs i) (\<lambda>taken. if taken then dp_scan bs cap (i + 1) else Inr (Some i))
      else Inr None)"
  by pat_completeness auto
termination
  by (relation "measure (\<lambda>(bs, cap, i). unat cap - unat i)")
    (simp_all add: word_less_nat_alt unat_succ_less)

declare dp_scan.simps [simp del]

definition dp_acquire ::
  "('u, 's, 'f) strongswan \<Rightarrow> dynamic_pool \<Rightarrow> (host option \<times> dynamic_pool) res" where
  "dp_acquire L p =
     (if dp_used p < dp_capacity p
      then bindR (dp_scan (dp_bits p) (dp_capacity p) 0) (\<lambda>found.
        case found of
          None \<Rightarrow> Inr (None, p)
        | Some i \<Rightarrow> bindR (bit_set (dp_bits p) i) (\<lambda>bs.
            Inr (u32_to_host L (dp_start_h p + i), p\<lparr>dp_bits := bs, dp_used := dp_used p + 1\<rparr>)))
      else Inr (None, p))"

definition dp_release :: "dynamic_pool \<Rightarrow> host option \<Rightarrow> dynamic_pool res" where
  "dp_release p ip =
     (case ip of
        None \<Rightarrow> Inr p
      | Some h \<Rightarrow>
          if h_family h \<noteq> AF_INET then Inr p
          else let v = host_to_u32 h in
            if v < dp_start_h p \<or> dp_end_h p < v then Inr p
            else let i = v - dp_start_h p in
              bindR (bit_test (dp_bits p) i) (\<lambda>taken.
                if taken
                then bindR (bit_clear (dp_bits p) i) (\<lambda>bs.
                  Inr (p\<lparr>dp_bits := bs,
                         dp_used := if 0 < dp_used p then dp_used p - 1 else dp_used p\<rparr>))
                else Inr p))"

definition dp_is_in_pool :: "dynamic_pool \<Rightarrow> host option \<Rightarrow> bool" where
  "dp_is_in_pool p ip =
     (case ip of
        None \<Rightarrow> False
      | Some h \<Rightarrow>
          if h_family h \<noteq> AF_INET then False
          else let v = host_to_u32 h in dp_start_h p \<le> v \<and> v \<le> dp_end_h p)"

text \<open>\<open>capacity\<close> and \<open>used\<close>, the latter read under the mutex.\<close>

definition dp_get_capacity :: "dynamic_pool \<Rightarrow> u32" where
  "dp_get_capacity p = dp_capacity p"

definition dp_get_used :: "dynamic_pool \<Rightarrow> u32" where
  "dp_get_used p = dp_used p"

text \<open>\<open>calloc_ok\<close> is the answer of the allocator for the bitmap.\<close>

definition dynamic_pool_create :: "bool \<Rightarrow> host option \<Rightarrow> host option \<Rightarrow> dynamic_pool option" where
  "dynamic_pool_create calloc_ok start end =
     (case (start, end) of
        (Some hs, Some he) \<Rightarrow>
          if h_family hs \<noteq> AF_INET \<or> h_family he \<noteq> AF_INET then None
          else let s = host_to_u32 hs; e = host_to_u32 he in
            if e < s then None
            else let cap = e - s + 1 in
              if \<not> calloc_ok then None
              else Some \<lparr>dp_start = hs, dp_end = he, dp_start_h = s, dp_end_h = e, dp_capacity = cap,
                         dp_bits = replicate (unat ((cap + 7) div 8)) 0, dp_used = 0\<rparr>
      | _ \<Rightarrow> None)"

section \<open>Bytes and numbers\<close>

lemma length_store_be32 [simp]: "length (store_be32 v) = 4"
  by (simp add: store_be32_def)

lemma load_store_be32 [simp]: "load_be32 (store_be32 v) = v"
proof (rule bit_word_eqI)
  fix n assume n: "n < LENGTH(32)"
  consider "n < 8" | "8 \<le> n \<and> n < 16" | "16 \<le> n \<and> n < 24" | "24 \<le> n" by linarith
  then show "bit (load_be32 (store_be32 v)) n \<longleftrightarrow> bit v n"
    using n by cases (auto simp: load_be32_def store_be32_def bit_simps)
qed

lemma store_load_be32: 
  assumes "length bs = 4"
  shows "store_be32 (load_be32 bs) = bs"
proof -
  obtain a b c d where bs: "bs = [a, b, c, d]"
    using assms by (auto simp: numeral_eq_Suc length_Suc_conv)
  have "ucast (drop_bit 24 (load_be32 bs)) = a" "ucast (drop_bit 16 (load_be32 bs)) = b"
    "ucast (drop_bit 8 (load_be32 bs)) = c" "ucast (load_be32 bs) = d"
    by (rule bit_word_eqI, auto simp: bs load_be32_def bit_simps dest: bit_imp_le_length)+
  then show ?thesis by (simp add: store_be32_def bs)
qed

section \<open>What the bitmap stands for\<close>

definition bm :: "u8 list \<Rightarrow> nat \<Rightarrow> bool" where
  "bm bs k \<longleftrightarrow> bit (bs ! (k div 8)) (k mod 8)"

lemma bm_index: "k div 8 = j div 8 \<and> k mod 8 = j mod 8 \<longleftrightarrow> k = (j :: nat)"
  by (metis div_mult_mod_eq)

lemma bit_test_bm: "unat i div 8 < length bs \<Longrightarrow> bit_test bs i = Inr (bm bs (unat i))"
  by (simp add: bit_test_def bm_def unat_div_distrib unat_mod_distrib push_bit_eq_mult
      and_exp_eq_0_iff_not_bit)

lemma bit_set_bm:
  assumes "unat i div 8 < length bs"
  obtains bs' where "bit_set bs i = Inr bs'" "length bs' = length bs" "bm bs' = (bm bs)(unat i := True)"
proof
  let ?bs = "bs[unat i div 8 := bs ! (unat i div 8) OR push_bit (unat i mod 8) 1]"
  show "bit_set bs i = Inr ?bs"
    using assms by (simp add: bit_set_def unat_div_distrib unat_mod_distrib)
  show "bm ?bs = (bm bs)(unat i := True)"
  proof
    fix k
    show "bm ?bs k = ((bm bs)(unat i := True)) k"
      using assms bm_index [of k "unat i"]
      by (cases "k div 8 = unat i div 8") (auto simp: bm_def bit_simps)
  qed
qed simp

lemma bit_clear_bm:
  assumes "unat i div 8 < length bs"
  obtains bs' where "bit_clear bs i = Inr bs'" "length bs' = length bs" "bm bs' = (bm bs)(unat i := False)"
proof
  let ?bs = "bs[unat i div 8 := bs ! (unat i div 8) AND NOT (push_bit (unat i mod 8) 1)]"
  show "bit_clear bs i = Inr ?bs"
    using assms by (simp add: bit_clear_def unat_div_distrib unat_mod_distrib)
  show "bm ?bs = (bm bs)(unat i := False)"
  proof
    fix k
    show "bm ?bs k = ((bm bs)(unat i := False)) k"
      using assms bm_index [of k "unat i"]
      by (cases "k div 8 = unat i div 8") (auto simp: bm_def bit_simps dest: bit_imp_le_length)
  qed
qed simp

text \<open>The loop finds the first clear bit, and stays inside the bitmap while the bitmap covers it.\<close>

definition scan_post :: "u8 list \<Rightarrow> u32 \<Rightarrow> u32 \<Rightarrow> u32 option \<Rightarrow> bool" where
  "scan_post bs cap i r \<longleftrightarrow>
     (case r of
        None \<Rightarrow> \<forall>k. unat i \<le> k \<and> k < unat cap \<longrightarrow> bm bs k
      | Some j \<Rightarrow> i \<le> j \<and> j < cap \<and> \<not> bm bs (unat j) \<and> (\<forall>k. unat i \<le> k \<and> k < unat j \<longrightarrow> bm bs k))"

lemma dp_scan_post:
  assumes "\<forall>k < unat cap. k div 8 < length bs"
  shows "\<exists>r. dp_scan bs cap i = Inr r \<and> scan_post bs cap i r"
  using assms
proof (induction bs cap i rule: dp_scan.induct)
  case (1 bs cap i)
  show ?case
  proof (cases "i < cap")
    case False
    then show ?thesis
      by (auto simp: dp_scan.simps [of bs cap i] scan_post_def word_less_nat_alt)
  next
    case True
    with "1.prems" have test: "bit_test bs i = Inr (bm bs (unat i))"
      by (simp add: bit_test_bm word_less_nat_alt)
    show ?thesis
    proof (cases "bm bs (unat i)")
      case False
      with True test show ?thesis
        by (auto simp: dp_scan.simps [of bs cap i] scan_post_def)
    next
      case taken: True
      from "1.IH" [OF True test] taken "1.prems"
      obtain r where r: "dp_scan bs cap (i + 1) = Inr r" "scan_post bs cap (i + 1) r" by blast
      have "scan_post bs cap i r"
        using r(2) taken unat_succ_less [OF True]
        by (auto simp: scan_post_def word_le_nat_alt Suc_le_eq split: option.splits)
          (metis le_neq_implies_less)+
      with r(1) True test taken show ?thesis
        by (simp add: dp_scan.simps [of bs cap i])
    qed
  qed
qed

section \<open>The pool as a set of addresses\<close>

definition dp_universe :: "dynamic_pool \<Rightarrow> u32 set" where
  "dp_universe p = {dp_start_h p..dp_end_h p}"

definition dp_allocated :: "dynamic_pool \<Rightarrow> u32 set" where
  "dp_allocated p = {v \<in> dp_universe p. bm (dp_bits p) (unat (v - dp_start_h p))}"

text \<open>
  The bitmap covers the range only if \<open>capacity + 7\<close> does not wrap: \<open>dp_fits\<close>, which allows for
  every range but the largest ones.
\<close>

definition dp_fits :: "dynamic_pool \<Rightarrow> bool" where
  "dp_fits p \<longleftrightarrow> unat (dp_end_h p - dp_start_h p) + 8 < 2 ^ 32"

definition dp_inv :: "dynamic_pool \<Rightarrow> bool" where
  "dp_inv p \<longleftrightarrow>
     dp_start_h p \<le> dp_end_h p \<and> dp_fits p \<and>
     dp_capacity p = dp_end_h p - dp_start_h p + 1 \<and>
     length (dp_bits p) = unat ((dp_capacity p + 7) div 8) \<and>
     unat (dp_used p) = card (dp_allocated p)"

text \<open>The address a host stands for in a pool: none for NULL and for other families.\<close>

definition ip_addrs :: "host option \<Rightarrow> u32 set" where
  "ip_addrs ip = (case ip of None \<Rightarrow> {} | Some h \<Rightarrow> if h_family h = AF_INET then {host_to_u32 h} else {})"

lemma ip_addrs_simps [simp]:
  "ip_addrs None = {}"
  "h_family h = AF_INET \<Longrightarrow> ip_addrs (Some h) = {host_to_u32 h}"
  "h_family h \<noteq> AF_INET \<Longrightarrow> ip_addrs (Some h) = {}"
  by (simp_all add: ip_addrs_def)

lemma host_of_u32:
  "strongswan_ok L \<Longrightarrow> \<exists>h. u32_to_host L v = Some h \<and> h_family h = AF_INET \<and> host_to_u32 h = v"
  by (simp add: u32_to_host_def chunk_ok host_to_u32_def)

lemma dp_invD:
  assumes "dp_inv p"
  shows dp_inv_le: "dp_start_h p \<le> dp_end_h p"
    and dp_inv_fits: "unat (dp_end_h p - dp_start_h p) + 8 < 2 ^ 32"
    and dp_inv_capacity: "dp_capacity p = dp_end_h p - dp_start_h p + 1"
    and dp_inv_bits: "length (dp_bits p) = unat ((dp_capacity p + 7) div 8)"
    and dp_inv_used: "unat (dp_used p) = card (dp_allocated p)"
  using assms unfolding dp_inv_def dp_fits_def by blast+

lemma unat_plus_small: "unat w + unat (c :: u32) < 2 ^ 32 \<Longrightarrow> unat (w + c) = unat w + unat c"
  by (simp add: unat_word_ariths)

lemma dp_capacity_unat:
  assumes "dp_inv p"
  shows "unat (dp_capacity p) = unat (dp_end_h p - dp_start_h p) + 1"
  using unat_plus_small [of "dp_end_h p - dp_start_h p" 1] dp_inv_fits [OF assms]
  by (simp only: dp_inv_capacity [OF assms]) simp

lemma dp_capacity_card: "dp_inv p \<Longrightarrow> unat (dp_capacity p) = card (dp_universe p)"
  by (simp add: dp_capacity_unat dp_universe_def card_word_interval dp_inv_le)

lemma dp_bits_length:
  assumes "dp_inv p"
  shows "length (dp_bits p) = (unat (dp_end_h p - dp_start_h p) + 8) div 8"
proof -
  have "unat (dp_capacity p + 7) = unat (dp_end_h p - dp_start_h p) + 8"
    using unat_plus_small [of "dp_capacity p" 7] dp_inv_fits [OF assms] dp_capacity_unat [OF assms] by simp
  then show ?thesis by (simp only: dp_inv_bits [OF assms] unat_div_distrib) simp
qed

lemma dp_covered: "dp_inv p \<Longrightarrow> k < unat (dp_capacity p) \<Longrightarrow> k div 8 < length (dp_bits p)"
  by (simp add: dp_bits_length dp_capacity_unat)

lemma dp_offset:
  assumes "dp_inv p" and "i < dp_capacity p"
  shows "dp_start_h p + i \<in> dp_universe p" and "unat (dp_start_h p + i) = unat (dp_start_h p) + unat i"
proof -
  have i: "unat i \<le> unat (dp_end_h p - dp_start_h p)"
    using assms by (simp add: dp_capacity_unat word_less_nat_alt)
  have le: "dp_start_h p \<le> dp_end_h p" by (rule dp_inv_le [OF assms(1)])
  show u: "unat (dp_start_h p + i) = unat (dp_start_h p) + unat i"
    by (rule unat_add_le [OF le i])
  show "dp_start_h p + i \<in> dp_universe p"
    using u i le by (simp add: dp_universe_def word_le_nat_alt unat_sub)
qed

lemma dp_offset_of:
  assumes "dp_inv p" and "v \<in> dp_universe p"
  shows "v - dp_start_h p < dp_capacity p"
  using assms(2) dp_capacity_unat [OF assms(1)] dp_inv_le [OF assms(1)]
  by (auto simp add: dp_universe_def word_less_nat_alt unat_sub word_le_nat_alt le_imp_less_Suc diff_le_mono)

lemma dp_allocated_upd:
  assumes "dp_inv p" and "v \<in> dp_universe p"
    and "bm bs' = (bm (dp_bits p))(unat (v - dp_start_h p) := b)"
  shows "dp_allocated (p\<lparr>dp_bits := bs', dp_used := n\<rparr>) =
    (if b then insert v (dp_allocated p) else dp_allocated p - {v})"
  using assms(2,3) by (auto simp: dp_allocated_def dp_universe_def word_unat_eq_iff [symmetric])

section \<open>Acquire and release on sets\<close>

text \<open>\<open>acquire\<close> on a full pool, and on one with a free address: the lowest one is taken.\<close>

lemma dp_acquire_full:
  assumes "dp_inv p" and "dp_allocated p = dp_universe p"
  shows "dp_acquire L p = Inr (None, p)"
  using assms dp_inv_used [OF assms(1)]
  by (simp add: dp_acquire_def word_less_nat_alt dp_capacity_card)

lemma dp_not_full:
  assumes "dp_inv p" and "dp_allocated p \<noteq> dp_universe p"
  shows "dp_used p < dp_capacity p"
proof -
  have "dp_allocated p \<subset> dp_universe p" using assms(2) by (auto simp: dp_allocated_def)
  then have "card (dp_allocated p) < card (dp_universe p)" by (simp add: psubset_card_mono)
  then show ?thesis using dp_inv_used [OF assms(1)] dp_capacity_card [OF assms(1)]
    by (simp add: word_less_nat_alt)
qed

text \<open>The scan finds the offset of the lowest free address.\<close>

lemma dp_scan_lowest:
  assumes inv: "dp_inv p" and free: "dp_allocated p \<noteq> dp_universe p"
  obtains i where "dp_scan (dp_bits p) (dp_capacity p) 0 = Inr (Some i)" "i < dp_capacity p"
    "dp_start_h p + i \<in> dp_universe p - dp_allocated p" "\<And>b. b \<in> dp_universe p - dp_allocated p \<Longrightarrow> dp_start_h p + i \<le> b"
proof -
  obtain r where r: "dp_scan (dp_bits p) (dp_capacity p) 0 = Inr r"
    and post: "scan_post (dp_bits p) (dp_capacity p) 0 r"
    using dp_scan_post [of "dp_capacity p" "dp_bits p" 0] dp_covered [OF inv] by blast
  have all: "bm (dp_bits p) (unat (v - dp_start_h p))"
    if "r = None" "v \<in> dp_universe p" for v
    using that post dp_offset_of [OF inv] by (simp add: scan_post_def word_less_nat_alt)
  with free obtain i where i: "r = Some i" by (cases r) (auto simp: dp_allocated_def)
  with post have less: "i < dp_capacity p" and clear: "\<not> bm (dp_bits p) (unat i)"
    and before: "\<And>k. k < unat i \<Longrightarrow> bm (dp_bits p) k"
    by (auto simp: scan_post_def)
  have notin: "dp_start_h p + i \<notin> dp_allocated p" using clear by (simp add: dp_allocated_def)
  have lowest: "dp_start_h p + i \<le> b" if b: "b \<in> dp_universe p - dp_allocated p" for b
  proof -
    have "\<not> bm (dp_bits p) (unat (b - dp_start_h p))" using b by (simp add: dp_allocated_def)
    then have "unat i \<le> unat (b - dp_start_h p)" using before not_less by blast
    then show ?thesis
      using b dp_offset [OF inv less] by (auto simp: word_le_nat_alt dp_universe_def unat_sub)
  qed
  show thesis by (rule that [of i]) (use r i less dp_offset [OF inv less] notin lowest in auto)
qed

lemma dp_acquire_free:
  assumes L: "strongswan_ok L" and inv: "dp_inv p" and free: "dp_allocated p \<noteq> dp_universe p"
  shows "\<exists>h a q. dp_acquire L p = Inr (Some h, q) \<and> h_family h = AF_INET \<and> host_to_u32 h = a \<and>
    a \<in> dp_universe p - dp_allocated p \<and> (\<forall>b \<in> dp_universe p - dp_allocated p. a \<le> b) \<and>
    dp_allocated q = insert a (dp_allocated p) \<and> dp_universe q = dp_universe p \<and> dp_inv q"
proof -
  obtain i where r: "dp_scan (dp_bits p) (dp_capacity p) 0 = Inr (Some i)" and less: "i < dp_capacity p"
    and new: "dp_start_h p + i \<in> dp_universe p - dp_allocated p"
    and lowest: "\<And>b. b \<in> dp_universe p - dp_allocated p \<Longrightarrow> dp_start_h p + i \<le> b"
    by (rule dp_scan_lowest [OF inv free]) (rule that)
  define a where "a = dp_start_h p + i"
  have a: "a \<in> dp_universe p" and off: "a - dp_start_h p = i"
    using dp_offset [OF inv less] by (simp_all add: a_def)
  obtain bs' where set: "bit_set (dp_bits p) i = Inr bs'" "length bs' = length (dp_bits p)"
      "bm bs' = (bm (dp_bits p))(unat i := True)"
    using bit_set_bm dp_covered [OF inv] less by (metis word_less_nat_alt)
  define q where "q = p\<lparr>dp_bits := bs', dp_used := dp_used p + 1\<rparr>"
  have alloc: "dp_allocated q = insert a (dp_allocated p)"
    using dp_allocated_upd [OF inv a, of bs' True] set(3) by (simp add: off q_def)
  obtain h where h: "u32_to_host L a = Some h" "h_family h = AF_INET" "host_to_u32 h = a"
    using host_of_u32 [OF L] by blast
  have fresh: "a \<notin> dp_allocated p" using new by (simp add: a_def)
  have "dp_used p < dp_capacity p" by (rule dp_not_full [OF inv free])
  then have "unat (dp_used q) = card (dp_allocated q)"
    unfolding alloc using unat_succ_less [of "dp_used p" "dp_capacity p"] dp_inv_used [OF inv] fresh
    by (simp add: q_def)
  then have "dp_inv q" using inv set(2) by (simp add: q_def dp_inv_def dp_fits_def)
  moreover have "dp_acquire L p = Inr (Some h, q)"
    using \<open>dp_used p < dp_capacity p\<close> by (simp add: dp_acquire_def r set(1) h(1) a_def [symmetric] q_def)
  moreover have "dp_universe q = dp_universe p" by (simp add: q_def dp_universe_def)
  ultimately show ?thesis using h a alloc fresh lowest unfolding a_def by blast
qed

text \<open>Clearing the bit of a marked address, and counting it out.\<close>

lemma dp_unmark:
  assumes inv: "dp_inv p" and mem: "v \<in> dp_allocated p"
    and bits: "length bs' = length (dp_bits p)" "bm bs' = (bm (dp_bits p))(unat (v - dp_start_h p) := False)"
  shows "0 < dp_used p" and "dp_allocated (p\<lparr>dp_bits := bs', dp_used := dp_used p - 1\<rparr>) = dp_allocated p - {v}"
    and "dp_inv (p\<lparr>dp_bits := bs', dp_used := dp_used p - 1\<rparr>)"
proof -
  define q where "q = p\<lparr>dp_bits := bs', dp_used := dp_used p - 1\<rparr>"
  have v: "v \<in> dp_universe p" using mem by (simp add: dp_allocated_def)
  have alloc: "dp_allocated q = dp_allocated p - {v}"
    using dp_allocated_upd [OF inv v, of bs' False] bits(2) by (simp add: q_def)
  then show "dp_allocated (p\<lparr>dp_bits := bs', dp_used := dp_used p - 1\<rparr>) = dp_allocated p - {v}" by (simp add: q_def)
  have "unat (dp_used p) = card (dp_allocated p)" using inv by (simp add: dp_inv_def)
  moreover have "0 < card (dp_allocated p)" using mem card_gt_0_iff by fastforce
  ultimately show pos: "0 < dp_used p" by (simp add: word_less_nat_alt)
  then have "unat (dp_used p - 1) = unat (dp_used p) - 1" by (simp add: unat_minus_one word_gt_0)
  then have "dp_inv q"
    using inv bits(1) mem by (simp add: q_def [symmetric] alloc dp_inv_def) (simp add: q_def dp_fits_def)
  then show "dp_inv (p\<lparr>dp_bits := bs', dp_used := dp_used p - 1\<rparr>)" by (simp add: q_def)
qed

lemma dp_release_law:
  assumes inv: "dp_inv p"
  shows "\<exists>q. dp_release p ip = Inr q \<and> dp_allocated q = dp_allocated p - ip_addrs ip \<and>
    dp_universe q = dp_universe p \<and> dp_inv q"
proof (cases "\<exists>h. ip = Some h \<and> h_family h = AF_INET \<and> host_to_u32 h \<in> dp_universe p")
  case False
  then have "dp_release p ip = Inr p"
    by (auto simp: dp_release_def dp_universe_def Let_def not_le split: option.split)
  moreover have "dp_allocated p - ip_addrs ip = dp_allocated p"
    using False by (auto simp: dp_allocated_def ip_addrs_def split: option.splits if_splits)
  ultimately show ?thesis using inv by simp
next
  case True
  then obtain h where h: "ip = Some h" "h_family h = AF_INET" and v: "host_to_u32 h \<in> dp_universe p"
    by blast
  define i where "i = host_to_u32 h - dp_start_h p"
  have range: "\<not> (host_to_u32 h < dp_start_h p \<or> dp_end_h p < host_to_u32 h)"
    using v by (auto simp: dp_universe_def)
  have cov: "unat i div 8 < length (dp_bits p)"
    using dp_covered [OF inv] dp_offset_of [OF inv v] by (simp add: i_def word_less_nat_alt)
  show ?thesis
  proof (cases "bm (dp_bits p) (unat i)")
    case False
    then have "dp_release p ip = Inr p"
      using h range cov by (simp add: dp_release_def i_def [symmetric] bit_test_bm)
    moreover have "dp_allocated p - ip_addrs ip = dp_allocated p"
      using False h by (auto simp: dp_allocated_def i_def)
    ultimately show ?thesis using inv by simp
  next
    case True
    then have mem: "host_to_u32 h \<in> dp_allocated p" using v by (simp add: dp_allocated_def i_def)
    obtain bs' where clr: "bit_clear (dp_bits p) i = Inr bs'" "length bs' = length (dp_bits p)"
        "bm bs' = (bm (dp_bits p))(unat i := False)"
      using bit_clear_bm cov by blast
    note q = dp_unmark [OF inv mem clr(2) clr(3) [unfolded i_def]]
    have "dp_release p ip = Inr (p\<lparr>dp_bits := bs', dp_used := dp_used p - 1\<rparr>)"
      using h range cov True clr(1) q(1) by (simp add: dp_release_def i_def [symmetric] bit_test_bm)
    then show ?thesis using q h by (simp add: dp_universe_def)
  qed
qed

section \<open>The contract of a pool\<close>

text \<open>
  What the allocator relies on, stated over sets of addresses: \<open>take\<close> and \<open>give\<close> are the pool's
  \<open>acquire\<close> and \<open>release\<close>, \<open>denotes\<close> is the address a host pointer stands for.
\<close>

locale address_pool =
  fixes take :: "'p \<Rightarrow> ('h option \<times> 'p) res"
    and give :: "'p \<Rightarrow> 'h option \<Rightarrow> 'p res"
    and denotes :: "'h option \<Rightarrow> 'a set"
    and allocated :: "'p \<Rightarrow> 'a set"
    and universe :: "'p \<Rightarrow> 'a set"
    and invar :: "'p \<Rightarrow> bool"
  assumes allocated_sub: "allocated p \<subseteq> universe p"
    and universe_finite: "finite (universe p)"
    and take_full: "invar p \<Longrightarrow> allocated p = universe p \<Longrightarrow> take p = Inr (None, p)"
    and take_free: "invar p \<Longrightarrow> allocated p \<noteq> universe p \<Longrightarrow>
      \<exists>h a q. take p = Inr (Some h, q) \<and> denotes (Some h) = {a} \<and> a \<in> universe p - allocated p \<and>
        allocated q = insert a (allocated p) \<and> universe q = universe p \<and> invar q"
    and give_law: "invar p \<Longrightarrow>
      \<exists>q. give p ip = Inr q \<and> allocated q = allocated p - denotes ip \<and> universe q = universe p \<and> invar q"
begin

lemma take_total: "invar p \<Longrightarrow> \<exists>r q. take p = Inr (r, q)"
  using take_full take_free by blast

lemma take_None: "invar p \<Longrightarrow> take p = Inr (None, q) \<Longrightarrow> q = p \<and> allocated p = universe p"
  using take_full take_free by fastforce

lemma take_Some:
  assumes "invar p" and "take p = Inr (Some h, q)"
  obtains a where "denotes (Some h) = {a}" "a \<in> universe p" "a \<notin> allocated p"
    "allocated q = insert a (allocated p)" "universe q = universe p" "invar q"
  using take_full [OF assms(1)] take_free [OF assms(1)] assms(2) by fastforce

lemma take_keeps: "invar p \<Longrightarrow> take p = Inr (r, q) \<Longrightarrow> invar q \<and> universe q = universe p"
  by (cases r) (auto dest: take_None elim: take_Some)

lemma give_keeps:
  assumes "invar p" and "give p ip = Inr q"
  shows "invar q" and "universe q = universe p" and "allocated q = allocated p - denotes ip"
  using give_law [OF assms(1), of ip] assms(2) by simp_all

lemma give_total: "invar p \<Longrightarrow> \<exists>q. give p ip = Inr q"
  using give_law by blast

text \<open>Giving back what was just taken restores the set.\<close>

lemma take_give:
  assumes "invar p" and "take p = Inr (Some h, q)" and "give q (Some h) = Inr r"
  shows "allocated r = allocated p \<and> universe r = universe p \<and> invar r"
  using take_Some [OF assms(1,2)] give_keeps assms(3) by (metis Diff_insert_absorb)

text \<open>Giving back twice is giving back once.\<close>

lemma give_twice:
  assumes "invar p" and "give p ip = Inr q" and "give q ip = Inr r"
  shows "allocated r = allocated q"
  using give_keeps [OF assms(1,2)] give_keeps [OF _ assms(3)] by auto

end

text \<open>A pool that also counts: \<open>used\<close> and \<open>capacity\<close>.\<close>

locale counted_pool = address_pool take give denotes allocated universe invar
  for take :: "'p \<Rightarrow> ('h option \<times> 'p) res" and give denotes
    and allocated :: "'p \<Rightarrow> 'a set" and universe invar +
  fixes used :: "'p \<Rightarrow> nat"
    and capacity :: "'p \<Rightarrow> nat"
  assumes used_card: "invar p \<Longrightarrow> used p = card (allocated p)"
    and capacity_card: "invar p \<Longrightarrow> capacity p = card (universe p)"
begin

lemma used_le_capacity: "invar p \<Longrightarrow> used p \<le> capacity p"
  by (simp add: used_card capacity_card card_mono universe_finite allocated_sub)

lemma full_iff: "invar p \<Longrightarrow> used p = capacity p \<longleftrightarrow> allocated p = universe p"
  using card_subset_eq [OF universe_finite allocated_sub] by (auto simp: used_card capacity_card)

lemma take_None_iff: "invar p \<Longrightarrow> (\<exists>q. take p = Inr (None, q)) \<longleftrightarrow> used p = capacity p"
  using take_None take_full by (metis full_iff)

lemma used_take:
  assumes "invar p" and "take p = Inr (Some h, q)"
  shows "used q = Suc (used p)"
proof -
  obtain a where "invar q" "a \<notin> allocated p" "allocated q = insert a (allocated p)"
    using take_Some [OF assms] by metis
  then show ?thesis
    using assms(1) finite_subset [OF allocated_sub universe_finite] by (simp add: used_card)
qed

lemma used_give_taken:
  assumes "invar p" and "give p ip = Inr q" and "denotes ip = {a}" and "a \<in> allocated p"
  shows "Suc (used q) = used p"
proof -
  have "finite (allocated p)" by (rule finite_subset [OF allocated_sub universe_finite])
  then have "card (allocated p) = Suc (card (allocated p - {a}))"
    using assms(4) by (rule card.remove)
  with assms give_keeps [OF assms(1,2)] show ?thesis
    by (simp add: used_card del: card_Diff_insert)
qed

end

interpretation dp: counted_pool "dp_acquire L" dp_release ip_addrs dp_allocated dp_universe
    "\<lambda>p. strongswan_ok L \<and> dp_inv p" "\<lambda>p. unat (dp_used p)" "\<lambda>p. unat (dp_capacity p)"
  for L :: "('u, 's, 'f) strongswan"
proof (unfold_locales, goal_cases)
  case (4 p)
  then show ?case using dp_acquire_free [of L p] by fastforce
next
  case (5 p ip)
  then show ?case using dp_release_law [of p ip] by blast
qed (auto simp: dp_allocated_def dp_universe_def dp_acquire_full dp_inv_used dp_capacity_card)

section \<open>Creation\<close>

lemma bm_zeros: "k div 8 < n \<Longrightarrow> \<not> bm (replicate n 0) k"
  by (simp add: bm_def)

lemma dp_create_ok:
  assumes "h_family hs = AF_INET" and "h_family he = AF_INET" and "host_to_u32 hs \<le> host_to_u32 he"
    and fits: "unat (host_to_u32 he - host_to_u32 hs) + 8 < 2 ^ 32"
  shows "\<exists>p. dynamic_pool_create True (Some hs) (Some he) = Some p \<and> dp_inv p \<and> dp_allocated p = {} \<and>
    dp_universe p = {host_to_u32 hs..host_to_u32 he} \<and> dp_start p = hs \<and> dp_end p = he"
proof -
  define s e where "s = host_to_u32 hs" and "e = host_to_u32 he"
  define p where "p = \<lparr>dp_start = hs, dp_end = he, dp_start_h = s, dp_end_h = e,
    dp_capacity = e - s + 1, dp_bits = replicate (unat ((e - s + 1 + 7) div 8)) 0, dp_used = 0\<rparr>"
  have created: "dynamic_pool_create True (Some hs) (Some he) = Some p"
    using assms(1-3) by (simp add: dynamic_pool_create_def Let_def p_def s_def e_def not_less)
  have "unat (e - s + (1 + 7)) = unat (e - s) + 8"
    using fits unat_plus_small [of "e - s" 8] unfolding s_def e_def by simp
  then have "unat (e - s + 1 + 7) = unat (e - s) + 8" by (simp only: add.assoc)
  then have len: "unat ((e - s + 1 + 7) div 8) = (unat (e - s) + 8) div 8"
    by (simp only: unat_div_distrib) simp
  have empty: "dp_allocated p = {}"
  proof (rule equals0I)
    fix v assume v: "v \<in> dp_allocated p"
    then have "unat (v - s) \<le> unat (e - s)"
      by (auto simp: dp_allocated_def dp_universe_def p_def word_le_nat_alt unat_sub)
    then have "unat (v - s) div 8 < (unat (e - s) + 8) div 8" by linarith
    then have "\<not> bm (dp_bits p) (unat (v - s))"
      unfolding p_def dynamic_pool.simps len by (rule bm_zeros)
    with v show False by (simp add: dp_allocated_def p_def)
  qed
  then have "dp_inv p"
    using assms(3) fits by (simp add: dp_inv_def dp_fits_def) (simp add: p_def s_def e_def)
  with created empty show ?thesis
    by (auto simp: dp_universe_def p_def s_def e_def)
qed

lemma dp_created:
  assumes c: "dynamic_pool_create ok start end = Some d" and fits: "dp_fits d"
  shows "dp_inv d \<and> dp_allocated d = {}"
proof -
  from c obtain hs he where h: "start = Some hs" "end = Some he" "h_family hs = AF_INET" "h_family he = AF_INET"
      "host_to_u32 hs \<le> host_to_u32 he" "ok"
    by (auto simp: dynamic_pool_create_def Let_def not_less split: option.splits if_splits)
  with c have "dp_start_h d = host_to_u32 hs" "dp_end_h d = host_to_u32 he"
    by (auto simp: dynamic_pool_create_def Let_def split: if_splits)
  then have "unat (host_to_u32 he - host_to_u32 hs) + 8 < 2 ^ 32" using fits by (simp add: dp_fits_def)
  from dp_create_ok [OF h(3,4,5) this] c h show ?thesis by auto
qed

text \<open>Where \<open>capacity + 7\<close> wraps, the bitmap is empty.\<close>

lemma wrapped_size:
  assumes "2 ^ 32 \<le> unat (d :: u32) + 8"
  shows "(d + 1 + 7) div 8 = 0"
proof -
  have "unat (d + 8) = unat d + 8 - 2 ^ 32"
    using assms unat_u32_bound [of d] by (simp add: unat_word_ariths mod_if [of "unat d + 8"])
  then have "unat (d + 8) < 8" using unat_u32_bound [of d] by simp
  then have "unat ((d + 8) div 8) = 0" by (simp add: unat_div_distrib)
  then have "(d + 8) div 8 = 0" unfolding word_unat_eq_iff by simp
  then show ?thesis by (simp add: add.assoc)
qed

lemma dp_create_oversize:
  assumes "h_family hs = AF_INET" and "h_family he = AF_INET" and "host_to_u32 hs \<le> host_to_u32 he"
    and "2 ^ 32 \<le> unat (host_to_u32 he - host_to_u32 hs) + 8"
  shows "\<exists>p. dynamic_pool_create True (Some hs) (Some he) = Some p \<and> dp_bits p = [] \<and> dp_used p = 0 \<and>
    dp_start_h p = host_to_u32 hs \<and> dp_end_h p = host_to_u32 he \<and>
    dp_capacity p = host_to_u32 he - host_to_u32 hs + 1"
  using assms wrapped_size [OF assms(4)]
  by (auto simp: dynamic_pool_create_def Let_def not_less)

section \<open>Exhausting a pool\<close>

text \<open>\<open>n\<close> calls of \<open>acquire\<close> in a row.\<close>

fun acquire_many ::
  "('u, 's, 'f) strongswan \<Rightarrow> nat \<Rightarrow> dynamic_pool \<Rightarrow> (host option list \<times> dynamic_pool) res" where
  "acquire_many L 0 p = Inr ([], p)"
| "acquire_many L (Suc n) p =
     bindR (dp_acquire L p) (\<lambda>(r, q). bindR (acquire_many L n q) (\<lambda>(rs, q'). Inr (r # rs, q')))"

text \<open>The addresses that \<open>acquire\<close> may hand out next: the lowest free one, or none.\<close>

definition least_free :: "dynamic_pool \<Rightarrow> u32 set" where
  "least_free p = {a \<in> dp_universe p - dp_allocated p. \<forall>b \<in> dp_universe p - dp_allocated p. a \<le> b}"

lemma least_freeI:
  "a \<in> dp_universe p - dp_allocated p \<Longrightarrow> (\<And>b. b \<in> dp_universe p - dp_allocated p \<Longrightarrow> a \<le> b) \<Longrightarrow>
    least_free p = {a}"
  unfolding least_free_def by (auto intro: antisym)

lemma dp_acquire_least:
  assumes "strongswan_ok L" and "dp_inv p"
  shows "\<exists>r q. dp_acquire L p = Inr (r, q) \<and> ip_addrs r = least_free p \<and>
    (r = None \<longleftrightarrow> dp_allocated p = dp_universe p) \<and>
    dp_allocated q = dp_allocated p \<union> least_free p \<and> dp_universe q = dp_universe p \<and> dp_inv q"
proof (cases "dp_allocated p = dp_universe p")
  case True
  then show ?thesis using dp_acquire_full [OF assms(2), of L] assms(2) by (simp add: least_free_def)
next
  case False
  then obtain h a q where "dp_acquire L p = Inr (Some h, q)" "h_family h = AF_INET" "host_to_u32 h = a"
      "a \<in> dp_universe p - dp_allocated p" "\<forall>b \<in> dp_universe p - dp_allocated p. a \<le> b"
      "dp_allocated q = insert a (dp_allocated p)" "dp_universe q = dp_universe p" "dp_inv q"
    using dp_acquire_free [OF assms] by blast
  moreover from this(4,5) have "least_free p = {a}" by (intro least_freeI) blast+
  ultimately show ?thesis using False by auto
qed

definition below :: "dynamic_pool \<Rightarrow> nat \<Rightarrow> u32 set" where
  "below p k = {v \<in> dp_universe p. unat (v - dp_start_h p) < k}"

lemma least_free_below:
  assumes "dp_inv p" and "dp_allocated p = below p k" and "k < unat (dp_capacity p)"
  shows "least_free p = {dp_start_h p + of_nat k}" and "below p (Suc k) = below p k \<union> least_free p"
proof -
  have k: "unat (of_nat k :: u32) = k"
    using assms(3) unat_u32_bound [of "dp_capacity p"] by (simp add: unat_of_nat)
  then have less: "of_nat k < dp_capacity p" using assms(3) by (simp add: word_less_nat_alt)
  note off = dp_offset [OF assms(1) less]
  have free: "v \<in> dp_universe p - dp_allocated p \<longleftrightarrow> v \<in> dp_universe p \<and> k \<le> unat (v - dp_start_h p)" for v
    by (auto simp: assms(2) below_def)
  show lf: "least_free p = {dp_start_h p + of_nat k}"
  proof (rule least_freeI)
    show "dp_start_h p + of_nat k \<in> dp_universe p - dp_allocated p" unfolding free using off(1) k by simp
    fix b assume "b \<in> dp_universe p - dp_allocated p"
    then show "dp_start_h p + of_nat k \<le> b"
      unfolding free using off k by (auto simp: dp_universe_def word_le_nat_alt unat_sub)
  qed
  have eq: "v = dp_start_h p + of_nat k" if "v \<in> dp_universe p" "unat (v - dp_start_h p) = k" for v
  proof -
    from that(2) have "v - dp_start_h p = of_nat k" unfolding word_unat_eq_iff k .
    then show ?thesis by (simp only: diff_eq_eq add.commute)
  qed
  have "unat (dp_start_h p + of_nat k - dp_start_h p) = k" using k by simp
  with eq off(1) show "below p (Suc k) = below p k \<union> least_free p"
    unfolding lf below_def less_Suc_eq by blast
qed

lemma dp_acquire_frame:
  "dp_acquire L p = Inr (r, q) \<Longrightarrow>
    dp_start_h q = dp_start_h p \<and> dp_end_h q = dp_end_h p \<and> dp_capacity q = dp_capacity p"
  by (auto simp: dp_acquire_def res_iff split: if_splits option.splits)

lemma acquire_many_below:
  assumes "strongswan_ok L" and "dp_inv p" and "dp_allocated p = below p k"
    and "k + n \<le> unat (dp_capacity p)"
  shows "\<exists>rs q. acquire_many L n p = Inr (rs, q) \<and> dp_inv q \<and> dp_allocated q = below p (k + n) \<and>
    dp_universe q = dp_universe p \<and>
    map ip_addrs rs = map (\<lambda>i. {dp_start_h p + of_nat i}) [k..<k + n]"
  using assms(2-4)
proof (induction n arbitrary: p k)
  case 0
  then show ?case by simp
next
  case (Suc n)
  obtain r p' where r: "dp_acquire L p = Inr (r, p')" "ip_addrs r = least_free p"
      "dp_allocated p' = dp_allocated p \<union> least_free p" "dp_universe p' = dp_universe p" "dp_inv p'"
    using dp_acquire_least [OF assms(1) Suc.prems(1)] by blast
  have k: "k < unat (dp_capacity p)" using Suc.prems(3) by simp
  note lf = least_free_below [OF Suc.prems(1,2) k]
  have same: "dp_start_h p' = dp_start_h p" "below p' = below p" "dp_capacity p' = dp_capacity p"
    using dp_acquire_frame [OF r(1)] r(4) by (simp_all add: below_def fun_eq_iff)
  have "dp_allocated p' = below p' (Suc k)" using r(3) lf(2) Suc.prems(2) by (simp add: same)
  then obtain rs q where rs: "acquire_many L n p' = Inr (rs, q)" "dp_inv q"
      "dp_allocated q = below p (Suc k + n)" "dp_universe q = dp_universe p"
      "map ip_addrs rs = map (\<lambda>i. {dp_start_h p + of_nat i}) [Suc k..<Suc k + n]"
    using Suc.IH [OF r(5), of "Suc k"] Suc.prems(3) r(4) by (auto simp: same)
  moreover have "[k..<k + Suc n] = k # [Suc k..<Suc k + n]" by (simp add: upt_conv_Cons)
  ultimately show ?case using r(1,2) lf(1) by simp
qed

section \<open>Properties\<close>

text \<open>Three consecutive addresses, for the closed examples: 10.10.10.100 to 10.10.10.102.\<close>

definition demo_host :: "u8 \<Rightarrow> host" where
  "demo_host b = \<lparr>h_family = AF_INET, h_address = [10, 10, 10, b]\<rparr>"

definition demo_pool :: dynamic_pool where
  "demo_pool = \<lparr>dp_start = demo_host 100, dp_end = demo_host 102, dp_start_h = 168430180,
     dp_end_h = 168430182, dp_capacity = 3, dp_bits = [0], dp_used = 0\<rparr>"

lemma demo_host_family [simp]: "h_family (demo_host b) = AF_INET"
  by (simp add: demo_host_def)

lemma demo_host_u32 [simp]:
  "host_to_u32 (demo_host 100) = 168430180"
  "host_to_u32 (demo_host 101) = 168430181"
  "host_to_u32 (demo_host 102) = 168430182"
  "host_to_u32 (demo_host 50) = 168430130"
  by (simp_all add: demo_host_def host_to_u32_def load_be32_def)

lemma demo_pool_created:
  "dynamic_pool_create True (Some (demo_host 100)) (Some (demo_host 102)) = Some demo_pool"
  by (simp add: dynamic_pool_create_def demo_pool_def)

lemma demo_pool_inv: "dp_inv demo_pool" and demo_pool_empty: "dp_allocated demo_pool = {}"
  using dp_create_ok [of "demo_host 100" "demo_host 102"] by (simp_all add: demo_pool_created)

text \<open>\<open>dynamic_pool_create\<close> on IPv4 endpoints in order, whose range leaves room for the rounding
  of the bitmap size, yields a well-formed pool of exactly the addresses between them, both
  included, with none in use.\<close>

theorem dynamic_pool_create_establishes_invariant:
  assumes "h_family hs = AF_INET" and "h_family he = AF_INET" and "host_to_u32 hs \<le> host_to_u32 he"
    and "unat (host_to_u32 he - host_to_u32 hs) + 8 < 2 ^ 32"
  shows "\<exists>p. dynamic_pool_create True (Some hs) (Some he) = Some p \<and> dp_inv p \<and> dp_allocated p = {} \<and>
    dp_universe p = {host_to_u32 hs..host_to_u32 he} \<and> dp_start p = hs \<and> dp_end p = he"
  using assms by (rule dp_create_ok)

theorem dynamic_pool_create_establishes_invariant_witness:
  "\<exists>p. dynamic_pool_create True (Some (demo_host 100)) (Some (demo_host 102)) = Some p \<and> dp_inv p \<and>
    dp_allocated p = {} \<and> dp_universe p = {168430180..168430182} \<and>
    dp_start p = demo_host 100 \<and> dp_end p = demo_host 102"
  using dynamic_pool_create_establishes_invariant [of "demo_host 100" "demo_host 102"] by simp

text \<open>\<open>dynamic_pool_create\<close> fails exactly when an endpoint is missing or not IPv4, the end lies
  before the start, or the bitmap cannot be allocated.\<close>

theorem dynamic_pool_create_fails_iff:
  "dynamic_pool_create calloc_ok start end = None \<longleftrightarrow>
     start = None \<or> end = None \<or>
     (\<exists>hs he. start = Some hs \<and> end = Some he \<and>
        (h_family hs \<noteq> AF_INET \<or> h_family he \<noteq> AF_INET \<or> host_to_u32 he < host_to_u32 hs \<or> calloc_ok = False))"
  by (cases start; cases "end") (auto simp: dynamic_pool_create_def Let_def)

theorem dynamic_pool_create_fails_iff_witness:
  "dynamic_pool_create True (Some (demo_host 102)) (Some (demo_host 100)) = None"
  by (subst dynamic_pool_create_fails_iff) simp

text \<open>C39: where the range is so large that \<open>cap + 7\<close> wraps around 32 bits, the pool is created with an
  empty bitmap: releasing any address of it accesses memory out of bounds, and so does the first
  \<open>acquire\<close>, except for the full range, whose capacity wraps to 0 and which never hands out an
  address.\<close>

theorem oversized_pool_out_of_bounds:
  assumes "h_family hs = AF_INET" and "h_family he = AF_INET" and "host_to_u32 hs \<le> host_to_u32 he"
    and "2 ^ 32 \<le> unat (host_to_u32 he - host_to_u32 hs) + 8"
  shows "\<exists>p. dynamic_pool_create True (Some hs) (Some he) = Some p \<and> dp_bits p = [] \<and>
    dp_acquire L p = (if host_to_u32 he - host_to_u32 hs + 1 = 0 then Inr (None, p) else Inl Out_Of_Bounds) \<and>
    dp_release p (Some hs) = Inl Out_Of_Bounds"
proof -
  obtain p where p: "dynamic_pool_create True (Some hs) (Some he) = Some p" "dp_bits p = []" "dp_used p = 0"
      "dp_start_h p = host_to_u32 hs" "dp_end_h p = host_to_u32 he"
      "dp_capacity p = host_to_u32 he - host_to_u32 hs + 1"
    using dp_create_oversize [OF assms] by blast
  have "dp_acquire L p = (if dp_capacity p = 0 then Inr (None, p) else Inl Out_Of_Bounds)"
    by (simp add: dp_acquire_def p(2,3) dp_scan.simps [of "[]" "dp_capacity p" 0] bit_test_def word_gt_0)
  moreover have "dp_release p (Some hs) = Inl Out_Of_Bounds"
    using assms(1,3) by (auto simp: dp_release_def Let_def p(2,4,5) bit_test_def not_less)
  ultimately show ?thesis using p(1,2,6) by auto
qed

theorem oversized_pool_out_of_bounds_witness:
  "\<exists>p. dynamic_pool_create True (Some \<lparr>h_family = AF_INET, h_address = [0, 0, 0, 1]\<rparr>)
        (Some \<lparr>h_family = AF_INET, h_address = [255, 255, 255, 255]\<rparr>) = Some p \<and>
    dp_acquire demo_lib p = Inl Out_Of_Bounds"
  using oversized_pool_out_of_bounds [of "\<lparr>h_family = AF_INET, h_address = [0, 0, 0, 1]\<rparr>"
      "\<lparr>h_family = AF_INET, h_address = [255, 255, 255, 255]\<rparr>" demo_lib]
  by (auto simp: host_to_u32_def load_be32_def)

text \<open>C23: \<open>acquire\<close> on a well-formed pool hands out the lowest free address and marks exactly it; it
  returns NULL exactly when every address is taken, and never touches memory outside the bitmap.\<close>

theorem acquire_first_fit:
  assumes "strongswan_ok L" and "dp_inv p"
  shows "\<exists>r q. dp_acquire L p = Inr (r, q) \<and> ip_addrs r = least_free p \<and>
    (r = None \<longleftrightarrow> dp_allocated p = dp_universe p) \<and>
    dp_allocated q = dp_allocated p \<union> least_free p \<and> dp_universe q = dp_universe p \<and> dp_inv q"
  using assms by (rule dp_acquire_least)

theorem acquire_first_fit_witness:
  "\<exists>r q. dp_acquire demo_lib demo_pool = Inr (r, q) \<and> ip_addrs r = least_free demo_pool \<and> r \<noteq> None \<and> dp_inv q"
proof -
  have "168430180 \<in> dp_universe demo_pool" by (simp add: dp_universe_def demo_pool_def)
  then have "dp_allocated demo_pool \<noteq> dp_universe demo_pool" by (auto simp: demo_pool_empty)
  then show ?thesis using acquire_first_fit [OF demo_lib_ok demo_pool_inv] by blast
qed

text \<open>C24: \<open>release\<close> on a well-formed pool frees the address it is given if it is an IPv4 address of the
  pool and changes nothing otherwise; a second release of it changes nothing more.\<close>

theorem release_frees_exactly:
  assumes "dp_inv p"
  shows "\<exists>q r. dp_release p ip = Inr q \<and> dp_inv q \<and> dp_universe q = dp_universe p \<and>
    dp_allocated q = dp_allocated p - ip_addrs ip \<and>
    dp_release q ip = Inr r \<and> dp_inv r \<and> dp_allocated r = dp_allocated q"
proof -
  obtain q where q: "dp_release p ip = Inr q" "dp_inv q" "dp_universe q = dp_universe p"
      "dp_allocated q = dp_allocated p - ip_addrs ip"
    using dp_release_law [OF assms] by blast
  obtain r where r: "dp_release q ip = Inr r" "dp_inv r" "dp_allocated r = dp_allocated q - ip_addrs ip"
    using dp_release_law [OF q(2)] by blast
  from q r show ?thesis by auto
qed

theorem release_frees_exactly_witness:
  "\<exists>q. dp_release demo_pool (Some (demo_host 101)) = Inr q \<and> dp_inv q"
  using release_frees_exactly [OF demo_pool_inv, of "Some (demo_host 101)"] by blast

text \<open>C25: from a fresh pool, as many calls of \<open>acquire\<close> as its capacity hand out all its addresses in
  ascending order, each once; the next call returns NULL; and after any of them is released,
  \<open>acquire\<close> hands out that one again.\<close>

theorem pool_exhaustion_and_reuse:
  assumes "strongswan_ok L" and "dp_inv p" and "dp_allocated p = {}"
    and "h_family h = AF_INET" and "host_to_u32 h \<in> dp_universe p"
  shows "\<exists>rs q q' r q''. acquire_many L (unat (dp_capacity p)) p = Inr (rs, q) \<and>
    map ip_addrs rs = map (\<lambda>i. {dp_start_h p + of_nat i}) [0..<unat (dp_capacity p)] \<and>
    dp_acquire L q = Inr (None, q) \<and>
    dp_release q (Some h) = Inr q' \<and> dp_acquire L q' = Inr (r, q'') \<and> ip_addrs r = {host_to_u32 h}"
proof -
  have "dp_allocated p = below p 0" by (simp add: assms(3) below_def)
  then obtain rs q where q: "acquire_many L (unat (dp_capacity p)) p = Inr (rs, q)" "dp_inv q"
      "dp_allocated q = below p (unat (dp_capacity p))" "dp_universe q = dp_universe p"
      "map ip_addrs rs = map (\<lambda>i. {dp_start_h p + of_nat i}) [0..<unat (dp_capacity p)]"
    using acquire_many_below [OF assms(1,2), of 0 "unat (dp_capacity p)"] by auto
  have full: "dp_allocated q = dp_universe q"
    using dp_offset_of [OF assms(2)] by (auto simp: q(3,4) below_def word_less_nat_alt)
  obtain q' where q': "dp_release q (Some h) = Inr q'" "dp_inv q'" "dp_universe q' = dp_universe p"
      "dp_allocated q' = dp_universe p - {host_to_u32 h}"
    using dp_release_law [OF q(2), of "Some h"] full q(4) assms(4) by auto
  then have "least_free q' = {host_to_u32 h}" using assms(5) by (intro least_freeI) auto
  then obtain r q'' where "dp_acquire L q' = Inr (r, q'')" "ip_addrs r = {host_to_u32 h}"
    using dp_acquire_least [OF assms(1) q'(2)] by auto
  then show ?thesis using q(1,5) q'(1) dp_acquire_full [OF q(2) full] by blast
qed

theorem pool_exhaustion_and_reuse_witness:
  "\<exists>rs q q' r q''. acquire_many demo_lib 3 demo_pool = Inr (rs, q) \<and>
    map ip_addrs rs = [{168430180}, {168430181}, {168430182}] \<and> dp_acquire demo_lib q = Inr (None, q) \<and>
    dp_release q (Some (demo_host 101)) = Inr q' \<and> dp_acquire demo_lib q' = Inr (r, q'') \<and>
    ip_addrs r = {168430181}"
proof -
  have "host_to_u32 (demo_host 101) \<in> dp_universe demo_pool" by (simp add: dp_universe_def demo_pool_def)
  moreover have "unat (dp_capacity demo_pool) = 3" "dp_start_h demo_pool = 168430180"
    by (simp_all add: demo_pool_def)
  moreover have "[0..<3] = [0, 1, 2 :: nat]" by code_simp
  ultimately show ?thesis
    using pool_exhaustion_and_reuse [OF demo_lib_ok demo_pool_inv demo_pool_empty, of "demo_host 101"]
    by auto
qed

text \<open>The conversion between hosts and 32-bit addresses loses nothing in either direction.\<close>

theorem host_u32_roundtrip:
  assumes "strongswan_ok L"
  shows "\<exists>h. u32_to_host L v = Some h \<and> h_family h = AF_INET \<and> host_to_u32 h = v \<and>
    (\<forall>bs. length bs = 4 \<longrightarrow> u32_to_host L (host_to_u32 \<lparr>h_family = AF_INET, h_address = bs\<rparr>) =
       Some \<lparr>h_family = AF_INET, h_address = bs\<rparr>)"
  using host_of_u32 [OF assms, of v] chunk_ok [OF assms]
  by (auto simp: u32_to_host_def host_to_u32_def store_load_be32)

theorem host_u32_roundtrip_witness:
  "\<exists>h. u32_to_host demo_lib 168430180 = Some h \<and> host_to_u32 h = 168430180"
  using host_u32_roundtrip [OF demo_lib_ok] by blast

end
