(* ===== verification/Hash_Keys.thy ===== *)
theory Hash_Keys
  imports Strongswan
begin

text \<open>
  The hash and equality functions that \<open>fixed_pool.c\<close> and \<open>session_manager.c\<close> hand to
  \<open>hashtable_create\<close>, and the encoding of a 32-bit \<open>unique_id\<close> in a pointer-sized key.  A
  \<open>char*\<close> is the sequence of its bytes before the terminating NUL, so the loop \<open>while (*s)\<close> ends
  with the list.
\<close>

fun str_hash_loop :: "u32 \<Rightarrow> string \<Rightarrow> u32" where
  "str_hash_loop h [] = h"
| "str_hash_loop h (c # s) = str_hash_loop (h * 33 + of_char c) s"

definition cupp_str_hash :: "string \<Rightarrow> u32" where
  "cupp_str_hash key = str_hash_loop 5381 key"

definition cupp_str_eq :: "string \<Rightarrow> string \<Rightarrow> bool" where
  "cupp_str_eq a b \<longleftrightarrow> a = b"

definition cupp_u32_hash :: "u64 \<Rightarrow> u32" where
  "cupp_u32_hash key = ucast key"

definition cupp_u32_eq :: "u64 \<Rightarrow> u64 \<Rightarrow> bool" where
  "cupp_u32_eq a b \<longleftrightarrow> a = b"

definition uid_key :: "u32 \<Rightarrow> u64" where
  "uid_key uid = ucast uid"

lemma cupp_str_eq_id [simp]: "cupp_str_eq = (=)"
  by (intro ext) (simp add: cupp_str_eq_def)

lemma cupp_u32_eq_id [simp]: "cupp_u32_eq = (=)"
  by (intro ext) (simp add: cupp_u32_eq_def)

lemma uid_key_inj [simp]: "uid_key a = uid_key b \<longleftrightarrow> a = b"
proof -
  have "ucast (uid_key x) = x" for x
    by (simp add: uid_key_def ucast_down_ucast_id is_down)
  then show ?thesis by metis
qed

lemma uid_key_hash: "cupp_u32_hash (uid_key uid) = uid"
  by (simp add: cupp_u32_hash_def uid_key_def ucast_down_ucast_id is_down)

lemma str_hash_loop_append: "str_hash_loop h (s @ t) = str_hash_loop (str_hash_loop h s) t"
  by (induction s arbitrary: h) simp_all


end
