(* ===== verification/Session_Manager.thy ===== *)
theory Session_Manager
  imports Hash_Keys
begin

text \<open>
  \<open>session_manager.c\<close>: the table of leases with its two indices.  Leases live in a store, because
  the indices, the caller of \<open>unbind\<close> and the snapshot of \<open>foreach_expiring\<close> hold pointers to them.
  The abstract specification has one map from users to leases and one from ids to users; the locale
  \<open>lease_table\<close> states the contract of the operations in its terms.  \<open>now\<close> is the answer of
  \<open>time(NULL)\<close>; \<open>malloc_ok\<close> and \<open>strdup_ok\<close> are answers of the allocator.  The mutex makes each
  operation atomic.
\<close>

section \<open>State\<close>

record lease =
  le_username :: "string option"
  le_unique_id :: u32
  le_ip :: "host option"
  le_fixed :: bool
  le_acquired :: int

record ('u, 's) session_manager =
  sm_heap :: "lease store"
  sm_next :: nat
  sm_by_uid :: 'u
  sm_by_user :: 's

section \<open>Operations\<close>

definition lease_create ::
  "bool \<Rightarrow> bool \<Rightarrow> int \<Rightarrow> ('u, 's) session_manager \<Rightarrow> string \<Rightarrow> u32 \<Rightarrow> host option \<Rightarrow> bool \<Rightarrow>
   nat option \<times> ('u, 's) session_manager" where
  "lease_create malloc_ok strdup_ok now sm username uid ip fixed =
     (if \<not> malloc_ok then (None, sm)
      else (Some (sm_next sm),
        sm\<lparr>sm_heap := (sm_heap sm)(sm_next sm \<mapsto>
             \<lparr>le_username = (if strdup_ok then Some username else None), le_unique_id = uid, le_ip = ip,
              le_fixed = fixed, le_acquired = now\<rparr>),
           sm_next := Suc (sm_next sm)\<rparr>))"

text \<open>The lease owns its name and its address, which die with it.\<close>

definition lease_destroy :: "('u, 's) session_manager \<Rightarrow> nat option \<Rightarrow> ('u, 's) session_manager res" where
  "lease_destroy sm l =
     (case l of
        None \<Rightarrow> Inr sm
      | Some p \<Rightarrow> bindR (free_obj (sm_heap sm) p) (\<lambda>h. Inr (sm\<lparr>sm_heap := h\<rparr>)))"

text \<open>The part of \<open>bind_lease\<close> that removes a lease the user already has.\<close>

definition evict ::
  "('u, 's, 'f) strongswan \<Rightarrow> ('u, 's) session_manager \<Rightarrow> string \<Rightarrow> ('u, 's) session_manager res" where
  "evict L sm username =
     (case ht_get (user_ht L) (sm_by_user sm) username of
        None \<Rightarrow> Inr sm
      | Some p \<Rightarrow>
          bindR (deref (sm_heap sm) p) (\<lambda>existing.
          bindR (nonnull (le_username existing)) (\<lambda>name.
          lease_destroy
            (sm\<lparr>sm_by_uid := fst (ht_remove (uid_ht L) (sm_by_uid sm) (uid_key (le_unique_id existing))),
                sm_by_user := fst (ht_remove (user_ht L) (sm_by_user sm) name)\<rparr>)
            (Some p))))"

text \<open>The host handed over belongs to the lease, or is destroyed when \<open>None\<close> is returned.\<close>

definition bind_lease ::
  "('u, 's, 'f) strongswan \<Rightarrow> bool \<Rightarrow> bool \<Rightarrow> int \<Rightarrow> ('u, 's) session_manager \<Rightarrow> string option \<Rightarrow> u32 \<Rightarrow>
   host option \<Rightarrow> bool \<Rightarrow> (nat option \<times> ('u, 's) session_manager) res" where
  "bind_lease L malloc_ok strdup_ok now sm username uid ip fixed =
     (case username of
        None \<Rightarrow> Inr (None, sm)
      | Some u \<Rightarrow>
          bindR (evict L sm u) (\<lambda>sm1.
          case lease_create malloc_ok strdup_ok now sm1 u uid ip fixed of
            (None, sm2) \<Rightarrow> Inr (None, sm2)
          | (Some p, sm2) \<Rightarrow>
              bindR (deref (sm_heap sm2) p) (\<lambda>lease.
              bindR (nonnull (le_username lease)) (\<lambda>name.
              Inr (Some p,
                sm2\<lparr>sm_by_uid := fst (ht_put (uid_ht L) (sm_by_uid sm2) (uid_key uid) p),
                    sm_by_user := fst (ht_put (user_ht L) (sm_by_user sm2) name p)\<rparr>)))))"

definition migrate ::
  "('u, 's, 'f) strongswan \<Rightarrow> int \<Rightarrow> ('u, 's) session_manager \<Rightarrow> string option \<Rightarrow> u32 \<Rightarrow>
   (nat option \<times> ('u, 's) session_manager) res" where
  "migrate L now sm username new_unique_id =
     (case username of
        None \<Rightarrow> Inr (None, sm)
      | Some u \<Rightarrow>
          (case ht_get (user_ht L) (sm_by_user sm) u of
             None \<Rightarrow> Inr (None, sm)
           | Some p \<Rightarrow>
               bindR (deref (sm_heap sm) p) (\<lambda>lease.
               let by_uid = fst (ht_remove (uid_ht L) (sm_by_uid sm) (uid_key (le_unique_id lease)))
               in Inr (Some p,
                 sm\<lparr>sm_heap := (sm_heap sm)(p \<mapsto> lease\<lparr>le_unique_id := new_unique_id, le_acquired := now\<rparr>),
                    sm_by_uid := fst (ht_put (uid_ht L) by_uid (uid_key new_unique_id) p)\<rparr>))))"

definition lookup_by_user ::
  "('u, 's, 'f) strongswan \<Rightarrow> ('u, 's) session_manager \<Rightarrow> string option \<Rightarrow> nat option" where
  "lookup_by_user L sm username =
     (case username of None \<Rightarrow> None | Some u \<Rightarrow> ht_get (user_ht L) (sm_by_user sm) u)"

definition unbind ::
  "('u, 's, 'f) strongswan \<Rightarrow> ('u, 's) session_manager \<Rightarrow> u32 \<Rightarrow>
   (nat option \<times> ('u, 's) session_manager) res" where
  "unbind L sm unique_id =
     (let (by_uid, removed) = ht_remove (uid_ht L) (sm_by_uid sm) (uid_key unique_id) in
      case removed of
        None \<Rightarrow> Inr (None, sm\<lparr>sm_by_uid := by_uid\<rparr>)
      | Some p \<Rightarrow>
          bindR (deref (sm_heap sm) p) (\<lambda>lease.
          bindR (nonnull (le_username lease)) (\<lambda>name.
          Inr (Some p,
            sm\<lparr>sm_by_uid := by_uid,
               sm_by_user := fst (ht_remove (user_ht L) (sm_by_user sm) name)\<rparr>))))"

text \<open>
  \<open>foreach_expiring\<close>: the snapshot taken under the mutex, then the callback on each lease of it,
  outside the mutex.  The callback works on the state of its caller, in which \<open>sm\<close> finds the session
  manager; \<open>None\<close> stands for \<open>NULL\<close>, which is replaced by the empty \<open>lease_cb\<close>.
\<close>

definition lease_cb :: "nat \<Rightarrow> 'st \<Rightarrow> 'st res" where
  "lease_cb lease ctx = Inr ctx"

definition expiring ::
  "('u, 's, 'f) strongswan \<Rightarrow> ('u, 's) session_manager \<Rightarrow> int \<Rightarrow> u32 \<Rightarrow> nat list res" where
  "expiring L sm now timeout =
     bindR (mapR (\<lambda>(k, p). bindR (deref (sm_heap sm) p) (\<lambda>l. Inr (p, now - le_acquired l > uint timeout)))
              (ht_enum (uid_ht L) (sm_by_uid sm)))
       (\<lambda>marked. Inr (map fst (filter snd marked)))"

definition foreach_expiring ::
  "('u, 's, 'f) strongswan \<Rightarrow> ('st \<Rightarrow> ('u, 's) session_manager) \<Rightarrow> 'st \<Rightarrow> int \<Rightarrow> u32 \<Rightarrow>
   (nat \<Rightarrow> 'st \<Rightarrow> 'st res) option \<Rightarrow> 'st res" where
  "foreach_expiring L sm st now timeout cb =
     bindR (expiring L (sm st) now timeout)
       (\<lambda>snapshot. foldR (case cb of None \<Rightarrow> lease_cb | Some f \<Rightarrow> f) snapshot st)"

definition session_count :: "('u, 's, 'f) strongswan \<Rightarrow> ('u, 's) session_manager \<Rightarrow> int" where
  "session_count L sm = int (length (ht_enum (uid_ht L) (sm_by_uid sm)))"

definition session_manager_create :: "('u, 's, 'f) strongswan \<Rightarrow> ('u, 's) session_manager" where
  "session_manager_create L =
     \<lparr>sm_heap = Map.empty, sm_next = 0,
      sm_by_uid = ht_create (uid_ht L) cupp_u32_hash cupp_u32_eq 0,
      sm_by_user = ht_create (user_ht L) cupp_str_hash cupp_str_eq 0\<rparr>"

definition session_manager_destroy ::
  "('u, 's, 'f) strongswan \<Rightarrow> ('u, 's) session_manager \<Rightarrow> ('u, 's) session_manager res" where
  "session_manager_destroy L sm =
     foldR (\<lambda>(k, p) s. lease_destroy s (Some p)) (ht_enum (uid_ht L) (sm_by_uid sm)) sm"

section \<open>The tables as maps\<close>

text \<open>
  Every entry of an index points to a live lease that carries the key; a lease found by its id is
  also the one found by its user.  The converse can fail: binding an id that another lease carries
  takes the id away from it.
\<close>

abbreviation "uid_get L sm \<equiv> ht_get (uid_ht L) (sm_by_uid sm)"
abbreviation "user_get L sm \<equiv> ht_get (user_ht L) (sm_by_user sm)"

definition sm_tables :: "('u, 's, 'f) strongswan \<Rightarrow> ('u, 's) session_manager \<Rightarrow> bool" where
  "sm_tables L sm \<longleftrightarrow>
     strongswan_ok L \<and> ht_table (uid_ht L) cupp_u32_hash (=) (sm_by_uid sm) \<and>
     ht_table (user_ht L) cupp_str_hash (=) (sm_by_user sm)"

definition sm_coherent :: "('u, 's, 'f) strongswan \<Rightarrow> ('u, 's) session_manager \<Rightarrow> bool" where
  "sm_coherent L sm \<longleftrightarrow>
     (\<forall>k p. uid_get L sm k = Some p \<longrightarrow>
        (\<exists>l u. sm_heap sm p = Some l \<and> k = uid_key (le_unique_id l) \<and> le_username l = Some u \<and>
           user_get L sm u = Some p)) \<and>
     (\<forall>u p. user_get L sm u = Some p \<longrightarrow> (\<exists>l. sm_heap sm p = Some l \<and> le_username l = Some u)) \<and>
     (\<forall>p. sm_next sm \<le> p \<longrightarrow> sm_heap sm p = None)"

definition sm_inv :: "('u, 's, 'f) strongswan \<Rightarrow> ('u, 's) session_manager \<Rightarrow> bool" where
  "sm_inv L sm \<longleftrightarrow> sm_tables L sm \<and> sm_coherent L sm"

definition sm_users :: "('u, 's, 'f) strongswan \<Rightarrow> ('u, 's) session_manager \<Rightarrow> string \<Rightarrow> lease option" where
  "sm_users L sm u = Option.bind (user_get L sm u) (sm_heap sm)"

definition sm_uids :: "('u, 's, 'f) strongswan \<Rightarrow> ('u, 's) session_manager \<Rightarrow> u32 \<Rightarrow> string option" where
  "sm_uids L sm w =
     Option.bind (uid_get L sm (uid_key w)) (\<lambda>p. Option.bind (sm_heap sm p) le_username)"

text \<open>The tables under the contract of the library; \<open>tab\<close> evaluates them.\<close>

lemma sm_table_ops:
  assumes "sm_tables L sm"
  shows "ht_get (uid_ht L) (fst (ht_put (uid_ht L) (sm_by_uid sm) k p)) = (uid_get L sm)(k \<mapsto> p)"
    and "ht_get (uid_ht L) (fst (ht_remove (uid_ht L) (sm_by_uid sm) k)) = (uid_get L sm)(k := None)"
    and "snd (ht_remove (uid_ht L) (sm_by_uid sm) k) = uid_get L sm k"
    and "ht_get (user_ht L) (fst (ht_put (user_ht L) (sm_by_user sm) u p)) = (user_get L sm)(u \<mapsto> p)"
    and "ht_get (user_ht L) (fst (ht_remove (user_ht L) (sm_by_user sm) u)) = (user_get L sm)(u := None)"
  using assms ht_ops [OF uid_ok, of L cupp_u32_hash "sm_by_uid sm"]
    ht_ops [OF user_ok, of L cupp_str_hash "sm_by_user sm"]
  by (auto simp: sm_tables_def fun_eq_iff)

lemma sm_tables_upd:
  assumes "sm_tables L sm"
  shows "sm_tables L (sm\<lparr>sm_by_uid := fst (ht_put (uid_ht L) (sm_by_uid sm) k p)\<rparr>)"
    and "sm_tables L (sm\<lparr>sm_by_uid := fst (ht_remove (uid_ht L) (sm_by_uid sm) k)\<rparr>)"
    and "sm_tables L (sm\<lparr>sm_by_user := fst (ht_put (user_ht L) (sm_by_user sm) u p)\<rparr>)"
    and "sm_tables L (sm\<lparr>sm_by_user := fst (ht_remove (user_ht L) (sm_by_user sm) u)\<rparr>)"
  using assms by (auto simp: sm_tables_def)

lemma sm_tables_cong:
  "sm_by_uid sm' = sm_by_uid sm \<Longrightarrow> sm_by_user sm' = sm_by_user sm \<Longrightarrow> sm_tables L sm' = sm_tables L sm"
  by (simp add: sm_tables_def)

text \<open>
  The pure effects on a state: adding a lease, removing one, changing the id of one.  Everything the
  operations do to a well-formed state is a composition of these.
\<close>

definition sm_detach :: "('u, 's, 'f) strongswan \<Rightarrow> ('u, 's) session_manager \<Rightarrow> nat \<Rightarrow> ('u, 's) session_manager \<Rightarrow> bool" where
  "sm_detach L sm p sm' \<longleftrightarrow>
     (\<exists>l u. sm_heap sm p = Some l \<and> le_username l = Some u \<and>
       sm_heap sm' = sm_heap sm \<and> sm_next sm' = sm_next sm \<and> sm_tables L sm' \<and>
       uid_get L sm' = (uid_get L sm)(uid_key (le_unique_id l) := None) \<and>
       user_get L sm' = (user_get L sm)(u := None))"

lemma coherentD:
  assumes "sm_coherent L sm"
  shows coherent_uid: "uid_get L sm k = Some p \<Longrightarrow>
      \<exists>l u. sm_heap sm p = Some l \<and> k = uid_key (le_unique_id l) \<and> le_username l = Some u \<and> user_get L sm u = Some p"
    and coherent_user: "user_get L sm u = Some p \<Longrightarrow> \<exists>l. sm_heap sm p = Some l \<and> le_username l = Some u"
    and coherent_next: "sm_next sm \<le> p \<Longrightarrow> sm_heap sm p = None"
  using assms unfolding sm_coherent_def by blast+

lemma detach_coherent:
  assumes inv: "sm_inv L sm" and p: "user_get L sm u = Some p" and d: "sm_detach L sm p sm'"
  shows "sm_inv L sm'"
    and "sm_users L sm' = (sm_users L sm)(u := None)"
    and "\<exists>l. sm_users L sm u = Some l \<and> sm_heap sm p = Some l \<and>
      sm_uids L sm' = (sm_uids L sm)(le_unique_id l := None)"
    and "\<forall>u'. user_get L sm' u' \<noteq> Some p" and "\<forall>k. uid_get L sm' k \<noteq> Some p"
proof -
  have c: "sm_coherent L sm" using inv by (simp add: sm_inv_def)
  obtain l where l: "sm_heap sm p = Some l" "le_username l = Some u" using coherent_user [OF c p] by blast
  with d have d': "sm_heap sm' = sm_heap sm" "sm_next sm' = sm_next sm" "sm_tables L sm'"
      "uid_get L sm' = (uid_get L sm)(uid_key (le_unique_id l) := None)"
      "user_get L sm' = (user_get L sm)(u := None)"
    by (auto simp: sm_detach_def)
  have only: "uid_get L sm k = Some p \<Longrightarrow> k = uid_key (le_unique_id l)" for k
    using coherent_uid [OF c, of k p] l by auto
  have "sm_coherent L sm'"
    unfolding sm_coherent_def d'
  proof (intro conjI allI impI)
    fix k q assume "((uid_get L sm)(uid_key (le_unique_id l) := None)) k = Some q"
    then have k: "uid_get L sm k = Some q" "k \<noteq> uid_key (le_unique_id l)" by (auto split: if_splits)
    with coherent_uid [OF c k(1)] p l
    show "\<exists>l u'. sm_heap sm q = Some l \<and> k = uid_key (le_unique_id l) \<and> le_username l = Some u' \<and>
        ((user_get L sm)(u := None)) u' = Some q"
      by fastforce
  qed (auto dest: coherent_user [OF c] simp: coherent_next [OF c] split: if_splits)
  then show "sm_inv L sm'" using d'(3) by (simp add: sm_inv_def)
  show "sm_users L sm' = (sm_users L sm)(u := None)" by (simp add: sm_users_def d' fun_eq_iff)
  show "\<exists>l. sm_users L sm u = Some l \<and> sm_heap sm p = Some l \<and> sm_uids L sm' = (sm_uids L sm)(le_unique_id l := None)"
    using l p by (simp add: sm_users_def sm_uids_def d' fun_eq_iff)
  have owner: "user_get L sm v = Some p \<Longrightarrow> v = u" for v
    using coherent_user [OF c, of v p] l by auto
  show "\<forall>u'. user_get L sm' u' \<noteq> Some p" using owner by (auto simp: d')
  show "\<forall>k. uid_get L sm' k \<noteq> Some p" using only by (auto simp: d')
qed

text \<open>A lease no index points to can be freed, and one can be added at a fresh address.\<close>

lemma free_detached:
  assumes inv: "sm_inv L sm" and "sm_heap sm p = Some l"
    and no: "\<forall>u. user_get L sm u \<noteq> Some p" "\<forall>k. uid_get L sm k \<noteq> Some p"
  shows "\<exists>sm'. lease_destroy sm (Some p) = Inr sm' \<and> sm' = sm\<lparr>sm_heap := (sm_heap sm)(p := None)\<rparr> \<and> sm_inv L sm' \<and>
    sm_users L sm' = sm_users L sm \<and> sm_uids L sm' = sm_uids L sm"
proof -
  let ?sm = "sm\<lparr>sm_heap := (sm_heap sm)(p := None)\<rparr>"
  have c: "sm_coherent L sm" and t: "sm_tables L ?sm" using inv by (simp_all add: sm_inv_def sm_tables_def)
  have "sm_coherent L ?sm"
    unfolding sm_coherent_def
  proof (intro conjI allI impI)
    fix k q assume "uid_get L ?sm k = Some q"
    then have k: "uid_get L sm k = Some q" by simp
    with no have "q \<noteq> p" by metis
    with coherent_uid [OF c k] show "\<exists>l u. sm_heap ?sm q = Some l \<and> k = uid_key (le_unique_id l) \<and>
        le_username l = Some u \<and> user_get L ?sm u = Some q" by simp
  next
    fix u q assume "user_get L ?sm u = Some q"
    then have u: "user_get L sm u = Some q" by simp
    with no have "q \<noteq> p" by metis
    with coherent_user [OF c u] show "\<exists>l. sm_heap ?sm q = Some l \<and> le_username l = Some u" by simp
  qed (simp add: coherent_next [OF c])
  moreover have "sm_users L ?sm u = sm_users L sm u" for u
    using no(1) by (cases "user_get L sm u") (auto simp: sm_users_def)
  then have "sm_users L ?sm = sm_users L sm" by blast
  moreover have "sm_uids L ?sm w = sm_uids L sm w" for w
    using no(2) by (cases "uid_get L sm (uid_key w)") (auto simp: sm_uids_def)
  then have "sm_uids L ?sm = sm_uids L sm" by blast
  ultimately show ?thesis
    using assms(2) t by (simp add: lease_destroy_def store_simps sm_inv_def)
qed

section \<open>The specification\<close>

text \<open>
  What the operations promise, on the two maps.  The first component of a result is the lease that
  is handed out.
\<close>

type_synonym lease_spec = "(string \<Rightarrow> lease option) \<times> (u32 \<Rightarrow> string option)"

definition unindex :: "lease option \<Rightarrow> (u32 \<Rightarrow> string option) \<Rightarrow> u32 \<Rightarrow> string option" where
  "unindex l ids = (case l of None \<Rightarrow> ids | Some l \<Rightarrow> ids(le_unique_id l := None))"

definition spec_bind ::
  "string \<Rightarrow> u32 \<Rightarrow> host option \<Rightarrow> bool \<Rightarrow> int \<Rightarrow> lease_spec \<Rightarrow> lease option \<times> lease_spec" where
  "spec_bind u w ip fixed now a =
     (let l = \<lparr>le_username = Some u, le_unique_id = w, le_ip = ip, le_fixed = fixed, le_acquired = now\<rparr>
      in (Some l, (fst a)(u \<mapsto> l), (unindex (fst a u) (snd a))(w \<mapsto> u)))"

definition spec_migrate :: "string \<Rightarrow> u32 \<Rightarrow> int \<Rightarrow> lease_spec \<Rightarrow> lease option \<times> lease_spec" where
  "spec_migrate u w now a =
     (case fst a u of
        None \<Rightarrow> (None, a)
      | Some l \<Rightarrow>
          let l' = l\<lparr>le_unique_id := w, le_acquired := now\<rparr>
          in (Some l', (fst a)(u \<mapsto> l'), (unindex (Some l) (snd a))(w \<mapsto> u)))"

definition spec_unbind :: "u32 \<Rightarrow> lease_spec \<Rightarrow> lease option \<times> lease_spec" where
  "spec_unbind w a =
     (case snd a w of None \<Rightarrow> (None, a) | Some u \<Rightarrow> (fst a u, (fst a)(u := None), (snd a)(w := None)))"

definition sm_abs :: "('u, 's, 'f) strongswan \<Rightarrow> ('u, 's) session_manager \<Rightarrow> lease_spec" where
  "sm_abs L sm = (sm_users L sm, sm_uids L sm)"

section \<open>The operations implement the specification\<close>

lemma sm_users_user_get:
  assumes "sm_inv L sm"
  shows "user_get L sm u = None \<Longrightarrow> sm_users L sm u = None"
    and "user_get L sm u = Some p \<Longrightarrow> \<exists>l. sm_users L sm u = Some l \<and> sm_heap sm p = Some l \<and> le_username l = Some u"
  using assms coherent_user [of L sm u p] by (auto simp: sm_users_def sm_inv_def)

lemma sm_uids_uid_get:
  assumes "sm_inv L sm"
  shows "uid_get L sm (uid_key w) = None \<Longrightarrow> sm_uids L sm w = None"
    and "uid_get L sm (uid_key w) = Some p \<Longrightarrow> \<exists>l u. sm_uids L sm w = Some u \<and> user_get L sm u = Some p \<and>
      sm_users L sm u = Some l \<and> sm_heap sm p = Some l \<and> le_username l = Some u \<and> le_unique_id l = w"
  using assms coherent_uid [of L sm "uid_key w" p] by (auto simp: sm_uids_def sm_users_def sm_inv_def)

lemma attach_coherent:
  assumes inv: "sm_inv L sm" and free: "user_get L sm u = None" "sm_heap sm p = None" "p < sm_next sm'"
    and d: "sm_tables L sm'" "sm_heap sm' = (sm_heap sm)(p \<mapsto> l)" "sm_next sm \<le> sm_next sm'"
      "uid_get L sm' = (uid_get L sm)(uid_key w \<mapsto> p)" "user_get L sm' = (user_get L sm)(u \<mapsto> p)"
    and l: "le_username l = Some u" "le_unique_id l = w"
  shows "sm_inv L sm'" and "sm_abs L sm' = ((sm_users L sm)(u \<mapsto> l), (sm_uids L sm)(w \<mapsto> u))"
proof -
  have c: "sm_coherent L sm" using inv by (simp add: sm_inv_def)
  have "sm_coherent L sm'"
    unfolding sm_coherent_def d
  proof (intro conjI allI impI)
    fix k q assume k: "((uid_get L sm)(uid_key w \<mapsto> p)) k = Some q"
    show "\<exists>la ua. ((sm_heap sm)(p \<mapsto> l)) q = Some la \<and> k = uid_key (le_unique_id la) \<and>
        le_username la = Some ua \<and> ((user_get L sm)(u \<mapsto> p)) ua = Some q"
    proof (cases "k = uid_key w")
      case False
      with k have "uid_get L sm k = Some q" by simp
      from coherent_uid [OF c this] free show ?thesis by fastforce
    qed (use k l in auto)
  next
    fix v q assume v: "((user_get L sm)(u \<mapsto> p)) v = Some q"
    show "\<exists>la. ((sm_heap sm)(p \<mapsto> l)) q = Some la \<and> le_username la = Some v"
    proof (cases "v = u")
      case False
      with v have "user_get L sm v = Some q" by simp
      from coherent_user [OF c this] free show ?thesis by fastforce
    qed (use v l in auto)
  qed (use free d(3) in \<open>auto simp: coherent_next [OF c]\<close>)
  then show "sm_inv L sm'" using d(1) by (simp add: sm_inv_def)
  have "sm_users L sm' v = ((sm_users L sm)(u \<mapsto> l)) v" for v
    using coherent_user [OF c, of v] free(2)
    by (cases "user_get L sm v") (fastforce simp: sm_users_def d)+
  moreover have "sm_uids L sm' x = ((sm_uids L sm)(w \<mapsto> u)) x" for x
    using coherent_uid [OF c, of "uid_key x"] free(2) l
    by (cases "uid_get L sm (uid_key x)") (fastforce simp: sm_uids_def d)+
  ultimately show "sm_abs L sm' = ((sm_users L sm)(u \<mapsto> l), (sm_uids L sm)(w \<mapsto> u))"
    unfolding sm_abs_def by blast
qed

lemma unbind_effect:
  assumes inv: "sm_inv L sm"
  shows "uid_get L sm (uid_key w) = None \<Longrightarrow>
      \<exists>sm'. unbind L sm w = Inr (None, sm') \<and> sm_inv L sm' \<and> sm_abs L sm' = sm_abs L sm \<and>
        sm_heap sm' = sm_heap sm \<and> sm_next sm' = sm_next sm \<and>
        user_get L sm' = user_get L sm \<and> uid_get L sm' = uid_get L sm"
    and "uid_get L sm (uid_key w) = Some p \<Longrightarrow> \<exists>sm'. unbind L sm w = Inr (Some p, sm') \<and> sm_detach L sm p sm'"
proof -
  have t: "sm_tables L sm" using inv by (simp add: sm_inv_def)
  note ops = sm_table_ops [OF t]
  let ?r = "ht_remove (uid_ht L) (sm_by_uid sm) (uid_key w)"
  let ?sm = "sm\<lparr>sm_by_uid := fst ?r\<rparr>"
  have t1: "sm_tables L ?sm" by (rule sm_tables_upd [OF t])
  {
    assume none: "uid_get L sm (uid_key w) = None"
    then have "unbind L sm w = Inr (None, ?sm)"
      using ops(3) [of "uid_key w"] by (cases ?r) (simp add: unbind_def)
    moreover have "uid_get L ?sm = uid_get L sm" using none by (simp add: ops fun_eq_iff)
    ultimately show "\<exists>sm'. unbind L sm w = Inr (None, sm') \<and> sm_inv L sm' \<and> sm_abs L sm' = sm_abs L sm \<and>
        sm_heap sm' = sm_heap sm \<and> sm_next sm' = sm_next sm \<and>
        user_get L sm' = user_get L sm \<and> uid_get L sm' = uid_get L sm"
      using inv t1 by (auto simp: sm_inv_def sm_coherent_def sm_abs_def sm_users_def sm_uids_def)
  next
    assume some: "uid_get L sm (uid_key w) = Some p"
    obtain l u where l: "sm_heap sm p = Some l" "le_username l = Some u" "le_unique_id l = w"
      using sm_uids_uid_get(2) [OF inv some] by blast
    let ?sm' = "?sm\<lparr>sm_by_user := fst (ht_remove (user_ht L) (sm_by_user sm) u)\<rparr>"
    have "unbind L sm w = Inr (Some p, ?sm')"
      using ops(3) [of "uid_key w"] some l by (cases ?r) (simp add: unbind_def store_simps)
    moreover have "sm_detach L sm p ?sm'"
      using l sm_tables_upd(4) [OF t1, of u] by (simp add: sm_detach_def ops)
    ultimately show "\<exists>sm'. unbind L sm w = Inr (Some p, sm') \<and> sm_detach L sm p sm'" by blast
  }
qed

lemma evict_effect:
  assumes inv: "sm_inv L sm"
  shows "\<exists>sm'. evict L sm u = Inr sm' \<and> sm_inv L sm' \<and> sm_next sm' = sm_next sm \<and>
    user_get L sm' = (user_get L sm)(u := None) \<and>
    sm_abs L sm' = ((sm_users L sm)(u := None), unindex (sm_users L sm u) (sm_uids L sm))"
proof (cases "user_get L sm u")
  case None
  then show ?thesis
    using inv sm_users_user_get(1) [OF inv None] by (auto simp: evict_def sm_abs_def unindex_def fun_eq_iff)
next
  case (Some p)
  have t: "sm_tables L sm" using inv by (simp add: sm_inv_def)
  obtain l where l: "sm_users L sm u = Some l" "sm_heap sm p = Some l" "le_username l = Some u"
    using sm_users_user_get(2) [OF inv Some] by blast
  let ?sm1 = "sm\<lparr>sm_by_uid := fst (ht_remove (uid_ht L) (sm_by_uid sm) (uid_key (le_unique_id l))),
    sm_by_user := fst (ht_remove (user_ht L) (sm_by_user sm) u)\<rparr>"
  have "sm_tables L ?sm1"
    using sm_tables_upd(4) [OF sm_tables_upd(2) [OF t]] by simp
  then have d: "sm_detach L sm p ?sm1"
    using l by (simp add: sm_detach_def sm_table_ops [OF t])
  note dc = detach_coherent [OF inv Some d]
  have "sm_heap ?sm1 p = Some l" using l by simp
  from free_detached [OF dc(1) this dc(4,5)]
  obtain sm' where sm': "lease_destroy ?sm1 (Some p) = Inr sm'" "sm' = ?sm1\<lparr>sm_heap := (sm_heap ?sm1)(p := None)\<rparr>"
    "sm_inv L sm'" "sm_users L sm' = sm_users L ?sm1" "sm_uids L sm' = sm_uids L ?sm1" by blast
  have "evict L sm u = Inr sm'" using Some l sm'(1) by (simp add: evict_def store_simps)
  moreover have "user_get L sm' = (user_get L sm)(u := None)" by (simp add: sm'(2) sm_table_ops [OF t])
  moreover have "sm_abs L sm' = ((sm_users L sm)(u := None), unindex (sm_users L sm u) (sm_uids L sm))"
    using dc(2,3) l by (auto simp: sm_abs_def sm'(4,5) unindex_def)
  moreover have "sm_next sm' = sm_next sm" by (simp add: sm'(2))
  ultimately show ?thesis using sm'(3) by blast
qed

lemma bind_effect:
  assumes inv: "sm_inv L sm"
  shows "\<exists>p sm' l. bind_lease L True True now sm (Some u) w ip fixed = Inr (Some p, sm') \<and> sm_inv L sm' \<and>
    user_get L sm' u = Some p \<and> sm_heap sm' p = Some l \<and>
    (Some l, sm_abs L sm') = spec_bind u w ip fixed now (sm_abs L sm)"
proof -
  obtain sm1 where sm1: "evict L sm u = Inr sm1" "sm_inv L sm1"
      "user_get L sm1 = (user_get L sm)(u := None)"
      "sm_abs L sm1 = ((sm_users L sm)(u := None), unindex (sm_users L sm u) (sm_uids L sm))"
    using evict_effect [OF inv, of u] by blast
  let ?p = "sm_next sm1"
  let ?l = "\<lparr>le_username = Some u, le_unique_id = w, le_ip = ip, le_fixed = fixed, le_acquired = now\<rparr>"
  let ?sm2 = "sm1\<lparr>sm_heap := (sm_heap sm1)(?p \<mapsto> ?l), sm_next := Suc ?p\<rparr>"
  let ?sm3 = "?sm2\<lparr>sm_by_uid := fst (ht_put (uid_ht L) (sm_by_uid ?sm2) (uid_key w) ?p),
    sm_by_user := fst (ht_put (user_ht L) (sm_by_user ?sm2) u ?p)\<rparr>"
  have t: "sm_tables L sm1" using sm1(2) by (simp add: sm_inv_def)
  have fresh: "sm_heap sm1 ?p = None" using sm1(2) coherent_next by (auto simp: sm_inv_def)
  have t2: "sm_tables L ?sm2" using t by (simp add: sm_tables_def)
  then have t3: "sm_tables L ?sm3"
    using sm_tables_upd(3) [OF sm_tables_upd(1) [OF t2]] by simp
  have "user_get L sm1 u = None" by (simp add: sm1(3))
  moreover have "?p < sm_next ?sm3" "sm_heap ?sm3 = (sm_heap sm1)(?p \<mapsto> ?l)" "sm_next sm1 \<le> sm_next ?sm3"
    "uid_get L ?sm3 = (uid_get L sm1)(uid_key w \<mapsto> ?p)" "user_get L ?sm3 = (user_get L sm1)(u \<mapsto> ?p)"
    by (simp_all add: sm_table_ops [OF t])
  ultimately have "sm_inv L ?sm3" "sm_abs L ?sm3 = ((sm_users L sm1)(u \<mapsto> ?l), (sm_uids L sm1)(w \<mapsto> u))"
    using attach_coherent [OF sm1(2) _ fresh _ t3, of u ?l w] by simp_all
  moreover have "bind_lease L True True now sm (Some u) w ip fixed = Inr (Some ?p, ?sm3)"
    by (simp add: bind_lease_def sm1(1) lease_create_def store_simps)
  moreover have "user_get L ?sm3 u = Some ?p" by (simp add: sm_table_ops [OF t])
  ultimately show ?thesis
    using sm1(4) by (auto simp: spec_bind_def sm_abs_def Let_def)
qed

text \<open>The pointers, when the user has no lease yet: one entry and one object are new.\<close>

lemma bind_pointers:
  assumes inv: "sm_inv L sm" and none: "user_get L sm u = None"
    and run: "bind_lease L malloc_ok strdup_ok now sm (Some u) w ip fixed = Inr (h, sm')"
  shows "(h = None \<and> sm' = sm) \<or>
    (\<exists>l. h = Some (sm_next sm) \<and> sm_heap sm (sm_next sm) = None \<and> sm_heap sm' = (sm_heap sm)(sm_next sm \<mapsto> l) \<and>
      user_get L sm' = (user_get L sm)(u \<mapsto> sm_next sm))"
proof -
  have "sm_tables L sm" "sm_heap sm (sm_next sm) = None"
    using inv coherent_next [of L sm "sm_next sm"] by (simp_all add: sm_inv_def)
  with none run show ?thesis
    by (auto simp: bind_lease_def evict_def lease_create_def res_iff sm_table_ops split: if_splits)
qed

lemma migrate_effect:
  assumes inv: "sm_inv L sm"
  shows "user_get L sm u = None \<Longrightarrow> migrate L now sm (Some u) w = Inr (None, sm)"
    and "user_get L sm u = Some p \<Longrightarrow> sm_heap sm p = Some l \<Longrightarrow>
      \<exists>sm'. migrate L now sm (Some u) w = Inr (Some p, sm') \<and> sm_inv L sm' \<and> sm_next sm' = sm_next sm \<and>
        user_get L sm' = user_get L sm \<and>
        sm_heap sm' = (sm_heap sm)(p \<mapsto> l\<lparr>le_unique_id := w, le_acquired := now\<rparr>) \<and>
        (Some (l\<lparr>le_unique_id := w, le_acquired := now\<rparr>), sm_abs L sm') = spec_migrate u w now (sm_abs L sm)"
proof -
  show "user_get L sm u = None \<Longrightarrow> migrate L now sm (Some u) w = Inr (None, sm)" by (simp add: migrate_def)
  assume p: "user_get L sm u = Some p" and "sm_heap sm p = Some l"
  then have l: "sm_users L sm u = Some l" "sm_heap sm p = Some l" "le_username l = Some u"
    using sm_users_user_get(2) [OF inv p] by auto
  have t: "sm_tables L sm" and c: "sm_coherent L sm" using inv by (simp_all add: sm_inv_def)
  let ?l = "l\<lparr>le_unique_id := w, le_acquired := now\<rparr>"
  let ?sm0 = "sm\<lparr>sm_by_uid := fst (ht_remove (uid_ht L) (sm_by_uid sm) (uid_key (le_unique_id l))),
    sm_by_user := fst (ht_remove (user_ht L) (sm_by_user sm) u)\<rparr>"
  let ?sm1 = "?sm0\<lparr>sm_heap := (sm_heap sm)(p := None)\<rparr>"
  let ?sm' = "sm\<lparr>sm_heap := (sm_heap sm)(p \<mapsto> ?l),
    sm_by_uid := fst (ht_put (uid_ht L) (sm_by_uid ?sm1) (uid_key w) p)\<rparr>"
  have "sm_tables L ?sm0"
    using sm_tables_upd(4) [OF sm_tables_upd(2) [OF t]] by (simp add: sm_tables_def)
  then have d: "sm_detach L sm p ?sm0" using l by (simp add: sm_detach_def sm_table_ops [OF t])
  note dc = detach_coherent [OF inv p d]
  have t1: "sm_tables L ?sm1" using \<open>sm_tables L ?sm0\<close> by (simp add: sm_tables_def)
  obtain sm1 where "sm1 = ?sm0\<lparr>sm_heap := (sm_heap ?sm0)(p := None)\<rparr>" "sm_inv L sm1"
      "sm_users L sm1 = sm_users L ?sm0" "sm_uids L sm1 = sm_uids L ?sm0"
    using free_detached [OF dc(1) _ dc(4,5), of l] l by auto
  then have i1: "sm_inv L ?sm1" and a1: "sm_users L ?sm1 = (sm_users L sm)(u := None)"
    "sm_uids L ?sm1 = (sm_uids L sm)(le_unique_id l := None)"
    using dc(2,3) l by simp_all
  have lt: "p < sm_next sm" using coherent_next [OF c, of p] l(2) not_less by fastforce
  have same: "(user_get L sm)(u \<mapsto> p) = user_get L sm" using p by auto
  have t': "sm_tables L ?sm'" using t1 t by (auto simp: sm_tables_def)
  have f: "user_get L ?sm1 u = None" "sm_heap ?sm1 p = None" "p < sm_next ?sm'"
    "sm_heap ?sm' = (sm_heap ?sm1)(p \<mapsto> ?l)" "sm_next ?sm1 \<le> sm_next ?sm'"
    "uid_get L ?sm' = (uid_get L ?sm1)(uid_key w \<mapsto> p)" "user_get L ?sm' = (user_get L ?sm1)(u \<mapsto> p)"
    "le_username ?l = Some u" "le_unique_id ?l = w"
    using lt l sm_table_ops(1) [OF t1] by (simp_all add: sm_table_ops [OF t] same)
  note at = attach_coherent [OF i1 f(1-3) t' f(4-9)]
  have "migrate L now sm (Some u) w = Inr (Some p, ?sm')"
    using p l by (simp add: migrate_def store_simps Let_def)
  then show "\<exists>sm'. migrate L now sm (Some u) w = Inr (Some p, sm') \<and> sm_inv L sm' \<and> sm_next sm' = sm_next sm \<and>
        user_get L sm' = user_get L sm \<and> sm_heap sm' = (sm_heap sm)(p \<mapsto> ?l) \<and>
        (Some ?l, sm_abs L sm') = spec_migrate u w now (sm_abs L sm)"
    using l at same by (auto simp: spec_migrate_def sm_abs_def a1 unindex_def Let_def)
qed

section \<open>Enumeration\<close>

lemma uid_enum:
  assumes inv: "sm_inv L sm"
  shows "(k, p) \<in> set (ht_enum (uid_ht L) (sm_by_uid sm)) \<longleftrightarrow> uid_get L sm k = Some p"
    and "distinct (map snd (ht_enum (uid_ht L) (sm_by_uid sm)))"
    and "length (ht_enum (uid_ht L) (sm_by_uid sm)) = card (dom (sm_uids L sm))"
proof -
  let ?e = "ht_enum (uid_ht L) (sm_by_uid sm)"
  have L: "hashtable_contract (uid_ht L)" "ht_table (uid_ht L) cupp_u32_hash (=) (sm_by_uid sm)"
    using inv by (auto simp: sm_inv_def sm_tables_def uid_ok)
  have c: "sm_coherent L sm" using inv by (simp add: sm_inv_def)
  show iff: "(k, p) \<in> set ?e \<longleftrightarrow> uid_get L sm k = Some p" for k p by (rule enum_iff [OF L])
  have d: "distinct (map fst ?e)" by (rule enum_distinct [OF L])
  have inj: "k = k'" if "uid_get L sm k = Some p" "uid_get L sm k' = Some p" for k k' p
    using coherent_uid [OF c that(1)] coherent_uid [OF c that(2)] by auto
  have "inj_on snd (set ?e)"
    using inj iff by (intro inj_onI) (metis prod.collapse)
  then show "distinct (map snd ?e)" using d by (simp add: distinct_map)
  have "dom (uid_get L sm) = uid_key ` dom (sm_uids L sm)"
  proof
    show "dom (uid_get L sm) \<subseteq> uid_key ` dom (sm_uids L sm)"
    proof
      fix k assume "k \<in> dom (uid_get L sm)"
      then obtain q where q: "uid_get L sm k = Some q" by auto
      with coherent_uid [OF c q] obtain l :: lease where "k = uid_key (le_unique_id l)" by blast
      with q sm_uids_uid_get(2) [OF inv, of "le_unique_id l" q] show "k \<in> uid_key ` dom (sm_uids L sm)" by auto
    qed
  qed (auto simp: sm_uids_def bind_eq_Some_conv)
  then show "length ?e = card (dom (sm_uids L sm))"
    by (simp add: enum_length [OF L] card_image inj_on_def)
qed

lemma expiring_effect:
  assumes inv: "sm_inv L sm"
  shows "\<exists>ps. expiring L sm now timeout = Inr ps \<and> distinct ps \<and>
    (\<forall>p. p \<in> set ps \<longleftrightarrow> (\<exists>w l. uid_get L sm (uid_key w) = Some p \<and> sm_heap sm p = Some l \<and>
       le_unique_id l = w \<and> now - le_acquired l > uint timeout))"
proof -
  let ?e = "ht_enum (uid_ht L) (sm_by_uid sm)"
  let ?old = "\<lambda>p. now - le_acquired (the (sm_heap sm p)) > uint timeout"
  have c: "sm_coherent L sm" using inv by (simp add: sm_inv_def)
  have live: "\<exists>l. sm_heap sm p = Some l" if "(k, p) \<in> set ?e" for k p
    using that coherent_uid [OF c] uid_enum(1) [OF inv] by blast
  have "mapR (\<lambda>(k, p). bindR (deref (sm_heap sm) p) (\<lambda>l. Inr (p, now - le_acquired l > uint timeout))) ?e =
      Inr (map (\<lambda>(k, p). (p, ?old p)) ?e)"
    using live by (intro mapR_Inr) (fastforce simp: store_simps)
  moreover have "map fst (filter snd (map (\<lambda>(k, p). (p, ?old p)) ?e)) = filter ?old (map snd ?e)"
    by (simp add: filter_map comp_def case_prod_unfold)
  ultimately have "expiring L sm now timeout = Inr (filter ?old (map snd ?e))"
    by (simp add: expiring_def)
  moreover have "distinct (filter ?old (map snd ?e))" using uid_enum(2) [OF inv] by simp
  moreover have "p \<in> set (filter ?old (map snd ?e)) \<longleftrightarrow> (\<exists>w l. uid_get L sm (uid_key w) = Some p \<and>
      sm_heap sm p = Some l \<and> le_unique_id l = w \<and> now - le_acquired l > uint timeout)" for p
  proof -
    have "p \<in> set (filter ?old (map snd ?e)) \<longleftrightarrow> (\<exists>k. uid_get L sm k = Some p) \<and> ?old p"
      using uid_enum(1) [OF inv] by force
    moreover have "(\<exists>k. uid_get L sm k = Some p) \<longleftrightarrow>
        (\<exists>l. sm_heap sm p = Some l \<and> uid_get L sm (uid_key (le_unique_id l)) = Some p)"
      using coherent_uid [OF c, of _ p] by fastforce
    ultimately show ?thesis by auto
  qed
  ultimately show ?thesis by blast
qed

lemma create_effect:
  assumes "strongswan_ok L"
  shows "sm_inv L (session_manager_create L)" and "sm_abs L (session_manager_create L) = (Map.empty, Map.empty)"
  using assms
  by (auto simp: session_manager_create_def sm_inv_def sm_tables_def sm_coherent_def sm_abs_def sm_users_def
      sm_uids_def ht_get_create uid_ok user_ok fun_eq_iff)

section \<open>The contract of the table\<close>

text \<open>
  What the allocator relies on: it holds handles to leases, reads a lease through a handle, and frees
  the lease \<open>unlink\<close> hands over.
\<close>

locale lease_table =
  fixes bind :: "int \<Rightarrow> 't \<Rightarrow> string option \<Rightarrow> u32 \<Rightarrow> host option \<Rightarrow> bool \<Rightarrow> ('h option \<times> 't) res"
    and move :: "int \<Rightarrow> 't \<Rightarrow> string option \<Rightarrow> u32 \<Rightarrow> ('h option \<times> 't) res"
    and find :: "'t \<Rightarrow> string option \<Rightarrow> 'h option"
    and unlink :: "'t \<Rightarrow> u32 \<Rightarrow> ('h option \<times> 't) res"
    and destroy :: "'t \<Rightarrow> 'h option \<Rightarrow> 't res"
    and view :: "'t \<Rightarrow> 'h \<Rightarrow> lease option"
    and abs :: "'t \<Rightarrow> lease_spec"
    and invar :: "'t \<Rightarrow> bool"
  assumes coherent: "invar t \<Longrightarrow> snd (abs t) w = Some u \<Longrightarrow>
      \<exists>l. fst (abs t) u = Some l \<and> le_unique_id l = w"
    and named: "invar t \<Longrightarrow> fst (abs t) u = Some l \<Longrightarrow> le_username l = Some u"
    and find_law: "invar t \<Longrightarrow>
      (case fst (abs t) u of
         None \<Rightarrow> find t (Some u) = None
       | Some l \<Rightarrow> \<exists>h. find t (Some u) = Some h \<and> view t h = Some l)"
    and bind_law: "invar t \<Longrightarrow>
      \<exists>h l t'. bind now t (Some u) w ip fixed = Inr (Some h, t') \<and> invar t' \<and> view t' h = Some l \<and>
        (Some l, abs t') = spec_bind u w ip fixed now (abs t)"
    and move_law: "invar t \<Longrightarrow>
      \<exists>t'. move now t (Some u) w = Inr (find t (Some u), t') \<and> invar t' \<and>
        (Option.bind (find t (Some u)) (view t'), abs t') = spec_migrate u w now (abs t)"
    and unlink_law: "invar t \<Longrightarrow>
      \<exists>h t'. unlink t w = Inr (h, t') \<and> invar t' \<and>
        (Option.bind h (view t'), abs t') = spec_unbind w (abs t) \<and> (h = None \<longleftrightarrow> snd (abs t) w = None) \<and>
        (\<exists>t''. destroy t' h = Inr t'' \<and> invar t'' \<and> abs t'' = abs t')"
begin

text \<open>Releasing a lease completely: unlink, then free.\<close>

definition drop_lease :: "'t \<Rightarrow> u32 \<Rightarrow> 't res" where
  "drop_lease t w = bindR (unlink t w) (\<lambda>(h, t'). destroy t' h)"

lemma drop_lease_law:
  assumes "invar t"
  shows "\<exists>t'. drop_lease t w = Inr t' \<and> invar t' \<and> abs t' = snd (spec_unbind w (abs t))"
proof -
  obtain h t' t'' where t: "unlink t w = Inr (h, t')" "(Option.bind h (view t'), abs t') = spec_unbind w (abs t)"
      "destroy t' h = Inr t''" "invar t''" "abs t'' = abs t'"
    using unlink_law [OF assms, of w] by blast
  from t(2) have "abs t' = snd (spec_unbind w (abs t))" by (metis snd_conv)
  with t show ?thesis by (simp add: drop_lease_def)
qed

text \<open>After a release the id is unknown, so that releasing again hands over nothing.\<close>

lemma unlink_twice:
  assumes "invar t" and "unlink t w = Inr (h, t')"
  shows "\<exists>t''. unlink t' w = Inr (None, t'') \<and> abs t'' = abs t'"
proof -
  have t': "invar t'" "snd (abs t') w = None"
    using unlink_law [OF assms(1), of w] assms(2)
    by (auto simp: spec_unbind_def split: option.splits)
  then show ?thesis
    using unlink_law [OF t'(1), of w] by (auto simp: spec_unbind_def)
qed

lemma bind_then_unlink:
  assumes "invar t" and "fst (abs t) u = None" and "snd (abs t) w = None"
  shows "\<exists>h t' t''. bind now t (Some u) w ip fixed = Inr (Some h, t') \<and> drop_lease t' w = Inr t'' \<and>
    invar t'' \<and> abs t'' = abs t"
proof -
  obtain h l t' where b: "bind now t (Some u) w ip fixed = Inr (Some h, t')" "invar t'"
      "(Some l, abs t') = spec_bind u w ip fixed now (abs t)"
    using bind_law [OF assms(1)] by blast
  moreover obtain t'' where "drop_lease t' w = Inr t''" "invar t''" "abs t'' = snd (spec_unbind w (abs t'))"
    using drop_lease_law [OF b(2)] by blast
  moreover have "snd (spec_unbind w (abs t')) = abs t"
  proof -
    have "abs t' = ((fst (abs t))(u \<mapsto> l), (snd (abs t))(w \<mapsto> u))"
      using b(3) assms(2) by (auto simp: spec_bind_def unindex_def Let_def)
    then show ?thesis using assms(2,3) by (simp add: spec_unbind_def fun_upd_idem prod_eq_iff)
  qed
  ultimately show ?thesis by auto
qed

text \<open>A migration changes the id and the time of the lease, never its address.\<close>

lemma move_keeps_address:
  assumes "invar t" and "fst (abs t) u = Some l"
  shows "\<exists>h t' l'. find t (Some u) = Some h \<and> move now t (Some u) w = Inr (Some h, t') \<and> invar t' \<and>
    view t' h = Some l' \<and> l' = l\<lparr>le_unique_id := w, le_acquired := now\<rparr> \<and>
    abs t' = snd (spec_migrate u w now (abs t))"
  using move_law [OF assms(1), of now u w] find_law [OF assms(1), of u] assms(2)
  by (auto simp: spec_migrate_def Let_def)

end

lemma migrate_meets_spec:
  assumes inv: "sm_inv L t"
  shows "\<exists>t'. migrate L now t (Some u) w = Inr (lookup_by_user L t (Some u), t') \<and> sm_inv L t' \<and>
    (Option.bind (lookup_by_user L t (Some u)) (sm_heap t'), sm_abs L t') = spec_migrate u w now (sm_abs L t)"
proof (cases "user_get L t u")
  case None
  then show ?thesis
    using inv migrate_effect(1) [OF inv None] sm_users_user_get(1) [OF inv None]
    by (simp add: lookup_by_user_def spec_migrate_def sm_abs_def)
next
  case (Some p)
  obtain l where l: "sm_heap t p = Some l" using sm_users_user_get(2) [OF inv Some] by blast
  obtain t' where "migrate L now t (Some u) w = Inr (Some p, t')" "sm_inv L t'"
      "sm_heap t' = (sm_heap t)(p \<mapsto> l\<lparr>le_unique_id := w, le_acquired := now\<rparr>)"
      "(Some (l\<lparr>le_unique_id := w, le_acquired := now\<rparr>), sm_abs L t') = spec_migrate u w now (sm_abs L t)"
    using migrate_effect(2) [OF inv Some l] by blast
  then show ?thesis by (auto simp: lookup_by_user_def Some)
qed

lemma unbind_meets_spec:
  assumes inv: "sm_inv L t"
  shows "\<exists>h t'. unbind L t w = Inr (h, t') \<and> sm_inv L t' \<and>
    (Option.bind h (sm_heap t'), sm_abs L t') = spec_unbind w (sm_abs L t) \<and> (h = None \<longleftrightarrow> snd (sm_abs L t) w = None) \<and>
    (\<exists>t''. lease_destroy t' h = Inr t'' \<and> sm_inv L t'' \<and> sm_abs L t'' = sm_abs L t')"
proof (cases "uid_get L t (uid_key w)")
  case None
  then show ?thesis
    using unbind_effect(1) [OF inv None] sm_uids_uid_get(1) [OF inv None]
    by (auto simp: spec_unbind_def sm_abs_def lease_destroy_def)
next
  case (Some p)
  obtain l u where l: "sm_uids L t w = Some u" "user_get L t u = Some p" "sm_users L t u = Some l"
      "sm_heap t p = Some l" "le_unique_id l = w"
    using sm_uids_uid_get(2) [OF inv Some] by blast
  obtain t' where t': "unbind L t w = Inr (Some p, t')" "sm_detach L t p t'"
    using unbind_effect(2) [OF inv Some] by blast
  note dc = detach_coherent [OF inv l(2) t'(2)]
  have heap: "sm_heap t' = sm_heap t" using t'(2) by (auto simp: sm_detach_def)
  then have "sm_heap t' p = Some l" using l(4) by simp
  from free_detached [OF dc(1) this dc(4,5)]
  show ?thesis using t'(1) dc l heap by (auto simp: spec_unbind_def sm_abs_def)
qed

interpretation sm: lease_table "bind_lease L True True" "migrate L" "lookup_by_user L" "unbind L" lease_destroy
    sm_heap "sm_abs L" "sm_inv L"
  for L :: "('u, 's, 'f) strongswan"
proof (unfold_locales, goal_cases)
  case (1 t w u)
  then show ?case
    using sm_uids_uid_get [OF 1(1), of w] by (cases "uid_get L t (uid_key w)") (auto simp: sm_abs_def)
next
  case (2 t u l)
  then show ?case
    using sm_users_user_get [OF 2(1), of u] by (cases "user_get L t u") (auto simp: sm_abs_def)
next
  case (3 t u)
  then show ?case
    using sm_users_user_get [OF 3, of u]
    by (cases "user_get L t u") (auto simp: sm_abs_def lookup_by_user_def)
next
  case (4 t now u w ip fixed)
  then show ?case using bind_effect by blast
next
  case (5 t now u w)
  then show ?case by (rule migrate_meets_spec)
next
  case (6 t w)
  then show ?case by (rule unbind_meets_spec)
qed

section \<open>Destruction\<close>

text \<open>Freeing distinct live leases, one after the other, never faults and frees exactly those.\<close>

lemma destroy_all:
  assumes "distinct (map snd kps)" and "\<And>k p. (k, p) \<in> set kps \<Longrightarrow> sm_heap sm p \<noteq> None"
  shows "foldR (\<lambda>(k, p) s. lease_destroy s (Some p)) kps sm =
    Inr (sm\<lparr>sm_heap := (\<lambda>p. if p \<in> snd ` set kps then None else sm_heap sm p)\<rparr>)"
  using assms
proof (induction kps arbitrary: sm)
  case (Cons kp kps)
  obtain k p where kp: "kp = (k, p)" by fastforce
  obtain l where l: "sm_heap sm p = Some l" using Cons.prems(2) [of k p] by (auto simp: kp)
  let ?sm = "sm\<lparr>sm_heap := (sm_heap sm)(p := None)\<rparr>"
  have live: "sm_heap ?sm q \<noteq> None" if "(j, q) \<in> set kps" for j q
    using that Cons.prems(1) Cons.prems(2) [of j q] by (force simp: kp)
  have "foldR (\<lambda>(k, p) s. lease_destroy s (Some p)) kps ?sm =
      Inr (?sm\<lparr>sm_heap := (\<lambda>q. if q \<in> snd ` set kps then None else sm_heap ?sm q)\<rparr>)"
    by (rule Cons.IH) (use Cons.prems(1) live in simp_all)
  moreover have "(\<lambda>q. if q \<in> snd ` set kps then None else sm_heap ?sm q) =
      (\<lambda>q. if q \<in> snd ` set (kp # kps) then None else sm_heap sm q)"
    by (auto simp: kp fun_eq_iff)
  moreover have "lease_destroy sm (Some p) = Inr ?sm" using l by (simp add: lease_destroy_def store_simps)
  ultimately show ?case by (simp add: kp)
qed simp

lemma destroy_effect:
  assumes inv: "sm_inv L sm"
  shows "\<exists>sm'. session_manager_destroy L sm = Inr sm' \<and>
    (\<forall>p. sm_heap sm' p = (if \<exists>k. uid_get L sm k = Some p then None else sm_heap sm p))"
proof -
  have "sm_heap sm p \<noteq> None" if "(k, p) \<in> set (ht_enum (uid_ht L) (sm_by_uid sm))" for k p
    using inv coherent_uid [of L sm k p] that by (auto simp: sm_inv_def uid_enum(1) [OF inv])
  note all = destroy_all [OF uid_enum(2) [OF inv] this]
  have iff: "p \<in> snd ` set (ht_enum (uid_ht L) (sm_by_uid sm)) \<longleftrightarrow> (\<exists>k. uid_get L sm k = Some p)" for p
    using uid_enum(1) [OF inv, of _ p] by force
  have "session_manager_destroy L sm = Inr (sm\<lparr>sm_heap := (\<lambda>p. if \<exists>k. uid_get L sm k = Some p then None else sm_heap sm p)\<rparr>)"
    unfolding session_manager_destroy_def by (subst all) (simp_all add: iff)
  then show ?thesis by simp
qed

section \<open>Properties\<close>

text \<open>A table with one lease, made by the operations themselves, for the closed examples.\<close>

definition demo_sessions :: "((u64, nat) atable, (string, nat) atable) session_manager" where
  "demo_sessions = session_manager_create demo_lib"

definition demo_bound :: "((u64, nat) atable, (string, nat) atable) session_manager" where
  "demo_bound =
     \<lparr>sm_heap = [0 \<mapsto> \<lparr>le_username = Some ''vip'', le_unique_id = 7, le_ip = None, le_fixed = False, le_acquired = 100\<rparr>],
      sm_next = 1, sm_by_uid = (KeyEq (=), [(uid_key 7, 0)]), sm_by_user = (KeyEq (=), [(''vip'', 0)])\<rparr>"

lemma demo_bind: "bind_lease demo_lib True True 100 demo_sessions (Some ''vip'') 7 None False = Inr (Some 0, demo_bound)"
  by (simp add: bind_lease_def evict_def lease_create_def demo_sessions_def session_manager_create_def
      demo_bound_def deref_def)

lemma demo_sessions_inv: "sm_inv demo_lib demo_sessions"
  unfolding demo_sessions_def by (rule create_effect(1)) (rule demo_lib_ok)

lemma demo_bound_inv: "sm_inv demo_lib demo_bound"
  using bind_effect [OF demo_sessions_inv, of 100 "''vip''" 7 None False] by (auto simp: demo_bind)

lemma demo_bound_users: "sm_users demo_lib demo_bound ''vip'' =
    Some \<lparr>le_username = Some ''vip'', le_unique_id = 7, le_ip = None, le_fixed = False, le_acquired = 100\<rparr>"
  and demo_bound_uids: "sm_uids demo_lib demo_bound 7 = Some ''vip''"
  by (simp_all add: sm_users_def sm_uids_def demo_bound_def)

text \<open>C11: the operations of the table implement the specification on its two maps: on a well-formed
  table none of them faults, each keeps the table well-formed, hands out the lease the specification
  names and changes the maps as it says; lookup reads the first map, and a NULL name is refused.\<close>

theorem lease_table_refines_spec:
  assumes "sm_inv L sm"
  shows "(\<exists>p l sm'. bind_lease L True True now sm (Some u) w ip fixed = Inr (Some p, sm') \<and> sm_inv L sm' \<and>
      sm_heap sm' p = Some l \<and> (Some l, sm_abs L sm') = spec_bind u w ip fixed now (sm_abs L sm)) \<and>
    (\<exists>sm'. migrate L now sm (Some u) w = Inr (lookup_by_user L sm (Some u), sm') \<and> sm_inv L sm' \<and>
      (Option.bind (lookup_by_user L sm (Some u)) (sm_heap sm'), sm_abs L sm') = spec_migrate u w now (sm_abs L sm)) \<and>
    (\<exists>h sm'. unbind L sm w = Inr (h, sm') \<and> sm_inv L sm' \<and>
      (Option.bind h (sm_heap sm'), sm_abs L sm') = spec_unbind w (sm_abs L sm)) \<and>
    Option.bind (lookup_by_user L sm (Some u)) (sm_heap sm) = fst (sm_abs L sm) u \<and>
    bind_lease L True True now sm None w ip fixed = Inr (None, sm) \<and>
    migrate L now sm None w = Inr (None, sm) \<and> lookup_by_user L sm None = None"
  using sm.bind_law [OF assms, of now u w ip fixed] sm.move_law [OF assms, of now u w]
    sm.unlink_law [OF assms, of w] sm.find_law [OF assms, of u]
  by (auto simp: bind_lease_def [of _ _ _ _ _ None] migrate_def [of _ _ _ None] lookup_by_user_def [of _ _ None]
      split: option.splits)

theorem lease_table_refines_spec_witness:
  "\<exists>p sm'. migrate demo_lib 200 demo_bound (Some ''vip'') 9 = Inr (p, sm') \<and> sm_inv demo_lib sm' \<and>
    Option.bind p (sm_heap sm') = Some \<lparr>le_username = Some ''vip'', le_unique_id = 9, le_ip = None, le_fixed = False,
      le_acquired = 200\<rparr> \<and> snd (sm_abs demo_lib sm') 7 = None \<and> snd (sm_abs demo_lib sm') 9 = Some ''vip''"
proof -
  obtain sm' where "migrate demo_lib 200 demo_bound (Some ''vip'') 9 = Inr (lookup_by_user demo_lib demo_bound (Some ''vip''), sm')"
      "sm_inv demo_lib sm'" "(Option.bind (lookup_by_user demo_lib demo_bound (Some ''vip'')) (sm_heap sm'), sm_abs demo_lib sm')
        = spec_migrate ''vip'' 9 200 (sm_abs demo_lib demo_bound)"
    using lease_table_refines_spec [OF demo_bound_inv, of 200 "''vip''" 9] by blast
  moreover have "sm_abs demo_lib demo_bound = (sm_users demo_lib demo_bound, sm_uids demo_lib demo_bound)"
    by (simp add: sm_abs_def)
  ultimately show ?thesis
    by (auto simp: spec_migrate_def demo_bound_users unindex_def Let_def)
qed

text \<open>\<open>unbind\<close> hands each lease over once: the lease of a known id is returned, still alive, the id
  and the user are forgotten, \<open>lease_destroy\<close> then frees exactly that lease, and unbinding the id
  again returns NULL.\<close>

theorem unbind_hands_over_once:
  assumes "sm_inv L sm" and "sm_uids L sm w = Some u"
  shows "\<exists>p l sm1 sm2 sm3. unbind L sm w = Inr (Some p, sm1) \<and> sm_heap sm1 p = Some l \<and>
    le_unique_id l = w \<and> le_username l = Some u \<and> sm_users L sm1 u = None \<and>
    lease_destroy sm1 (Some p) = Inr sm2 \<and> sm_heap sm2 = (sm_heap sm)(p := None) \<and> sm_inv L sm2 \<and>
    unbind L sm2 w = Inr (None, sm3) \<and> sm_abs L sm3 = sm_abs L sm2"
proof -
  obtain p where p: "uid_get L sm (uid_key w) = Some p"
    using assms(2) by (auto simp: sm_uids_def bind_eq_Some_conv)
  obtain l where l: "user_get L sm u = Some p" "sm_heap sm p = Some l" "le_unique_id l = w" "le_username l = Some u"
    using sm_uids_uid_get(2) [OF assms(1) p] assms(2) by auto
  obtain sm1 where sm1: "unbind L sm w = Inr (Some p, sm1)" "sm_detach L sm p sm1"
    using unbind_effect(2) [OF assms(1) p] by blast
  note dc = detach_coherent [OF assms(1) l(1) sm1(2)]
  have d: "sm_heap sm1 = sm_heap sm" "sm_users L sm1 u = None" "uid_get L sm1 (uid_key w) = None"
    using sm1(2) l dc(2) by (auto simp: sm_detach_def)
  have "sm_heap sm1 p = Some l" using d(1) l(2) by simp
  from free_detached [OF dc(1) this dc(4,5)]
  obtain sm2 where sm2: "lease_destroy sm1 (Some p) = Inr sm2" "sm2 = sm1\<lparr>sm_heap := (sm_heap sm1)(p := None)\<rparr>" "sm_inv L sm2"
    by blast
  have "uid_get L sm2 (uid_key w) = None" using d(3) by (simp add: sm2(2))
  with unbind_effect(1) [OF sm2(3) this] sm1(1) sm2 l d show ?thesis by auto
qed

theorem unbind_hands_over_once_witness:
  "\<exists>p sm1 sm2. unbind demo_lib demo_bound 7 = Inr (Some p, sm1) \<and> lease_destroy sm1 (Some p) = Inr sm2 \<and>
    sm_heap sm2 = (sm_heap demo_bound)(p := None)"
  using unbind_hands_over_once [OF demo_bound_inv demo_bound_uids] by blast

lemma foldR_log: "foldR (\<lambda>p (s, log). Inr (s, log @ [p])) ps (s, log) = Inr (s, log @ ps)"
  by (induction ps arbitrary: log) simp_all

text \<open>\<open>foreach_expiring\<close> calls back exactly the leases that an id finds and that are older than the
  timeout, each once, on the state at the time of the call; a lease exactly as old as the timeout is
  not among them, and a NULL callback does nothing.  \<open>count\<close> is the number of ids in use.\<close>

theorem foreach_expiring_exactly_expired:
  assumes "sm_inv L sm"
  shows "\<exists>ps. foreach_expiring L fst (sm, []) now timeout (Some (\<lambda>p (s, log). Inr (s, log @ [p]))) = Inr (sm, ps) \<and>
    distinct ps \<and>
    (\<forall>p. p \<in> set ps \<longleftrightarrow> (\<exists>w l u. sm_uids L sm w = Some u \<and> lookup_by_user L sm (Some u) = Some p \<and>
       sm_heap sm p = Some l \<and> le_unique_id l = w \<and> now - le_acquired l > uint timeout)) \<and>
    foreach_expiring L id sm now timeout None = Inr sm \<and>
    session_count L sm = int (card (dom (sm_uids L sm)))"
proof -
  obtain ps where ps: "expiring L sm now timeout = Inr ps" "distinct ps"
      "\<forall>p. p \<in> set ps \<longleftrightarrow> (\<exists>w l. uid_get L sm (uid_key w) = Some p \<and> sm_heap sm p = Some l \<and>
         le_unique_id l = w \<and> now - le_acquired l > uint timeout)"
    using expiring_effect [OF assms] by blast
  have found: "uid_get L sm (uid_key w) = Some p \<longleftrightarrow>
      (\<exists>u. sm_uids L sm w = Some u \<and> user_get L sm u = Some p)" for w p
    using sm_uids_uid_get [OF assms, of w] by (cases "uid_get L sm (uid_key w)") auto
  have "foldR lease_cb ps sm = Inr sm" by (induction ps) (simp_all add: lease_cb_def)
  then show ?thesis
    using ps by (auto simp: foreach_expiring_def foldR_log session_count_def uid_enum(3) [OF assms] found
        lookup_by_user_def)
qed

theorem foreach_expiring_exactly_expired_witness:
  "\<exists>ps. foreach_expiring demo_lib fst (demo_bound, []) 161 60 (Some (\<lambda>p (s, log). Inr (s, log @ [p]))) = Inr (demo_bound, ps) \<and>
    0 \<in> set ps \<and> session_count demo_lib demo_bound = 1"
proof -
  have "lookup_by_user demo_lib demo_bound (Some ''vip'') = Some 0" "sm_heap demo_bound 0 = sm_users demo_lib demo_bound ''vip''"
    by (simp_all add: demo_bound_users) (simp_all add: lookup_by_user_def demo_bound_def)
  moreover have "session_count demo_lib demo_bound = 1" by (simp add: session_count_def demo_bound_def)
  ultimately show ?thesis
    using foreach_expiring_exactly_expired [OF demo_bound_inv, of 161 60] demo_bound_uids
    by (fastforce simp: demo_bound_users)
qed

text \<open>An id belongs to one lease.  Binding an id that another user's lease carries takes it away:
  that lease stays bound to its user but no id finds it any more, so that neither \<open>unbind\<close> nor the
  sweep reaches it and destroying the table leaks it.\<close>

theorem uid_clash_orphans_lease:
  assumes "sm_inv L sm" and "sm_uids L sm w = Some u" and "sm_users L sm u = Some l" and "u \<noteq> v"
  shows "\<exists>p sm' sm''. bind_lease L True True now sm (Some v) w ip fixed = Inr (Some p, sm') \<and>
    sm_users L sm' u = Some l \<and> (\<forall>w'. sm_uids L sm' w' \<noteq> Some u) \<and>
    session_manager_destroy L sm' = Inr sm'' \<and> (\<exists>q. sm_heap sm'' q = Some l)"
proof -
  have lw: "le_unique_id l = w" using sm.coherent [OF assms(1), of w u] assms(2,3) by (simp add: sm_abs_def)
  obtain p k sm' where b: "bind_lease L True True now sm (Some v) w ip fixed = Inr (Some p, sm')" "sm_inv L sm'"
      "(Some k, sm_abs L sm') = spec_bind v w ip fixed now (sm_abs L sm)"
    using sm.bind_law [OF assms(1), of now v w ip fixed] by blast
  then have users: "sm_users L sm' = (sm_users L sm)(v \<mapsto> k)"
    and uids: "sm_uids L sm' = (unindex (sm_users L sm v) (sm_uids L sm))(w \<mapsto> v)"
    by (auto simp: spec_bind_def sm_abs_def Let_def)
  have u: "sm_users L sm' u = Some l" using assms(3,4) by (simp add: users)
  then obtain q where q: "user_get L sm' u = Some q" "sm_heap sm' q = Some l"
    by (auto simp: sm_users_def bind_eq_Some_conv)
  have lost: "sm_uids L sm' w' \<noteq> Some u" for w'
  proof
    assume "sm_uids L sm' w' = Some u"
    with sm.coherent [OF b(2), of w' u] u lw have "w' = w" by (simp add: sm_abs_def)
    with \<open>sm_uids L sm' w' = Some u\<close> assms(4) show False by (simp add: uids)
  qed
  have "uid_get L sm' x \<noteq> Some q" for x
  proof
    assume x: "uid_get L sm' x = Some q"
    obtain l' u' where "sm_heap sm' q = Some l'" "x = uid_key (le_unique_id l')" "le_username l' = Some u'"
      using coherent_uid [of L sm' x q] x b(2) by (auto simp: sm_inv_def)
    with q x sm.named [OF b(2), of u l] u have "sm_uids L sm' (le_unique_id l) = Some u"
      by (simp add: sm_uids_def sm_abs_def)
    with lost show False by blast
  qed
  then obtain sm'' where "session_manager_destroy L sm' = Inr sm''" "sm_heap sm'' q = Some l"
    using destroy_effect [OF b(2)] q by auto
  with b(1) u lost show ?thesis by blast
qed

theorem uid_clash_orphans_lease_witness:
  "\<exists>p sm' sm''. bind_lease demo_lib True True 150 demo_bound (Some ''ops'') 7 None False = Inr (Some p, sm') \<and>
    (\<forall>w'. sm_uids demo_lib sm' w' \<noteq> Some ''vip'') \<and> session_manager_destroy demo_lib sm' = Inr sm'' \<and>
    (\<exists>q. sm_heap sm'' q \<noteq> None)"
  using uid_clash_orphans_lease [OF demo_bound_inv demo_bound_uids demo_bound_users, of "''ops''" 150 None False]
  by fastforce



end
