(* ===== verification/Fixed_Pool.thy ===== *)
theory Fixed_Pool
  imports Hash_Keys
begin

text \<open>
  \<open>fixed_pool.c\<close>: the table from user names to fixed addresses, a \<open>hashtable_t\<close> with a counter of
  its entries.  A \<open>NULL\<close> argument is \<open>None\<close>.  The locale \<open>user_table\<close> is what the loader and the
  policy engine rely on; it is interpreted on the definitions of this theory.
\<close>

section \<open>State and operations\<close>

record 'f fixed_pool =
  fp_users :: 'f
  fp_count :: int

definition fixed_pool_create :: "('u, 's, 'f) strongswan \<Rightarrow> 'f fixed_pool" where
  "fixed_pool_create L = \<lparr>fp_users = ht_create (fixed_ht L) cupp_str_hash cupp_str_eq 0, fp_count = 0\<rparr>"

definition fp_lookup :: "('u, 's, 'f) strongswan \<Rightarrow> 'f fixed_pool \<Rightarrow> string option \<Rightarrow> host option" where
  "fp_lookup L p user = (case user of None \<Rightarrow> None | Some u \<Rightarrow> ht_get (fixed_ht L) (fp_users p) u)"

definition fp_add ::
  "('u, 's, 'f) strongswan \<Rightarrow> 'f fixed_pool \<Rightarrow> string option \<Rightarrow> host option \<Rightarrow> bool \<times> 'f fixed_pool" where
  "fp_add L p user ip =
     (case (user, ip) of
        (Some u, Some h) \<Rightarrow>
          let (users, old) = ht_put (fixed_ht L) (fp_users p) u h in
          (True, \<lparr>fp_users = users,
                  fp_count = (case old of None \<Rightarrow> fp_count p + 1 | Some _ \<Rightarrow> fp_count p)\<rparr>)
      | _ \<Rightarrow> (False, p))"

definition fp_get_count :: "'f fixed_pool \<Rightarrow> int" where
  "fp_get_count p = fp_count p"

section \<open>The table as a map\<close>

definition fp_view :: "('u, 's, 'f) strongswan \<Rightarrow> 'f fixed_pool \<Rightarrow> string \<Rightarrow> host option" where
  "fp_view L p = ht_get (fixed_ht L) (fp_users p)"

definition fp_inv :: "('u, 's, 'f) strongswan \<Rightarrow> 'f fixed_pool \<Rightarrow> bool" where
  "fp_inv L p \<longleftrightarrow>
     ht_table (fixed_ht L) cupp_str_hash (=) (fp_users p) \<and>
     finite (dom (fp_view L p)) \<and> fp_count p = int (card (dom (fp_view L p)))"

lemma fp_create_inv: "strongswan_ok L \<Longrightarrow> fp_inv L (fixed_pool_create L)"
  and fp_create_view: "strongswan_ok L \<Longrightarrow> fp_view L (fixed_pool_create L) = Map.empty"
proof -
  assume "strongswan_ok L"
  then show empty: "fp_view L (fixed_pool_create L) = Map.empty"
    by (simp add: fp_view_def fixed_pool_create_def fun_eq_iff ht_get_create fixed_ok)
  show "fp_inv L (fixed_pool_create L)"
    unfolding fp_inv_def empty by (auto simp: fixed_pool_create_def)
qed

lemma fp_add_law:
  assumes L: "strongswan_ok L" and inv: "fp_inv L p"
  shows "\<exists>q. fp_add L p (Some u) (Some h) = (True, q) \<and> fp_inv L q \<and> fp_view L q = (fp_view L p)(u \<mapsto> h)"
proof -
  let ?t = "fp_users p"
  have tab: "ht_table (fixed_ht L) cupp_str_hash (=) ?t" using inv by (simp add: fp_inv_def)
  note ops = ht_ops [OF fixed_ok [OF L] tab]
  define q where "q = snd (fp_add L p (Some u) (Some h))"
  have q: "fp_add L p (Some u) (Some h) = (True, q)"
    by (simp add: q_def fp_add_def split: prod.split)
  have users: "fp_users q = fst (ht_put (fixed_ht L) ?t u h)"
    and count: "fp_count q = (if fp_view L p u = None then fp_count p + 1 else fp_count p)"
    using ops(1) [of u h]
    by (cases "ht_put (fixed_ht L) ?t u h"; cases "ht_get (fixed_ht L) ?t u";
        simp add: q_def fp_add_def fp_view_def)+
  have view: "fp_view L q = (fp_view L p)(u \<mapsto> h)"
    by (rule ext) (simp add: fp_view_def users ops)
  have "fp_inv L q"
    using inv tab by (auto simp: fp_inv_def view count users card_insert_if dom_def [symmetric] domIff)
  with q view show ?thesis by blast
qed

section \<open>The contract of the table\<close>

text \<open>Adding a list of entries with an \<open>add\<close>: the last entry of a name counts.\<close>

definition add_all :: "('t \<Rightarrow> 'k option \<Rightarrow> 'v option \<Rightarrow> bool \<times> 't) \<Rightarrow> ('k \<times> 'v) list \<Rightarrow> 't \<Rightarrow> 't" where
  "add_all add kvs t = fold (\<lambda>(k, v) s. snd (add s (Some k) (Some v))) kvs t"

lemma add_all_simps [simp]:
  "add_all add [] t = t"
  "add_all add ((k, v) # kvs) t = add_all add kvs (snd (add t (Some k) (Some v)))"
  by (simp_all add: add_all_def)

text \<open>
  \<open>env\<close> is the hypothesis under which a new table is well-formed.
\<close>

locale user_table =
  fixes env :: bool
    and empty :: 't
    and lookup :: "'t \<Rightarrow> 'k option \<Rightarrow> 'v option"
    and add :: "'t \<Rightarrow> 'k option \<Rightarrow> 'v option \<Rightarrow> bool \<times> 't"
    and count :: "'t \<Rightarrow> int"
    and view :: "'t \<Rightarrow> 'k \<Rightarrow> 'v option"
    and invar :: "'t \<Rightarrow> bool"
  assumes empty_invar: "env \<Longrightarrow> invar empty"
    and empty_view: "env \<Longrightarrow> view empty = Map.empty"
    and lookup_view: "lookup t (Some k) = view t k"
    and add_law: "invar t \<Longrightarrow>
      \<exists>s. add t (Some k) (Some v) = (True, s) \<and> invar s \<and> view s = (view t)(k \<mapsto> v)"
    and count_card: "invar t \<Longrightarrow> count t = int (card (dom (view t)))"
begin

lemma snd_add:
  assumes "invar t"
  shows "invar (snd (add t (Some k) (Some v)))"
    and "view (snd (add t (Some k) (Some v))) = (view t)(k \<mapsto> v)"
  using add_law [OF assms, of k v] by auto

lemma lookup_add: "invar t \<Longrightarrow> lookup (snd (add t (Some k) (Some v))) (Some k') =
    (if k = k' then Some v else lookup t (Some k'))"
  by (simp add: lookup_view snd_add)

lemma add_all_invar: "invar t \<Longrightarrow> invar (add_all add kvs t)"
  by (induction kvs arbitrary: t) (auto simp: snd_add)

lemma add_all_view: "invar t \<Longrightarrow> view (add_all add kvs t) = view t ++ map_of (rev kvs)"
  by (induction kvs arbitrary: t) (auto simp: snd_add map_add_def fun_eq_iff split: option.splits)

lemma add_all_count: "invar t \<Longrightarrow> view t = Map.empty \<Longrightarrow> count (add_all add kvs t) = int (card (fst ` set kvs))"
  by (simp add: count_card add_all_invar add_all_view dom_map_of_conv_image_fst)

end

interpretation fp: user_table "strongswan_ok L" "fixed_pool_create L" "fp_lookup L" "fp_add L" fp_get_count
    "fp_view L" "\<lambda>p. strongswan_ok L \<and> fp_inv L p"
  for L :: "('u, 's, 'f) strongswan"
proof (unfold_locales, goal_cases)
  case (4 t k v)
  then show ?case using fp_add_law by blast
next
  case (3 t k)
  then show ?case by (simp add: fp_lookup_def fp_view_def)
qed (simp_all add: fp_create_inv fp_create_view, simp add: fp_inv_def fp_get_count_def)

section \<open>Properties\<close>

text \<open>\<open>add\<close> on a well-formed table binds the user to the address, keeps every other binding, and
  \<open>count\<close> stays the number of users, whether the user is new or replaced; \<open>lookup\<close> reads the binding
  back; \<open>NULL\<close> arguments are refused and change nothing.\<close>

theorem fixed_table_add_lookup:
  assumes "strongswan_ok L" and "fp_inv L p"
  shows "\<exists>q. fp_add L p (Some u) (Some h) = (True, q) \<and> fp_inv L q \<and>
    fp_lookup L q (Some u') = (if u = u' then Some h else fp_lookup L p (Some u')) \<and>
    fp_count q = (if fp_lookup L p (Some u) = None then fp_count p + 1 else fp_count p) \<and>
    fp_add L p None (Some h) = (False, p) \<and> fp_add L p (Some u) None = (False, p) \<and> fp_lookup L p None = None"
proof -
  obtain q where q: "fp_add L p (Some u) (Some h) = (True, q)" "fp_inv L q"
      "fp_view L q = (fp_view L p)(u \<mapsto> h)"
    using fp_add_law [OF assms] by blast
  have "fp_count q = (if fp_view L p u = None then fp_count p + 1 else fp_count p)"
    using q(2,3) assms(2) by (auto simp: fp_inv_def card_insert_if domIff)
  then show ?thesis
    using q by (auto simp: fp.lookup_view fp_add_def fp_lookup_def [of L p None])
qed

theorem fixed_table_add_lookup_witness:
  "\<exists>q. fp_add demo_lib (fixed_pool_create demo_lib) (Some ''vip'') (Some \<lparr>h_family = AF_INET, h_address = [1, 2, 3, 4]\<rparr>)
      = (True, q) \<and> fp_count q = 1 \<and>
    fp_lookup demo_lib q (Some ''vip'') = Some \<lparr>h_family = AF_INET, h_address = [1, 2, 3, 4]\<rparr>"
  using fixed_table_add_lookup [OF demo_lib_ok fp_create_inv [OF demo_lib_ok], of "''vip''" _ "''vip''"]
  by (fastforce simp: fp_lookup_def fixed_pool_create_def)

end
