(* ===== verification/Yaml_Loader.thy ===== *)
theory Yaml_Loader
  imports Fixed_Pool
begin

text \<open>
  \<open>yaml_loader.c\<close>: a state machine over the events of libyaml's parser.  libyaml is not part of the
  repository: the parser is the list of its answers, \<open>Some\<close> event or \<open>None\<close> for a parse error, and
  the file system is a function from paths to such lists.  The loop has no bound of its own; it
  returns because a parser ends its answers with an error or with \<open>YAML_STREAM_END_EVENT\<close>, so the
  loop over a list that does neither is \<open>None\<close>: it has not returned.
\<close>

section \<open>Events and loader state\<close>

datatype yaml_event =
    Stream_Start | Stream_End | Document_Start | Document_End | Alias
  | Scalar string | Sequence_Start | Sequence_End | Mapping_Start | Mapping_End

datatype yaml_file = Open_Failed | Init_Failed | Answers "yaml_event option list"

datatype state_t = S_TOP | S_USERS | S_USER | S_POOL

instantiation state_t :: enum
begin

definition "enum_state_t = [S_TOP, S_USERS, S_USER, S_POOL]"
definition "enum_all_state_t P \<longleftrightarrow> P S_TOP \<and> P S_USERS \<and> P S_USER \<and> P S_POOL"
definition "enum_ex_state_t P \<longleftrightarrow> P S_TOP \<or> P S_USERS \<or> P S_USER \<or> P S_POOL"

instance
proof
  have all: "(UNIV :: state_t set) = {S_TOP, S_USERS, S_USER, S_POOL}"
    using state_t.exhaust by auto
  show "(UNIV :: state_t set) = set Enum.enum" by (simp add: all enum_state_t_def)
  show "distinct (Enum.enum :: state_t list)" by (simp add: enum_state_t_def)
  fix P :: "state_t \<Rightarrow> bool"
  show "Enum.enum_all P \<longleftrightarrow> Ball UNIV P" by (simp add: all enum_all_state_t_def)
  show "Enum.enum_ex P \<longleftrightarrow> Bex UNIV P" by (simp add: all enum_ex_state_t_def)
qed

end

text \<open>The local variables of \<open>yaml_load_policy\<close> and the objects it fills.\<close>

record 'f loader =
  ld_st :: state_t
  ld_pending :: "string option"
  ld_cur_user :: string
  ld_fixed :: "'f fixed_pool"
  ld_start :: "host option"
  ld_end :: "host option"

section \<open>One event\<close>

text \<open>\<open>YAML_MAPPING_START_EVENT\<close>\<close>

definition on_mapping_start :: "'f loader \<Rightarrow> 'f loader" where
  "on_mapping_start ld =
     (case (ld_st ld, ld_pending ld) of
        (S_TOP, Some key) \<Rightarrow>
          ld\<lparr>ld_st := (if key = ''users'' then S_USERS else if key = ''pool'' then S_POOL else S_TOP),
             ld_pending := None\<rparr>
      | (S_USERS, Some key) \<Rightarrow>
          ld\<lparr>ld_cur_user := snprintf_s 256 key, ld_st := S_USER, ld_pending := None\<rparr>
      | _ \<Rightarrow> ld)"

text \<open>\<open>YAML_MAPPING_END_EVENT\<close>\<close>

definition on_mapping_end :: "'f loader \<Rightarrow> 'f loader" where
  "on_mapping_end ld =
     (case ld_st ld of
        S_USER \<Rightarrow> ld\<lparr>ld_st := S_USERS, ld_cur_user := ''''\<rparr>
      | S_USERS \<Rightarrow> ld\<lparr>ld_st := S_TOP\<rparr>
      | S_POOL \<Rightarrow> ld\<lparr>ld_st := S_TOP\<rparr>
      | S_TOP \<Rightarrow> ld)"

text \<open>\<open>YAML_SCALAR_EVENT\<close>: the first scalar of a pair is kept, the second completes it.  The value is
  used as a C string.  \<open>pool_out\<close> says that both output pointers are given.\<close>

definition on_pair ::
  "('u, 's, 'f) strongswan \<Rightarrow> bool \<Rightarrow> string \<Rightarrow> string \<Rightarrow> 'f loader \<Rightarrow> 'f loader" where
  "on_pair L pool_out key val ld =
     (if ld_st ld = S_USER \<and> key = ''ip'' then
        (case host_create_from_string L val 0 of
           Some ip \<Rightarrow> ld\<lparr>ld_fixed := snd (fp_add L (ld_fixed ld) (Some (ld_cur_user ld)) (Some ip))\<rparr>
         | None \<Rightarrow> ld)
      else if ld_st ld = S_POOL \<and> pool_out then
        (if key = ''start'' then ld\<lparr>ld_start := host_create_from_string L val 0\<rparr>
         else if key = ''end'' then ld\<lparr>ld_end := host_create_from_string L val 0\<rparr>
         else ld)
      else ld)"

definition on_scalar :: "('u, 's, 'f) strongswan \<Rightarrow> bool \<Rightarrow> string \<Rightarrow> 'f loader \<Rightarrow> 'f loader" where
  "on_scalar L pool_out value ld =
     (let val = cstr value in
      case ld_pending ld of
        None \<Rightarrow> ld\<lparr>ld_pending := Some val\<rparr>
      | Some key \<Rightarrow> (on_pair L pool_out key val ld)\<lparr>ld_pending := None\<rparr>)"

definition on_event :: "('u, 's, 'f) strongswan \<Rightarrow> bool \<Rightarrow> yaml_event \<Rightarrow> 'f loader \<Rightarrow> 'f loader" where
  "on_event L pool_out ev ld =
     (case ev of
        Mapping_Start \<Rightarrow> on_mapping_start ld
      | Mapping_End \<Rightarrow> on_mapping_end ld
      | Scalar value \<Rightarrow> on_scalar L pool_out value ld
      | _ \<Rightarrow> ld)"

section \<open>The loop and the function\<close>

fun yaml_loop ::
  "('u, 's, 'f) strongswan \<Rightarrow> bool \<Rightarrow> yaml_event option list \<Rightarrow> 'f loader \<Rightarrow> (int \<times> 'f loader) option" where
  "yaml_loop L out [] ld = None"
| "yaml_loop L out (None # answers) ld = Some (- 1, ld)"
| "yaml_loop L out (Some Stream_End # answers) ld = Some (0, ld)"
| "yaml_loop L out (Some ev # answers) ld = yaml_loop L out answers (on_event L out ev ld)"

definition loader_init :: "'f fixed_pool \<Rightarrow> host option \<Rightarrow> host option \<Rightarrow> 'f loader" where
  "loader_init fixed start end =
     \<lparr>ld_st = S_TOP, ld_pending = None, ld_cur_user = '''', ld_fixed = fixed, ld_start = start, ld_end = end\<rparr>"

text \<open>The result: return code, table, endpoints; the table argument may be NULL.\<close>

definition yaml_load_policy ::
  "('u, 's, 'f) strongswan \<Rightarrow> (string \<Rightarrow> yaml_file) \<Rightarrow> string option \<Rightarrow> 'f fixed_pool option \<Rightarrow> bool \<Rightarrow>
   host option \<Rightarrow> host option \<Rightarrow> (int \<times> 'f fixed_pool option \<times> host option \<times> host option) option" where
  "yaml_load_policy L files path fixed pool_out start end =
     (case (path, fixed) of
        (Some file, Some table) \<Rightarrow>
          (case files file of
             Open_Failed \<Rightarrow> Some (- 1, fixed, start, end)
           | Init_Failed \<Rightarrow> Some (- 1, fixed, start, end)
           | Answers answers \<Rightarrow>
               map_option (\<lambda>(rc, ld). (rc, Some (ld_fixed ld), ld_start ld, ld_end ld))
                 (yaml_loop L pool_out answers (loader_init table start end)))
      | _ \<Rightarrow> Some (- 1, fixed, start, end))"

section \<open>Runs of the loop\<close>

text \<open>What libyaml promises: its answers end with an error or with the end of the stream.\<close>

definition parser_ends :: "yaml_event option list \<Rightarrow> bool" where
  "parser_ends answers \<longleftrightarrow> None \<in> set answers \<or> Some Stream_End \<in> set answers"

lemma yaml_loop_returns_iff: "(\<exists>r. yaml_loop L out answers ld = Some r) \<longleftrightarrow> parser_ends answers"
  by (induction L out answers ld rule: yaml_loop.induct) (simp_all add: parser_ends_def)

lemma yaml_loop_rc: "yaml_loop L out answers ld = Some (rc, ld') \<Longrightarrow> rc = 0 \<or> rc = - 1"
  by (induction L out answers ld rule: yaml_loop.induct) simp_all

definition run_events :: "('u, 's, 'f) strongswan \<Rightarrow> bool \<Rightarrow> yaml_event list \<Rightarrow> 'f loader \<Rightarrow> 'f loader" where
  "run_events L out evs ld = fold (on_event L out) evs ld"

lemma run_events_simps [simp]:
  "run_events L out [] ld = ld"
  "run_events L out (ev # evs) ld = run_events L out evs (on_event L out ev ld)"
  "run_events L out (evs @ evs') ld = run_events L out evs' (run_events L out evs ld)"
  by (simp_all add: run_events_def)

lemma yaml_loop_events:
  "Stream_End \<notin> set evs \<Longrightarrow>
    yaml_loop L out (map Some evs @ rest) ld = yaml_loop L out rest (run_events L out evs ld)"
proof (induction evs arbitrary: ld)
  case (Cons ev evs)
  then show ?case by (cases ev) simp_all
qed simp

lemma on_event_simps [simp]:
  "on_event L out Stream_Start ld = ld"
  "on_event L out Stream_End ld = ld"
  "on_event L out Document_Start ld = ld"
  "on_event L out Document_End ld = ld"
  "on_event L out Sequence_Start ld = ld"
  "on_event L out Sequence_End ld = ld"
  "on_event L out Alias ld = ld"
  "on_event L out Mapping_Start ld = on_mapping_start ld"
  "on_event L out Mapping_End ld = on_mapping_end ld"
  "on_event L out (Scalar v) ld = on_scalar L out v ld"
  by (simp_all add: on_event_def)

text \<open>Whatever the events, the table stays well-formed.\<close>

lemma on_event_table:
  assumes "strongswan_ok L" and "fp_inv L (ld_fixed ld)"
  shows "fp_inv L (ld_fixed (on_event L out ev ld))"
proof -
  have "fp_inv L (snd (fp_add L (ld_fixed ld) (Some u) (Some h)))" for u h
    using fp_add_law [OF assms, of u h] by auto
  then show ?thesis
    using assms(2)
    by (cases ev; cases "ld_st ld")
      (auto simp: on_mapping_start_def on_mapping_end_def on_scalar_def on_pair_def Let_def split: option.split)
qed

lemma yaml_loop_table:
  "yaml_loop L out answers ld = Some (rc, ld') \<Longrightarrow> strongswan_ok L \<Longrightarrow> fp_inv L (ld_fixed ld) \<Longrightarrow>
    fp_inv L (ld_fixed ld')"
  by (induction L out answers ld rule: yaml_loop.induct) (simp_all add: on_event_table del: on_event_simps)

section \<open>The documents of the documented schema\<close>

text \<open>
  The events of a document in the schema of the header comment: \<open>users\<close> with one \<open>ip\<close> each, and
  optionally \<open>pool\<close> with its two endpoints.
\<close>

definition user_events :: "string \<times> string \<Rightarrow> yaml_event list" where
  "user_events u = [Scalar (fst u), Mapping_Start, Scalar ''ip'', Scalar (snd u), Mapping_End]"

definition pool_events :: "(string \<times> string) option \<Rightarrow> yaml_event list" where
  "pool_events pool =
     (case pool of
        None \<Rightarrow> []
      | Some (s, e) \<Rightarrow>
          [Scalar ''pool'', Mapping_Start, Scalar ''start'', Scalar s, Scalar ''end'', Scalar e, Mapping_End])"

definition policy_events :: "(string \<times> string) list \<Rightarrow> (string \<times> string) option \<Rightarrow> yaml_event list" where
  "policy_events users pool =
     [Stream_Start, Document_Start, Mapping_Start, Scalar ''users'', Mapping_Start] @
     concat (map user_events users) @ [Mapping_End] @ pool_events pool @ [Mapping_End, Document_End]"

definition policy_answers ::
  "(string \<times> string) list \<Rightarrow> (string \<times> string) option \<Rightarrow> yaml_event option list" where
  "policy_answers users pool = map Some (policy_events users pool) @ [Some Stream_End]"

text \<open>The entries such a document stands for: users whose address does not parse are skipped, and a
  name keeps its first 255 bytes.\<close>

definition user_entry :: "('u, 's, 'f) strongswan \<Rightarrow> string \<times> string \<Rightarrow> (string \<times> host) option" where
  "user_entry L u =
     map_option (Pair (snprintf_s 256 (cstr (fst u)))) (host_create_from_string L (cstr (snd u)) 0)"

definition policy_entries ::
  "('u, 's, 'f) strongswan \<Rightarrow> (string \<times> string) list \<Rightarrow> (string \<times> host) list" where
  "policy_entries L users = List.map_filter (user_entry L) users"

definition pool_endpoint :: "('u, 's, 'f) strongswan \<Rightarrow> string option \<Rightarrow> host option" where
  "pool_endpoint L s = Option.bind s (\<lambda>s. host_create_from_string L (cstr s) 0)"

lemma pool_endpoint_None [simp]: "pool_endpoint L None = None"
  by (simp add: pool_endpoint_def)

lemma cstr_literals [simp]:
  "cstr ''users'' = ''users''" "cstr ''pool'' = ''pool''" "cstr ''ip'' = ''ip''"
  "cstr ''start'' = ''start''" "cstr ''end'' = ''end''"
  by (simp_all add: cstr_id)

lemma run_user:
  assumes "ld_st ld = S_USERS" and "ld_pending ld = None"
  shows "run_events L out (user_events u) ld =
    ld\<lparr>ld_cur_user := '''',
       ld_fixed := (case user_entry L u of None \<Rightarrow> ld_fixed ld
         | Some (n, h) \<Rightarrow> snd (fp_add L (ld_fixed ld) (Some n) (Some h)))\<rparr>"
  using assms
  by (cases "host_create_from_string L (cstr (snd u)) 0")
    (simp_all add: user_events_def user_entry_def on_scalar_def on_mapping_start_def on_mapping_end_def on_pair_def)

lemma run_users:
  "ld_st ld = S_USERS \<Longrightarrow> ld_pending ld = None \<Longrightarrow> ld_cur_user ld = '''' \<Longrightarrow>
    run_events L out (concat (map user_events users)) ld =
    ld\<lparr>ld_fixed := add_all (fp_add L) (policy_entries L users) (ld_fixed ld)\<rparr>"
proof (induction users arbitrary: ld)
  case (Cons u users)
  then show ?case
    by (cases "user_entry L u") (auto simp: run_user policy_entries_def List.map_filter_simps)
qed (simp add: policy_entries_def List.map_filter_simps)

lemma run_pool:
  assumes "ld_st ld = S_TOP" and "ld_pending ld = None"
  shows "run_events L True (pool_events pool) ld =
    (if pool = None then ld
     else ld\<lparr>ld_start := pool_endpoint L (map_option fst pool), ld_end := pool_endpoint L (map_option snd pool)\<rparr>)"
  using assms
  by (cases pool)
    (auto simp: pool_events_def on_scalar_def on_mapping_start_def on_mapping_end_def on_pair_def pool_endpoint_def)

lemma policy_events_end: "Stream_End \<notin> set (policy_events users pool)"
  by (auto simp: policy_events_def user_events_def pool_events_def split: option.splits prod.splits)

lemma load_policy_document:
  assumes "files path = Answers (policy_answers users pool)"
  shows "yaml_load_policy L files (Some path) (Some t) True None None =
    Some (0, Some (add_all (fp_add L) (policy_entries L users) t),
      pool_endpoint L (map_option fst pool), pool_endpoint L (map_option snd pool))"
proof -
  let ?ld = "loader_init t None None"
  have "run_events L True (policy_events users pool) ?ld =
    ?ld\<lparr>ld_fixed := add_all (fp_add L) (policy_entries L users) t,
        ld_start := pool_endpoint L (map_option fst pool), ld_end := pool_endpoint L (map_option snd pool)\<rparr>"
    by (cases pool)
      (simp_all add: policy_events_def loader_init_def on_scalar_def on_mapping_start_def on_mapping_end_def
        run_users run_pool)
  then show ?thesis
    using assms
    by (simp add: yaml_load_policy_def policy_answers_def yaml_loop_events policy_events_end loader_init_def)
qed

section \<open>Properties\<close>

text \<open>C29: \<open>yaml_load_policy\<close> returns exactly when the parser's answers end, with an error or with the
  end of the stream; and its code is then 0 or -1.\<close>

theorem load_returns_iff_parser_ends:
  assumes "files path = Answers answers"
  shows "((\<exists>r. yaml_load_policy L files (Some path) (Some t) out s e = Some r) \<longleftrightarrow> parser_ends answers) \<and>
    (\<forall>rc t' s' e'. yaml_load_policy L files (Some path) (Some t) out s e = Some (rc, t', s', e') \<longrightarrow>
      rc = 0 \<or> rc = - 1)"
  using assms yaml_loop_returns_iff [of L out answers "loader_init t s e"]
  by (auto simp: yaml_load_policy_def dest: yaml_loop_rc)

theorem load_returns_iff_parser_ends_witness:
  "\<exists>r. yaml_load_policy demo_lib (\<lambda>_. Answers [Some Stream_Start, None]) (Some ''p'')
    (Some (fixed_pool_create demo_lib)) True None None = Some r"
  using load_returns_iff_parser_ends [of "\<lambda>_. Answers [Some Stream_Start, None]" "''p''" _ demo_lib]
  by (simp add: parser_ends_def)

text \<open>C22: loading a document of the documented schema succeeds and yields exactly what it says: the
  users with a valid address, the last entry of a name counting, on top of what the table held, and
  the two endpoints of the pool, \<open>NULL\<close> where there is no pool or an endpoint does not parse.\<close>

theorem load_of_policy_document:
  assumes "strongswan_ok L" and "fp_inv L t" and "files path = Answers (policy_answers users pool)"
  shows "\<exists>t'. yaml_load_policy L files (Some path) (Some t) True None None =
      Some (0, Some t', pool_endpoint L (map_option fst pool), pool_endpoint L (map_option snd pool)) \<and>
    fp_inv L t' \<and> (\<forall>u. fp_lookup L t' (Some u) =
      (case map_of (rev (policy_entries L users)) u of None \<Rightarrow> fp_lookup L t (Some u) | Some h \<Rightarrow> Some h))"
proof -
  have inv: "strongswan_ok L \<and> fp_inv L t" using assms(1,2) by simp
  show ?thesis
    using load_policy_document [of files path users pool, OF assms(3), of L t] fp.add_all_invar [OF inv, of "policy_entries L users"]
      fp.add_all_view [OF inv, of "policy_entries L users"]
    by (auto simp: fp.lookup_view map_add_def split: option.split)
qed

theorem load_of_policy_document_witness:
  "\<exists>t'. yaml_load_policy demo_lib
      (\<lambda>_. Answers (policy_answers [(''vip'', ''abcd''), (''ops'', ''bad'')] (Some (''defg'', ''defz''))))
      (Some ''p'') (Some (fixed_pool_create demo_lib)) True None None =
    Some (0, Some t', Some \<lparr>h_family = AF_INET, h_address = [100, 101, 102, 103]\<rparr>,
      Some \<lparr>h_family = AF_INET, h_address = [100, 101, 102, 122]\<rparr>) \<and>
    fp_lookup demo_lib t' (Some ''vip'') = Some \<lparr>h_family = AF_INET, h_address = [97, 98, 99, 100]\<rparr> \<and>
    fp_lookup demo_lib t' (Some ''ops'') = None"
proof -
  have "policy_entries demo_lib [(''vip'', ''abcd''), (''ops'', ''bad'')] =
      [(''vip'', \<lparr>h_family = AF_INET, h_address = [97, 98, 99, 100]\<rparr>)]"
    by (simp add: policy_entries_def user_entry_def List.map_filter_simps demo_from_string_def cstr_id snprintf_s_def)
  moreover have "pool_endpoint demo_lib (Some ''defg'') = Some \<lparr>h_family = AF_INET, h_address = [100, 101, 102, 103]\<rparr>"
      "pool_endpoint demo_lib (Some ''defz'') = Some \<lparr>h_family = AF_INET, h_address = [100, 101, 102, 122]\<rparr>"
    by (simp_all add: pool_endpoint_def demo_from_string_def cstr_id)
  moreover have "fp_lookup demo_lib (fixed_pool_create demo_lib) (Some u) = None" for u
    by (simp add: fp_lookup_def fixed_pool_create_def)
  ultimately show ?thesis
    using load_of_policy_document [OF demo_lib_ok fp_create_inv [OF demo_lib_ok],
        of "\<lambda>_. Answers (policy_answers [(''vip'', ''abcd''), (''ops'', ''bad'')] (Some (''defg'', ''defz'')))"
          "''p''" "[(''vip'', ''abcd''), (''ops'', ''bad'')]" "Some (''defg'', ''defz'')"]
    by auto
qed

text \<open>A parse error anywhere before the end of the stream makes the load fail with -1, whatever
  was read before; so do a missing path or table, a file that cannot be opened and a parser that
  cannot be initialised, which leave the outputs alone.\<close>

theorem load_fails_on_errors:
  assumes "Stream_End \<notin> set evs"
  shows "(\<exists>r. yaml_load_policy L (\<lambda>_. Answers (map Some evs @ None # rest)) (Some path) (Some t) out s e =
      Some (- 1, r)) \<and>
    yaml_load_policy L (\<lambda>_. Open_Failed) (Some path) (Some t) out s e = Some (- 1, Some t, s, e) \<and>
    yaml_load_policy L (\<lambda>_. Init_Failed) (Some path) (Some t) out s e = Some (- 1, Some t, s, e) \<and>
    yaml_load_policy L files None (Some t) out s e = Some (- 1, Some t, s, e) \<and>
    yaml_load_policy L files (Some path) None out s e = Some (- 1, None, s, e)"
  using assms by (simp add: yaml_load_policy_def yaml_loop_events)

theorem load_fails_on_errors_witness:
  "\<exists>r. yaml_load_policy demo_lib (\<lambda>_. Answers [Some Stream_Start, Some Mapping_Start, None]) (Some ''p'')
    (Some (fixed_pool_create demo_lib)) True None None = Some (- 1, r)"
  using load_fails_on_errors [of "[Stream_Start, Mapping_Start]" demo_lib "[]" "''p''" "fixed_pool_create demo_lib"]
  by simp

text \<open>A file without any entry loads successfully as an empty policy without a pool.\<close>

theorem empty_file_loads:
  "yaml_load_policy L (\<lambda>_. Answers [Some Stream_Start, Some Stream_End]) (Some path) (Some t) out None None =
    Some (0, Some t, None, None)"
  by (simp add: yaml_load_policy_def loader_init_def)

text \<open>A user name of 256 bytes or more is stored under its first 255 bytes: a lookup of the name
  itself misses, and one of the prefix gets its address.\<close>

theorem long_user_names_are_cut:
  assumes "strongswan_ok L" and "CHR 0x00 \<notin> set name" and "255 < length name"
    and "host_create_from_string L ip 0 = Some h" and "CHR 0x00 \<notin> set ip"
    and "files path = Answers (policy_answers [(name, ip)] None)"
  shows "\<exists>t'. yaml_load_policy L files (Some path) (Some (fixed_pool_create L)) True None None =
      Some (0, Some t', None, None) \<and>
    fp_lookup L t' (Some name) = None \<and> fp_lookup L t' (Some (take 255 name)) = Some h"
proof -
  have inv: "strongswan_ok L \<and> fp_inv L (fixed_pool_create L)" using assms(1) fp_create_inv by blast
  have entries: "policy_entries L [(name, ip)] = [(take 255 name, h)]"
    using assms(2,4,5)
    by (simp add: policy_entries_def user_entry_def List.map_filter_simps cstr_id snprintf_s_def)
  have "name \<noteq> take 255 name" using assms(3) by (metis length_take min.absorb2 nat_less_le)
  then show ?thesis
    using load_policy_document [of files path _ None, OF assms(6), of L] fp.snd_add [OF inv, of "take 255 name" h]
    by (auto simp: entries fp.lookup_view fp_create_view [OF assms(1)])
qed

theorem long_user_names_are_cut_witness:
  "\<exists>t'. fp_lookup demo_lib t' (Some (replicate 256 CHR ''a'')) = None \<and>
    fp_lookup demo_lib t' (Some (replicate 255 CHR ''a'')) = Some \<lparr>h_family = AF_INET, h_address = [97, 98, 99, 100]\<rparr>"
  using long_user_names_are_cut [OF demo_lib_ok, of "replicate 256 CHR ''a''" "''abcd''" _
      "\<lambda>_. Answers (policy_answers [(replicate 256 CHR ''a'', ''abcd'')] None)" "''p''"]
  by (auto simp: demo_from_string_def take_replicate)

text \<open>An unknown key with a mapping inside a user's entry is not skipped: it makes the loader lose
  the user's address, and the load still reports success.\<close>

theorem nested_unknown_key_loses_address:
  "\<exists>t'. yaml_load_policy demo_lib
      (\<lambda>_. Answers (map Some [Stream_Start, Document_Start, Mapping_Start, Scalar ''users'', Mapping_Start,
         Scalar ''vip'', Mapping_Start, Scalar ''note'', Mapping_Start, Scalar ''a'', Scalar ''b'', Mapping_End,
         Scalar ''ip'', Scalar ''abcd'', Mapping_End, Mapping_End, Mapping_End, Document_End, Stream_End]))
      (Some ''p'') (Some (fixed_pool_create demo_lib)) True None None = Some (0, Some t', None, None) \<and>
    fp_lookup demo_lib t' (Some ''vip'') = None"
  by (simp add: yaml_load_policy_def loader_init_def on_mapping_start_def on_mapping_end_def on_scalar_def
      on_pair_def cstr_def snprintf_s_def fp_lookup_def fixed_pool_create_def)

end
