(* ===== verification/Policy_Engine.thy ===== *)
theory Policy_Engine
  imports Yaml_Loader
begin

text \<open>
  \<open>policy_engine.c\<close>: the snapshot in force, its lookup functions and the hot reload.  Snapshots live
  in a store of their own, because lookups return addresses borrowed from a snapshot, which is freed
  by the next reload: using one afterwards is the fault \<open>Use_After_Free\<close>.  The allocator's answers
  (\<open>calloc_ok\<close>) are arguments.  \<open>None\<close> as the result of a load means that the parser never ended.
\<close>

section \<open>State\<close>

record 'f snapshot =
  sn_fixed :: "'f fixed_pool option"
  sn_pool_start :: "host option"
  sn_pool_end :: "host option"

record 'f policy_engine =
  pe_store :: "'f snapshot store"
  pe_next :: nat
  pe_active :: "nat option"
  pe_path :: string

text \<open>A host borrowed from the snapshot at an address.\<close>

type_synonym borrowed = "nat \<times> host"

section \<open>Snapshots\<close>

definition snapshot_destroy :: "'f policy_engine \<Rightarrow> nat option \<Rightarrow> 'f policy_engine res" where
  "snapshot_destroy pe s =
     (case s of
        None \<Rightarrow> Inr pe
      | Some a \<Rightarrow> bindR (free_obj (pe_store pe) a) (\<lambda>store. Inr (pe\<lparr>pe_store := store\<rparr>)))"

text \<open>Loading: the snapshot, or NULL if it cannot be allocated or the document does not load.\<close>

definition snapshot_load ::
  "('u, 's, 'f) strongswan \<Rightarrow> (string \<Rightarrow> yaml_file) \<Rightarrow> bool \<Rightarrow> string \<Rightarrow> 'f snapshot option option" where
  "snapshot_load L files calloc_ok path =
     (if \<not> calloc_ok then Some None
      else map_option (\<lambda>(rc, fixed, start, end).
          if rc \<noteq> 0 then None
          else Some \<lparr>sn_fixed = fixed, sn_pool_start = start, sn_pool_end = end\<rparr>)
        (yaml_load_policy L files (Some path) (Some (fixed_pool_create L)) True None None))"

section \<open>Lookups\<close>

definition pe_lookup_in ::
  "('u, 's, 'f) strongswan \<Rightarrow> 'f policy_engine \<Rightarrow> nat option \<Rightarrow> string option \<Rightarrow> borrowed option res" where
  "pe_lookup_in L pe s user =
     (case s of
        None \<Rightarrow> Inr None
      | Some a \<Rightarrow> bindR (deref (pe_store pe) a) (\<lambda>sn.
          case (sn_fixed sn, user) of
            (Some t, Some u) \<Rightarrow> Inr (map_option (Pair a) (fp_lookup L t (Some u)))
          | _ \<Rightarrow> Inr None))"

definition pe_lookup_fixed ::
  "('u, 's, 'f) strongswan \<Rightarrow> 'f policy_engine \<Rightarrow> string option \<Rightarrow> borrowed option res" where
  "pe_lookup_fixed L pe user = pe_lookup_in L pe (pe_active pe) user"

text \<open>\<open>fixed_src->clone(fixed_src)\<close>: reads the borrowed host, which its snapshot owns.\<close>

definition borrow_clone :: "'f policy_engine \<Rightarrow> borrowed \<Rightarrow> host res" where
  "borrow_clone pe b = bindR (deref (pe_store pe) (fst b)) (\<lambda>_. Inr (snd b))"

definition pe_get_pool ::
  "'f policy_engine \<Rightarrow> host option \<Rightarrow> host option \<Rightarrow> (bool \<times> host option \<times> host option) res" where
  "pe_get_pool pe start end =
     (case pe_active pe of
        None \<Rightarrow> Inr (False, start, end)
      | Some a \<Rightarrow> bindR (deref (pe_store pe) a) (\<lambda>sn.
          case (sn_pool_start sn, sn_pool_end sn) of
            (Some s, Some e) \<Rightarrow> Inr (True, Some s, Some e)
          | _ \<Rightarrow> Inr (False, start, end)))"

section \<open>Creation and reload\<close>

text \<open>\<open>reload\<close> up to the end of its critical section: the old snapshot, when a new one is in force.\<close>

definition pe_swap :: "'f policy_engine \<Rightarrow> 'f snapshot \<Rightarrow> nat option \<times> 'f policy_engine" where
  "pe_swap pe fresh =
     (pe_active pe,
      pe\<lparr>pe_store := (pe_store pe)(pe_next pe \<mapsto> fresh), pe_next := Suc (pe_next pe),
         pe_active := Some (pe_next pe)\<rparr>)"

definition pe_reload ::
  "('u, 's, 'f) strongswan \<Rightarrow> (string \<Rightarrow> yaml_file) \<Rightarrow> bool \<Rightarrow> 'f policy_engine \<Rightarrow>
   (bool \<times> 'f policy_engine) res option" where
  "pe_reload L files calloc_ok pe =
     map_option (\<lambda>loaded.
       case loaded of
         None \<Rightarrow> Inr (False, pe)
       | Some fresh \<Rightarrow>
           let (old, pe') = pe_swap pe fresh in
           bindR (snapshot_destroy pe' old) (\<lambda>pe''. Inr (True, pe'')))
     (snapshot_load L files calloc_ok (pe_path pe))"

definition policy_engine_create ::
  "('u, 's, 'f) strongswan \<Rightarrow> (string \<Rightarrow> yaml_file) \<Rightarrow> bool \<Rightarrow> bool \<Rightarrow> string option \<Rightarrow>
   'f policy_engine option option" where
  "policy_engine_create L files snapshot_calloc_ok calloc_ok path =
     (case path of
        None \<Rightarrow> Some None
      | Some file \<Rightarrow>
          map_option (\<lambda>loaded.
            case loaded of
              None \<Rightarrow> None
            | Some s \<Rightarrow>
                if \<not> calloc_ok then None
                else Some \<lparr>pe_store = [0 \<mapsto> s], pe_next = 1, pe_active = Some 0, pe_path = file\<rparr>)
          (snapshot_load L files snapshot_calloc_ok file))"

definition policy_engine_destroy :: "'f policy_engine \<Rightarrow> 'f policy_engine res" where
  "policy_engine_destroy pe = snapshot_destroy pe (pe_active pe)"

section \<open>Well-formed engines\<close>

text \<open>Exactly the snapshot in force is alive, and its table is well-formed.\<close>

definition sn_inv :: "('u, 's, 'f) strongswan \<Rightarrow> 'f snapshot \<Rightarrow> bool" where
  "sn_inv L sn \<longleftrightarrow> (\<exists>t. sn_fixed sn = Some t \<and> fp_inv L t)"

definition pe_inv :: "('u, 's, 'f) strongswan \<Rightarrow> 'f policy_engine \<Rightarrow> bool" where
  "pe_inv L pe \<longleftrightarrow>
     (\<exists>a sn. pe_active pe = Some a \<and> pe_store pe = [a \<mapsto> sn] \<and> a < pe_next pe \<and> sn_inv L sn)"

text \<open>What an engine in that state answers.\<close>

definition pe_fixed :: "('u, 's, 'f) strongswan \<Rightarrow> 'f policy_engine \<Rightarrow> string \<Rightarrow> host option" where
  "pe_fixed L pe u =
     Option.bind (pe_active pe) (\<lambda>a. Option.bind (pe_store pe a) (\<lambda>sn.
       Option.bind (sn_fixed sn) (\<lambda>t. fp_lookup L t (Some u))))"

lemma pe_lookup_fixed_law:
  assumes "pe_inv L pe"
  shows "\<exists>a. pe_active pe = Some a \<and>
    pe_lookup_fixed L pe (Some u) = Inr (map_option (Pair a) (pe_fixed L pe u)) \<and>
    (\<forall>h. borrow_clone pe (a, h) = Inr h)"
  using assms
  by (auto simp: pe_inv_def sn_inv_def pe_lookup_fixed_def pe_lookup_in_def pe_fixed_def borrow_clone_def
      store_simps)

text \<open>What the allocator relies on: a lookup lends the user's address, and it can be copied as long as the
  policy is not exchanged.\<close>

locale policy_source =
  fixes lend :: "'e \<Rightarrow> string option \<Rightarrow> 'b option res"
    and copy :: "'e \<Rightarrow> 'b \<Rightarrow> host res"
    and view :: "'e \<Rightarrow> string \<Rightarrow> host option"
    and invar :: "'e \<Rightarrow> bool"
  assumes lend_none: "invar e \<Longrightarrow> view e u = None \<Longrightarrow> lend e (Some u) = Inr None"
    and lend_some: "invar e \<Longrightarrow> view e u = Some h \<Longrightarrow> \<exists>b. lend e (Some u) = Inr (Some b) \<and> copy e b = Inr h"
begin

lemma fetch:
  assumes "invar e"
  shows "bindR (lend e (Some u)) (\<lambda>r. case r of None \<Rightarrow> Inr None | Some b \<Rightarrow> bindR (copy e b) (\<lambda>h. Inr (f h))) =
    Inr (Option.bind (view e u) f)"
  using lend_none [OF assms, of u] lend_some [OF assms, of u] by (cases "view e u") auto

end

interpretation pe: policy_source "pe_lookup_fixed L" borrow_clone "pe_fixed L" "pe_inv L"
  for L :: "('u, 's, 'f) strongswan"
proof (unfold_locales, goal_cases)
  case (1 pe u)
  then show ?case using pe_lookup_fixed_law [OF 1(1), of u] by auto
next
  case (2 pe u h)
  then show ?case using pe_lookup_fixed_law [OF 2(1), of u] by auto
qed

text \<open>The snapshot a document of the schema loads as.\<close>

definition document_snapshot ::
  "('u, 's, 'f) strongswan \<Rightarrow> (string \<times> string) list \<Rightarrow> (string \<times> string) option \<Rightarrow> 'f snapshot" where
  "document_snapshot L users pool =
     \<lparr>sn_fixed = Some (add_all (fp_add L) (policy_entries L users) (fixed_pool_create L)),
      sn_pool_start = pool_endpoint L (map_option fst pool),
      sn_pool_end = pool_endpoint L (map_option snd pool)\<rparr>"

lemma snapshot_load_document:
  "files path = Answers (policy_answers users pool) \<Longrightarrow>
    snapshot_load L files True path = Some (Some (document_snapshot L users pool))"
  using load_policy_document [of files path users pool L "fixed_pool_create L"]
  by (simp add: snapshot_load_def document_snapshot_def)

lemma document_snapshot_inv: "strongswan_ok L \<Longrightarrow> sn_inv L (document_snapshot L users pool)"
  using fp.add_all_invar fp_create_inv by (auto simp: sn_inv_def document_snapshot_def)

lemma document_snapshot_fixed:
  "strongswan_ok L \<Longrightarrow> sn_fixed (document_snapshot L users pool) = Some t \<Longrightarrow>
    fp_lookup L t (Some u) = map_of (rev (policy_entries L users)) u"
  using fp.add_all_view [of L "fixed_pool_create L" "policy_entries L users"] fp_create_inv [of L]
    fp_create_view [of L]
  by (auto simp: document_snapshot_def fp.lookup_view)

lemma snapshot_load_inv:
  assumes "strongswan_ok L" and "snapshot_load L files ok path = Some (Some sn)"
  shows "sn_inv L sn"
  using assms fp_create_inv [OF assms(1)]
  by (auto simp: snapshot_load_def yaml_load_policy_def sn_inv_def loader_init_def
      dest!: yaml_loop_table split: if_splits yaml_file.splits)

lemma pe_swap_destroy:
  assumes "pe_inv L pe" and "sn_inv L fresh"
  shows "\<exists>pe'. (let (old, pe') = pe_swap pe fresh in bindR (snapshot_destroy pe' old) (\<lambda>pe''. Inr (True, pe'')))
      = Inr (True, pe') \<and>
    pe_inv L pe' \<and> pe_path pe' = pe_path pe \<and> pe_active pe' = Some (pe_next pe) \<and>
    pe_store pe' = [pe_next pe \<mapsto> fresh]"
proof -
  obtain a sn where a: "pe_active pe = Some a" "pe_store pe = [a \<mapsto> sn]" "a < pe_next pe"
    using assms(1) by (auto simp: pe_inv_def)
  then have "[a \<mapsto> sn, pe_next pe \<mapsto> fresh](a := None) = [pe_next pe \<mapsto> fresh]"
    by (auto simp: fun_eq_iff)
  with a assms(2) show ?thesis
    by (auto simp: pe_swap_def snapshot_destroy_def free_obj_def pe_inv_def)
qed

lemma engine_lookup_snapshot:
  assumes "pe_active pe = Some a" and "pe_store pe = [a \<mapsto> sn]"
  shows "pe_fixed L pe u = Option.bind (sn_fixed sn) (\<lambda>t. fp_lookup L t (Some u))"
    and "pe_get_pool pe s e =
      (case (sn_pool_start sn, sn_pool_end sn) of
         (Some s', Some e') \<Rightarrow> Inr (True, Some s', Some e')
       | _ \<Rightarrow> Inr (False, s, e))"
  using assms by (simp_all add: pe_fixed_def pe_get_pool_def store_simps)

lemma document_engine_lookup:
  assumes "strongswan_ok L" and "pe_active pe = Some a" and "pe_store pe = [a \<mapsto> document_snapshot L users pool]"
  shows "pe_fixed L pe u = map_of (rev (policy_entries L users)) u"
proof -
  obtain t where t: "sn_fixed (document_snapshot L users pool) = Some t" by (simp add: document_snapshot_def)
  show ?thesis
    using document_snapshot_fixed [OF assms(1) t] by (simp add: engine_lookup_snapshot [OF assms(2,3)] t)
qed

section \<open>A lookup racing with a reload\<close>

text \<open>
  The read path takes no lock.  A lookup and the use of its result are three steps: read \<open>active\<close>,
  look the user up in that snapshot, clone the borrowed host.  A reload is two: swap \<open>active\<close>
  inside the lock, destroy the old snapshot after it.  \<open>destroys\<close> says whether runs in which the
  reload gets to its second step are considered.
\<close>

datatype reader = R_Start string | R_Loaded nat string | R_Borrowed borrowed | R_Done "host option"

record 'f race =
  ra_engine :: "'f policy_engine"
  ra_reader :: reader
  ra_old :: "nat option option"

inductive policy_step ::
  "('u, 's, 'f) strongswan \<Rightarrow> (string \<Rightarrow> yaml_file) \<Rightarrow> bool \<Rightarrow> 'f race \<Rightarrow> 'f race res \<Rightarrow> bool"
  for L files destroys where
  read_active: "ra_reader s = R_Start u \<Longrightarrow>
    policy_step L files destroys s (Inr (s\<lparr>ra_reader :=
      (case pe_active (ra_engine s) of None \<Rightarrow> R_Done None | Some a \<Rightarrow> R_Loaded a u)\<rparr>))"
| look_up: "ra_reader s = R_Loaded a u \<Longrightarrow>
    policy_step L files destroys s (bindR (pe_lookup_in L (ra_engine s) (Some a) (Some u)) (\<lambda>r.
      Inr (s\<lparr>ra_reader := (case r of None \<Rightarrow> R_Done None | Some b \<Rightarrow> R_Borrowed b)\<rparr>)))"
| clone: "ra_reader s = R_Borrowed b \<Longrightarrow>
    policy_step L files destroys s (bindR (borrow_clone (ra_engine s) b) (\<lambda>h.
      Inr (s\<lparr>ra_reader := R_Done (Some h)\<rparr>)))"
| swap: "ra_old s = None \<Longrightarrow> snapshot_load L files True (pe_path (ra_engine s)) = Some (Some fresh) \<Longrightarrow>
    policy_step L files destroys s (Inr (s\<lparr>ra_engine := snd (pe_swap (ra_engine s) fresh),
      ra_old := Some (fst (pe_swap (ra_engine s) fresh))\<rparr>))"
| destroy_old: "destroys \<Longrightarrow> ra_old s = Some old \<Longrightarrow>
    policy_step L files destroys s (bindR (snapshot_destroy (ra_engine s) old) (\<lambda>pe.
      Inr (s\<lparr>ra_engine := pe, ra_old := None\<rparr>)))"

inductive policy_reach ::
  "('u, 's, 'f) strongswan \<Rightarrow> (string \<Rightarrow> yaml_file) \<Rightarrow> bool \<Rightarrow> 'f race \<Rightarrow> 'f race res \<Rightarrow> bool"
  for L files destroys s where
  start: "policy_reach L files destroys s (Inr s)"
| step: "policy_reach L files destroys s (Inr s') \<Longrightarrow> policy_step L files destroys s' r \<Longrightarrow> policy_reach L files destroys s r"

definition race_start :: "'f policy_engine \<Rightarrow> string \<Rightarrow> 'f race" where
  "race_start pe u = \<lparr>ra_engine = pe, ra_reader = R_Start u, ra_old = None\<rparr>"

lemma race_uaf:
  assumes inv: "pe_inv L pe" and load: "snapshot_load L files True (pe_path pe) = Some (Some fresh)"
    and fixed: "pe_fixed L pe u = Some h"
  shows "policy_reach L files True (race_start pe u) (Inl Use_After_Free)"
proof -
  let ?s0 = "race_start pe u"
  obtain a sn where a: "pe_active pe = Some a" "pe_store pe = [a \<mapsto> sn]" "a < pe_next pe"
    using inv by (auto simp: pe_inv_def)
  have look: "pe_lookup_in L pe (Some a) (Some u) = Inr (Some (a, h))"
    using pe_lookup_fixed_law [OF inv, of u] a(1) fixed by (simp add: pe_lookup_fixed_def)
  define s1 where "s1 = ?s0\<lparr>ra_reader := R_Loaded a u\<rparr>"
  define s2 where "s2 = s1\<lparr>ra_reader := R_Borrowed (a, h)\<rparr>"
  define s3 where "s3 = s2\<lparr>ra_engine := snd (pe_swap pe fresh), ra_old := Some (Some a)\<rparr>"
  define s4 where "s4 = s3\<lparr>ra_engine := (snd (pe_swap pe fresh))\<lparr>pe_store := [pe_next pe \<mapsto> fresh]\<rparr>, ra_old := None\<rparr>"
  have t1: "policy_step L files True ?s0 (Inr s1)"
    using policy_step.read_active [of ?s0 u L files True] a by (simp add: race_start_def s1_def)
  have t2: "policy_step L files True s1 (Inr s2)"
    using policy_step.look_up [of s1 a u L files True] look by (simp add: s1_def s2_def race_start_def)
  have t3: "policy_step L files True s2 (Inr s3)"
    using policy_step.swap [of s2 L files fresh True] load a
    by (simp add: s1_def s2_def s3_def race_start_def pe_swap_def)
  have t4: "policy_step L files True s3 (Inr s4)"
  proof -
    have "[a \<mapsto> sn, pe_next pe \<mapsto> fresh](a := None) = [pe_next pe \<mapsto> fresh]"
      using a(3) by (auto simp: fun_eq_iff)
    then show ?thesis
      using policy_step.destroy_old [of True s3 "Some a" L files] a
      by (simp add: s3_def s4_def snapshot_destroy_def pe_swap_def free_obj_def)
  qed
  have t5: "policy_step L files True s4 (Inl Use_After_Free)"
    using policy_step.clone [of s4 "(a, h)" L files True] a(3)
    by (simp add: s4_def s3_def s2_def borrow_clone_def deref_def)
  note reach = policy_reach.step [OF policy_reach.start t1]
  note reach = policy_reach.step [OF policy_reach.step [OF reach t2] t3]
  show ?thesis by (rule policy_reach.step [OF policy_reach.step [OF reach t4] t5])
qed

text \<open>
  Without that step the reader is safe.  The invariant: the reader's snapshot is alive, and is the
  old one or one that was loaded meanwhile.
\<close>

definition sn_answer :: "('u, 's, 'f) strongswan \<Rightarrow> 'f snapshot \<Rightarrow> string \<Rightarrow> host option" where
  "sn_answer L sn u = Option.bind (sn_fixed sn) (\<lambda>t. fp_lookup L t (Some u))"

definition race_snapshots ::
  "('u, 's, 'f) strongswan \<Rightarrow> (string \<Rightarrow> yaml_file) \<Rightarrow> 'f policy_engine \<Rightarrow> 'f snapshot set" where
  "race_snapshots L files pe =
     ran (pe_store pe) \<union> {sn. snapshot_load L files True (pe_path pe) = Some (Some sn)}"

definition race_inv ::
  "('u, 's, 'f) strongswan \<Rightarrow> (string \<Rightarrow> yaml_file) \<Rightarrow> 'f policy_engine \<Rightarrow> string \<Rightarrow> 'f race \<Rightarrow> bool" where
  "race_inv L files pe u s \<longleftrightarrow>
     pe_path (ra_engine s) = pe_path pe \<and>
     (\<forall>a sn. pe_store (ra_engine s) a = Some sn \<longrightarrow> a < pe_next (ra_engine s) \<and> sn \<in> race_snapshots L files pe) \<and>
     (\<exists>a. pe_active (ra_engine s) = Some a \<and> pe_store (ra_engine s) a \<noteq> None) \<and>
     (case ra_reader s of
        R_Start v \<Rightarrow> v = u
      | R_Loaded a v \<Rightarrow> v = u \<and> pe_store (ra_engine s) a \<noteq> None
      | R_Borrowed b \<Rightarrow> \<exists>sn. pe_store (ra_engine s) (fst b) = Some sn \<and> sn_answer L sn u = Some (snd b)
      | R_Done r \<Rightarrow> \<exists>sn \<in> race_snapshots L files pe. r = sn_answer L sn u)"

lemma race_inv_start: "pe_inv L pe \<Longrightarrow> race_inv L files pe u (race_start pe u)"
  by (auto simp: race_inv_def race_start_def pe_inv_def race_snapshots_def split: if_splits)

lemma pe_lookup_in_answer:
  "pe_store pe a = Some sn \<Longrightarrow> pe_lookup_in L pe (Some a) (Some u) = Inr (map_option (Pair a) (sn_answer L sn u))"
  by (auto simp: pe_lookup_in_def store_simps sn_answer_def split: option.splits)

lemma race_inv_step:
  assumes "policy_step L files False s r" and "race_inv L files pe u s"
  shows "\<exists>s'. r = Inr s' \<and> race_inv L files pe u s'"
  using assms
proof (induction rule: policy_step.induct)
  case (read_active s v)
  then show ?case by (auto simp: race_inv_def)
next
  case (look_up s a v)
  then obtain sn where sn: "pe_store (ra_engine s) a = Some sn" and v: "v = u" by (auto simp: race_inv_def)
  have "sn \<in> race_snapshots L files pe" using look_up sn by (auto simp: race_inv_def)
  with look_up sn v show ?case
    by (cases "sn_answer L sn u") (auto simp: race_inv_def pe_lookup_in_answer intro: bexI [of _ sn])
next
  case (clone s b)
  then obtain sn where sn: "pe_store (ra_engine s) (fst b) = Some sn" "sn_answer L sn u = Some (snd b)"
    by (auto simp: race_inv_def)
  have "sn \<in> race_snapshots L files pe" using clone sn(1) by (auto simp: race_inv_def)
  with clone sn show ?case by (force simp: race_inv_def borrow_clone_def store_simps)
next
  case (swap s fresh)
  then have "pe_store (ra_engine s) (pe_next (ra_engine s)) = None"
    by (cases "pe_store (ra_engine s) (pe_next (ra_engine s))") (auto simp: race_inv_def)
  with swap show ?case
    by (auto simp: race_inv_def pe_swap_def race_snapshots_def less_Suc_eq split: reader.splits)
qed simp

lemma race_inv_reach:
  assumes "policy_reach L files False (race_start pe u) r" and "pe_inv L pe"
  shows "\<exists>s'. r = Inr s' \<and> race_inv L files pe u s'"
  using assms
proof (induction rule: policy_reach.induct)
  case start
  then show ?case using race_inv_start by blast
next
  case (step s' r)
  then show ?case using race_inv_step by blast
qed

section \<open>Properties\<close>

text \<open>The files of the closed examples: one fixed user in the first, another one in the second.\<close>

definition demo_files :: "string \<Rightarrow> string \<Rightarrow> yaml_file" where
  "demo_files user path = Answers (policy_answers [(user, ''abcd'')] (Some (''defg'', ''defz'')))"

definition demo_engine :: "(string, host) atable policy_engine" where
  "demo_engine = \<lparr>pe_store = [0 \<mapsto> document_snapshot demo_lib [(''vip'', ''abcd'')] (Some (''defg'', ''defz''))],
     pe_next = 1, pe_active = Some 0, pe_path = ''p''\<rparr>"

lemma demo_engine_inv: "pe_inv demo_lib demo_engine"
  unfolding pe_inv_def demo_engine_def
  using document_snapshot_inv [OF demo_lib_ok] by fastforce

lemma demo_entries: "policy_entries demo_lib [(n, ''abcd'')] =
    [(snprintf_s 256 (cstr n), \<lparr>h_family = AF_INET, h_address = [97, 98, 99, 100]\<rparr>)]"
  by (simp add: policy_entries_def user_entry_def List.map_filter_simps demo_from_string_def cstr_id)

lemma demo_engine_fixed:
  "pe_fixed demo_lib demo_engine u =
    (if u = ''vip'' then Some \<lparr>h_family = AF_INET, h_address = [97, 98, 99, 100]\<rparr> else None)"
  using document_engine_lookup [OF demo_lib_ok, of demo_engine 0]
  by (simp add: demo_engine_def demo_entries cstr_id snprintf_s_def)

lemma demo_files_load:
  "snapshot_load demo_lib (demo_files n) True path =
    Some (Some (document_snapshot demo_lib [(n, ''abcd'')] (Some (''defg'', ''defz''))))"
  by (rule snapshot_load_document) (simp add: demo_files_def)

text \<open>\<open>policy_engine_create\<close> is fail-fast: whenever the parser ends, it yields an engine exactly if
  the path is given, both allocations succeed and the document loads with code 0; and such an engine
  is well-formed.\<close>

theorem engine_creation_fails_fast:
  assumes "strongswan_ok L" and "snapshot_load L files ok1 path = Some loaded"
  shows "policy_engine_create L files ok1 ok2 None = Some None \<and>
    (\<exists>created. policy_engine_create L files ok1 ok2 (Some path) = Some created \<and>
      (created = None \<longleftrightarrow> loaded = None \<or> ok2 = False) \<and>
      (case created of None \<Rightarrow> True | Some pe \<Rightarrow> pe_inv L pe \<and> pe_path pe = path))"
  using assms snapshot_load_inv [OF assms(1)]
  by (auto simp: policy_engine_create_def pe_inv_def split: option.splits)

theorem engine_creation_fails_fast_witness:
  "\<exists>pe. policy_engine_create demo_lib (demo_files ''vip'') True True (Some ''p'') = Some (Some pe) \<and> pe_inv demo_lib pe"
  using engine_creation_fails_fast [of demo_lib "demo_files ''vip''" True "''p''" _ True, OF demo_lib_ok demo_files_load]
  by (fastforce split: option.splits)

lemma reload_law:
  assumes "strongswan_ok L" and "pe_inv L pe" and "files (pe_path pe) = Answers (policy_answers users pool)"
  shows "\<exists>pe'. pe_reload L files True pe = Some (Inr (True, pe')) \<and> pe_inv L pe' \<and> pe_path pe' = pe_path pe \<and>
    (\<forall>u. pe_fixed L pe' u = map_of (rev (policy_entries L users)) u) \<and>
    pe_get_pool pe' None None =
      (case (pool_endpoint L (map_option fst pool), pool_endpoint L (map_option snd pool)) of
         (Some s, Some e) \<Rightarrow> Inr (True, Some s, Some e)
       | _ \<Rightarrow> Inr (False, None, None)) \<and>
    dom (pe_store pe') = {pe_next pe}"
proof -
  let ?fresh = "document_snapshot L users pool"
  obtain pe' where pe': "(let (old, pe') = pe_swap pe ?fresh in bindR (snapshot_destroy pe' old) (\<lambda>pe''. Inr (True, pe'')))
      = Inr (True, pe')" "pe_inv L pe'" "pe_path pe' = pe_path pe" "pe_active pe' = Some (pe_next pe)"
      "pe_store pe' = [pe_next pe \<mapsto> ?fresh]"
    using pe_swap_destroy [OF assms(2) document_snapshot_inv [OF assms(1)], of users pool] by blast
  have "pe_reload L files True pe = Some (Inr (True, pe'))"
    using pe'(1) snapshot_load_document [of files "pe_path pe" users pool L] assms(3) by (simp add: pe_reload_def)
  then show ?thesis
    using pe'(2,3,5) document_engine_lookup [OF assms(1) pe'(4,5)]
    by (simp add: engine_lookup_snapshot [OF pe'(4,5)] document_snapshot_def)
qed

text \<open>C20: a reload of a document of the documented schema succeeds and is complete: afterwards the engine
  answers from the new document only, users and pool, the old snapshot is freed, exactly once, and the
  new one is the only one alive.\<close>

theorem reload_replaces_policy:
  assumes "strongswan_ok L" and "pe_inv L pe" and "files (pe_path pe) = Answers (policy_answers users pool)"
  shows "\<exists>pe'. pe_reload L files True pe = Some (Inr (True, pe')) \<and> pe_inv L pe' \<and> pe_path pe' = pe_path pe \<and>
    (\<forall>u. pe_fixed L pe' u = map_of (rev (policy_entries L users)) u) \<and>
    pe_get_pool pe' None None =
      (case (pool_endpoint L (map_option fst pool), pool_endpoint L (map_option snd pool)) of
         (Some s, Some e) \<Rightarrow> Inr (True, Some s, Some e)
       | _ \<Rightarrow> Inr (False, None, None)) \<and>
    dom (pe_store pe') = {pe_next pe}"
  using assms by (rule reload_law)

theorem reload_replaces_policy_witness:
  "\<exists>pe'. pe_reload demo_lib (demo_files ''ops'') True demo_engine = Some (Inr (True, pe')) \<and>
    pe_fixed demo_lib pe' ''vip'' = None \<and>
    pe_fixed demo_lib pe' ''ops'' = Some \<lparr>h_family = AF_INET, h_address = [97, 98, 99, 100]\<rparr>"
proof -
  have "demo_files ''ops'' (pe_path demo_engine) = Answers (policy_answers [(''ops'', ''abcd'')] (Some (''defg'', ''defz'')))"
    by (simp add: demo_files_def)
  from reload_replaces_policy [of demo_lib demo_engine "demo_files ''ops''", OF demo_lib_ok demo_engine_inv this]
  show ?thesis by (auto simp: demo_entries cstr_id snprintf_s_def)
qed


lemma demo_swapped_run:
  "\<exists>s. policy_reach demo_lib (demo_files ''ops'') False (race_start demo_engine ''vip'') (Inr s) \<and>
    ra_reader s = R_Done None \<and> ra_old s = Some (Some 0)"
proof -
  let ?L = demo_lib and ?F = "demo_files ''ops''" and ?s0 = "race_start demo_engine ''vip''"
  let ?fresh = "document_snapshot demo_lib [(''ops'', ''abcd'')] (Some (''defg'', ''defz''))"
  define s1 where "s1 = ?s0\<lparr>ra_engine := snd (pe_swap demo_engine ?fresh), ra_old := Some (Some 0)\<rparr>"
  define s2 where "s2 = s1\<lparr>ra_reader := R_Loaded 1 ''vip''\<rparr>"
  define s3 where "s3 = s2\<lparr>ra_reader := R_Done None\<rparr>"
  have "policy_step ?L ?F False ?s0 (Inr s1)"
    using policy_step.swap [of ?s0 ?L ?F ?fresh False] demo_files_load
    by (simp add: s1_def race_start_def pe_swap_def demo_engine_def)
  moreover have "policy_step ?L ?F False s1 (Inr s2)"
    using policy_step.read_active [of s1 "''vip''" ?L ?F False]
    by (simp add: s2_def s1_def race_start_def pe_swap_def demo_engine_def)
  moreover have "policy_step ?L ?F False s2 (Inr s3)"
  proof -
    have "sn_answer ?L ?fresh ''vip'' = None"
      using document_snapshot_fixed [OF demo_lib_ok, of "[(''ops'', ''abcd'')]" "Some (''defg'', ''defz'')"]
      by (auto simp: sn_answer_def document_snapshot_def demo_entries cstr_id snprintf_s_def)
    then have "pe_lookup_in ?L (ra_engine s2) (Some 1) (Some ''vip'') = Inr None"
      by (simp add: pe_lookup_in_answer [of _ _ ?fresh] s2_def s1_def race_start_def pe_swap_def demo_engine_def)
    then show ?thesis
      using policy_step.look_up [of s2 1 "''vip''" ?L ?F False] by (simp add: s3_def s2_def)
  qed
  ultimately have "policy_reach ?L ?F False ?s0 (Inr s3)"
    by (meson policy_reach.start policy_reach.step)
  then show ?thesis by (auto simp: s3_def s2_def s1_def)
qed


text \<open>The lock-free read path is not safe against the destruction of the old snapshot: whenever a
  reload succeeds while a lookup of a fixed user is under way, the schedule in which the snapshot is
  destroyed between the lookup and the clone reads freed memory.\<close>

theorem reload_race_uses_freed_snapshot:
  assumes "pe_inv L pe" and "snapshot_load L files True (pe_path pe) = Some (Some fresh)"
    and "pe_fixed L pe u = Some h"
  shows "policy_reach L files True (race_start pe u) (Inl Use_After_Free)"
  using assms by (rule race_uaf)

theorem reload_race_uses_freed_snapshot_witness:
  "policy_reach demo_lib (demo_files ''ops'') True (race_start demo_engine ''vip'') (Inl Use_After_Free)"
  using reload_race_uses_freed_snapshot [OF demo_engine_inv demo_files_load, of "''vip''" _ "''ops''"]
  by (simp add: demo_engine_fixed)

end
