(* ===== verification/Ip_Allocator.thy ===== *)
theory Ip_Allocator
  imports Identity_Manager Dynamic_Pool Session_Manager Policy_Engine
begin

text \<open>
  \<open>ip_allocator.c\<close>: the provider of virtual addresses.  It composes the identity function, the policy
  engine, the dynamic pool and the lease table.  Here every call runs to its end before the next one
  starts; the theory \<open>Allocator_Race\<close> interleaves them.  The engine is borrowed, so the calls take
  it as an argument; \<open>alive\<close> answers whether charon can check out the IKE_SA of an id.  Log output is
  left out.
\<close>

section \<open>State\<close>

record ('u, 's) ip_allocator =
  al_dyn :: "dynamic_pool option"
  al_sessions :: "('u, 's) session_manager"
  al_pool_name :: string
  al_lease_timeout :: u32

text \<open>The answers of the allocator of memory during one call of \<open>acquire_address\<close>, in program order.\<close>

record memory =
  ok_strndup :: bool
  ok_anon_strdup :: bool
  ok_fixed_clone :: bool
  ok_lease_malloc :: bool
  ok_lease_strdup :: bool
  ok_result_clone :: bool

section \<open>Operations\<close>

text \<open>The list of pool names is \<open>None\<close> for \<open>NULL\<close>, and so is each name in it.\<close>

definition pools_include :: "('u, 's) ip_allocator \<Rightarrow> string option list option \<Rightarrow> bool" where
  "pools_include al pools =
     (case pools of None \<Rightarrow> False | Some names \<Rightarrow> list_ex (\<lambda>name. name = Some (al_pool_name al)) names)"

definition release_by_uid_impl ::
  "('u, 's, 'f) strongswan \<Rightarrow> ('u, 's) ip_allocator \<Rightarrow> u32 \<Rightarrow> (bool \<times> ('u, 's) ip_allocator) res" where
  "release_by_uid_impl L al uid =
     bindR (unbind L (al_sessions al) uid) (\<lambda>(lease, sm).
     case lease of
       None \<Rightarrow> Inr (False, al\<lparr>al_sessions := sm\<rparr>)
     | Some p \<Rightarrow>
         bindR (deref (sm_heap sm) p) (\<lambda>l.
         bindR (case al_dyn al of
                  None \<Rightarrow> Inr None
                | Some d \<Rightarrow>
                    if \<not> le_fixed l \<and> le_ip l \<noteq> None
                    then bindR (dp_release d (le_ip l)) (\<lambda>d'. Inr (Some d'))
                    else Inr (Some d)) (\<lambda>dyn.
         bindR (lease_destroy sm (Some p)) (\<lambda>sm'.
         Inr (True, al\<lparr>al_dyn := dyn, al_sessions := sm'\<rparr>)))))"

definition anon_name :: "u32 \<Rightarrow> string" where
  "anon_name uid = snprintf_s 32 (''anon-'' @ decimal (unat uid))"

definition is_anon :: "string \<Rightarrow> bool" where
  "is_anon username \<longleftrightarrow> take 5 username = ''anon-''"

text \<open>The name a connection is served under: its user name, or a placeholder made from the id.\<close>

definition acquire_username :: "memory \<Rightarrow> ike_sa \<Rightarrow> string option" where
  "acquire_username m sa =
     (case identity_get_username (ok_strndup m) (Some sa) of
        Some u \<Rightarrow> Some u
      | None \<Rightarrow> if ok_anon_strdup m then Some (anon_name (sa_unique_id sa)) else None)"

text \<open>A new connection: the fixed address, else one from the pool.  The flag is \<open>is_fixed\<close>.\<close>

definition choose_ip ::
  "('u, 's, 'f) strongswan \<Rightarrow> memory \<Rightarrow> 'f policy_engine \<Rightarrow> ('u, 's) ip_allocator \<Rightarrow> string \<Rightarrow>
   (host option \<times> bool \<times> ('u, 's) ip_allocator) res" where
  "choose_ip L m pe al username =
     bindR (if is_anon username then Inr None
            else bindR (pe_lookup_fixed L pe (Some username)) (\<lambda>fixed_src.
              case fixed_src of
                None \<Rightarrow> Inr None
              | Some b \<Rightarrow> bindR (borrow_clone pe b) (\<lambda>h. Inr (if ok_fixed_clone m then Some h else None))))
       (\<lambda>ip.
         case ip of
           Some h \<Rightarrow> Inr (Some h, True, al)
         | None \<Rightarrow>
             (case al_dyn al of
                None \<Rightarrow> Inr (None, False, al)
              | Some d \<Rightarrow> bindR (dp_acquire L d) (\<lambda>(ip, d'). Inr (ip, False, al\<lparr>al_dyn := Some d'\<rparr>))))"

text \<open>The part of \<open>acquire_address\<close> after the name is known, up to the release of the lock; the flag
  says that the copy for charon failed and the lease has to be rolled back.\<close>

definition acquire_locked ::
  "('u, 's, 'f) strongswan \<Rightarrow> memory \<Rightarrow> int \<Rightarrow> 'f policy_engine \<Rightarrow> ('u, 's) ip_allocator \<Rightarrow> string \<Rightarrow> u32 \<Rightarrow>
   (host option \<times> bool \<times> ('u, 's) ip_allocator) res" where
  "acquire_locked L m now pe al username uid =
     (case lookup_by_user L (al_sessions al) (Some username) of
        Some p \<Rightarrow>
          bindR (migrate L now (al_sessions al) (Some username) uid) (\<lambda>(_, sm).
          bindR (deref (sm_heap sm) p) (\<lambda>lease.
          bindR (nonnull (le_ip lease)) (\<lambda>h.
          Inr (if ok_result_clone m then Some h else None, False, al\<lparr>al_sessions := sm\<rparr>))))
      | None \<Rightarrow>
          bindR (choose_ip L m pe al username) (\<lambda>(ip, is_fixed, al1).
          case ip of
            None \<Rightarrow> Inr (None, False, al1)
          | Some _ \<Rightarrow>
              bindR (bind_lease L (ok_lease_malloc m) (ok_lease_strdup m) now (al_sessions al1)
                       (Some username) uid ip is_fixed) (\<lambda>(lease, sm).
              let al2 = al1\<lparr>al_sessions := sm\<rparr> in
              case lease of
                None \<Rightarrow> Inr (None, False, al2)
              | Some p \<Rightarrow>
                  bindR (deref (sm_heap sm) p) (\<lambda>l.
                  bindR (nonnull (le_ip l)) (\<lambda>h.
                  Inr (if ok_result_clone m then (Some h, False, al2) else (None, True, al2)))))))"

definition acquire_address ::
  "('u, 's, 'f) strongswan \<Rightarrow> memory \<Rightarrow> int \<Rightarrow> 'f policy_engine \<Rightarrow> ('u, 's) ip_allocator \<Rightarrow>
   string option list option \<Rightarrow> ike_sa option \<Rightarrow> host option \<Rightarrow> (host option \<times> ('u, 's) ip_allocator) res" where
  "acquire_address L m now pe al pools sa requested =
     (case sa of
        None \<Rightarrow> Inr (None, al)
      | Some s \<Rightarrow>
          if \<not> pools_include al pools then Inr (None, al)
          else
            (case acquire_username m s of
               None \<Rightarrow> Inr (None, al)
             | Some username \<Rightarrow>
                 bindR (acquire_locked L m now pe al username (sa_unique_id s)) (\<lambda>(result, rollback, al1).
                 if rollback
                 then bindR (release_by_uid_impl L al1 (sa_unique_id s)) (\<lambda>(_, al2). Inr (None, al2))
                 else Inr (result, al1))))"

definition release_address ::
  "('u, 's, 'f) strongswan \<Rightarrow> ('u, 's) ip_allocator \<Rightarrow> string option list option \<Rightarrow> host option \<Rightarrow>
   ike_sa option \<Rightarrow> (bool \<times> ('u, 's) ip_allocator) res" where
  "release_address L al pools address sa =
     (case sa of None \<Rightarrow> Inr (False, al) | Some s \<Rightarrow> release_by_uid_impl L al (sa_unique_id s))"

text \<open>The enumerator of further attributes is empty.\<close>

definition create_attribute_enumerator ::
  "('u, 's) ip_allocator \<Rightarrow> string option list option \<Rightarrow> ike_sa option \<Rightarrow> host list \<Rightarrow> (int \<times> u8 list) list" where
  "create_attribute_enumerator al pools sa vips = []"

definition release_by_uid ::
  "('u, 's, 'f) strongswan \<Rightarrow> ('u, 's) ip_allocator \<Rightarrow> u32 \<Rightarrow> ('u, 's) ip_allocator res" where
  "release_by_uid L al unique_id = bindR (release_by_uid_impl L al unique_id) (\<lambda>(_, al'). Inr al')"

definition sweep_cb ::
  "('u, 's, 'f) strongswan \<Rightarrow> (u32 \<Rightarrow> bool) \<Rightarrow> nat \<Rightarrow> ('u, 's) ip_allocator \<Rightarrow> ('u, 's) ip_allocator res" where
  "sweep_cb L alive lease al =
     bindR (deref (sm_heap (al_sessions al)) lease) (\<lambda>l.
     if alive (le_unique_id l) then Inr al
     else bindR (release_by_uid_impl L al (le_unique_id l)) (\<lambda>(_, al'). Inr al'))"

definition sweep ::
  "('u, 's, 'f) strongswan \<Rightarrow> (u32 \<Rightarrow> bool) \<Rightarrow> int \<Rightarrow> ('u, 's) ip_allocator \<Rightarrow> ('u, 's) ip_allocator res" where
  "sweep L alive now al =
     foreach_expiring L al_sessions al now (al_lease_timeout al) (Some (sweep_cb L alive))"

text \<open>\<open>calloc_ok\<close> and \<open>bitmap_ok\<close> are the answers of the allocator for the two objects.\<close>

definition ip_allocator_create ::
  "('u, 's, 'f) strongswan \<Rightarrow> bool \<Rightarrow> bool \<Rightarrow> 'f policy_engine option \<Rightarrow> string option \<Rightarrow> u32 \<Rightarrow>
   ('u, 's) ip_allocator option res" where
  "ip_allocator_create L calloc_ok bitmap_ok policy pool_name lease_timeout =
     (case policy of
        None \<Rightarrow> Inr None
      | Some pe \<Rightarrow>
          if \<not> calloc_ok then Inr None
          else bindR (pe_get_pool pe None None) (\<lambda>(configured, start, end).
            Inr (Some
              \<lparr>al_dyn = (if configured then dynamic_pool_create bitmap_ok start end else None),
               al_sessions = session_manager_create L,
               al_pool_name = (case pool_name of None \<Rightarrow> ''cupp'' | Some n \<Rightarrow> n),
               al_lease_timeout = (if lease_timeout \<noteq> 0 then lease_timeout else 3600)\<rparr>)))"

text \<open>What is left of the leases when the allocator is destroyed.\<close>

definition ip_allocator_destroy ::
  "('u, 's, 'f) strongswan \<Rightarrow> ('u, 's) ip_allocator option \<Rightarrow> lease store res" where
  "ip_allocator_destroy L al =
     (case al of
        None \<Rightarrow> Inr Map.empty
      | Some a \<Rightarrow> bindR (session_manager_destroy L (al_sessions a)) (\<lambda>sm. Inr (sm_heap sm)))"

section \<open>Leases and the pool\<close>

text \<open>The dynamic address of a lease, and of each user.\<close>

definition dyn_addr :: "lease \<Rightarrow> u32 option" where
  "dyn_addr l = (if le_fixed l then None else map_option host_to_u32 (le_ip l))"

definition dynamic :: "(string \<Rightarrow> lease option) \<Rightarrow> string \<Rightarrow> u32 option" where
  "dynamic users u = Option.bind (users u) dyn_addr"

definition lease_ok :: "lease \<Rightarrow> bool" where
  "lease_ok l \<longleftrightarrow> (\<exists>h. le_ip l = Some h \<and> (le_fixed l \<or> h_family h = AF_INET))"

text \<open>
  The invariant of the allocator: every lease has an address, no two dynamic leases have the same
  one, and the addresses marked in the pool are exactly those of the dynamic leases and those of \<open>X\<close>,
  which belong to releases under way.  \<open>al_inv\<close> is the invariant between calls, when there are none.
\<close>

definition pool_ok :: "u32 set \<Rightarrow> dynamic_pool option \<Rightarrow> (string \<Rightarrow> lease option) \<Rightarrow> bool" where
  "pool_ok X dyn users \<longleftrightarrow>
     inj_on (dynamic users) (dom (dynamic users)) \<and>
     (case dyn of
        None \<Rightarrow> dynamic users = Map.empty \<and> X = {}
      | Some d \<Rightarrow> dp_inv d \<and> dp_allocated d = ran (dynamic users) \<union> X \<and> ran (dynamic users) \<inter> X = {})"

abbreviation "al_users L al \<equiv> sm_users L (al_sessions al)"
abbreviation "al_uids L al \<equiv> sm_uids L (al_sessions al)"

definition al_invx :: "('u, 's, 'f) strongswan \<Rightarrow> u32 set \<Rightarrow> ('u, 's) ip_allocator \<Rightarrow> bool" where
  "al_invx L X al \<longleftrightarrow>
     strongswan_ok L \<and> sm_inv L (al_sessions al) \<and> (\<forall>u l. al_users L al u = Some l \<longrightarrow> lease_ok l) \<and>
     pool_ok X (al_dyn al) (al_users L al)"

abbreviation "al_inv L \<equiv> al_invx L {}"

text \<open>What no call ever changes: the configuration, and the range of the pool.\<close>

definition al_frame :: "('u, 's) ip_allocator \<Rightarrow> ('u, 's) ip_allocator \<Rightarrow> bool" where
  "al_frame al al' \<longleftrightarrow>
     al_pool_name al' = al_pool_name al \<and> al_lease_timeout al' = al_lease_timeout al \<and>
     map_option dp_universe (al_dyn al') = map_option dp_universe (al_dyn al)"

lemma pool_ok_cong: "dynamic users' = dynamic users \<Longrightarrow> pool_ok X dyn users' = pool_ok X dyn users"
  unfolding pool_ok_def by (simp only:)

lemma al_same_dyn: "al_dyn al = d \<Longrightarrow> al\<lparr>al_dyn := d, al_sessions := sm\<rparr> = al\<lparr>al_sessions := sm\<rparr>"
  by (cases al) simp

lemma al_frame_refl [simp]: "al_frame al al"
  by (simp add: al_frame_def)

lemma al_frame_trans: "al_frame a b \<Longrightarrow> al_frame b c \<Longrightarrow> al_frame a c"
  by (simp add: al_frame_def)

lemma dynamic_upd:
  "dynamic (users(u := None)) = (dynamic users)(u := None)"
  "dynamic (users(u \<mapsto> l)) = (dynamic users)(u := dyn_addr l)"
  by (auto simp: dynamic_def fun_eq_iff)

lemma dyn_addr_upd [simp]: "dyn_addr (l\<lparr>le_unique_id := w, le_acquired := now\<rparr>) = dyn_addr l"
  by (simp add: dyn_addr_def)

lemma ran_delete:
  assumes "inj_on f (dom f)"
  shows "ran (f(u := None)) = (case f u of None \<Rightarrow> ran f | Some a \<Rightarrow> ran f - {a})"
proof (cases "f u")
  case (Some a)
  have "x \<in> ran (f(u := None)) \<longleftrightarrow> x \<in> ran f \<and> x \<noteq> a" for x
  proof
    assume "x \<in> ran (f(u := None))"
    then obtain v where v: "v \<noteq> u" "f v = Some x" by (auto simp: ran_def split: if_splits)
    then have "x \<noteq> a" using inj_onD [OF assms, of v u] Some by auto
    with v show "x \<in> ran f \<and> x \<noteq> a" by (auto simp: ran_def)
  next
    assume x: "x \<in> ran f \<and> x \<noteq> a"
    then obtain v where "f v = Some x" by (auto simp: ran_def)
    with x Some have "(f(u := None)) v = Some x" by auto
    then show "x \<in> ran (f(u := None))" by (rule ranI)
  qed
  then show ?thesis using Some by auto
qed (simp add: fun_upd_idem)

lemma inj_on_delete: "inj_on f (dom f) \<Longrightarrow> inj_on (f(u := None)) (dom f - {u})"
  by (auto simp: inj_on_def dom_def)

lemma inj_on_insert:
  "inj_on f (dom f) \<Longrightarrow> a \<notin> ran f \<Longrightarrow> inj_on (f(u \<mapsto> a)) (dom (f(u \<mapsto> a)))"
  by (auto simp: inj_on_def dom_def ran_def)

lemma ran_insert: "f u = None \<Longrightarrow> ran (f(u \<mapsto> a)) = insert a (ran f)"
  by (rule ran_map_upd)

text \<open>A lease that is taken out gives its address back, one that is put in takes a free one.\<close>

lemma pool_ok_delete:
  assumes ok: "pool_ok X (Some d) users" and u: "users u = Some l" "lease_ok l"
    and d': "dp_inv d'" "dp_allocated d' = dp_allocated d - (if le_fixed l then {} else ip_addrs (le_ip l))"
  shows "pool_ok X (Some d') (users(u := None))"
proof -
  have "dynamic users u = dyn_addr l" using u(1) by (simp add: dynamic_def)
  moreover have "(if le_fixed l then {} else ip_addrs (le_ip l)) = set_option (dyn_addr l)"
    using u(2) by (auto simp: dyn_addr_def lease_ok_def)
  ultimately show ?thesis
    using ok d' ranI [of "dynamic users" u]
    by (auto simp: pool_ok_def dynamic_upd ran_delete inj_on_delete split: option.split)
qed

lemma pool_ok_insert:
  assumes ok: "pool_ok X (Some d) users" and u: "users u = None"
    and d': "dp_inv d'" "dp_allocated d' = insert a (dp_allocated d)" "a \<notin> dp_allocated d"
    and l: "dyn_addr l = Some a"
  shows "pool_ok X (Some d') (users(u \<mapsto> l))"
proof -
  have "dynamic users u = None" using u by (simp add: dynamic_def)
  then show ?thesis
    using ok d' l ran_insert [of "dynamic users" u a] inj_on_insert [of "dynamic users" a u]
    by (simp add: pool_ok_def dynamic_upd)
qed

lemma pool_ok_insert_fixed:
  "pool_ok X dyn users \<Longrightarrow> users u = None \<Longrightarrow> le_fixed l \<Longrightarrow> pool_ok X dyn (users(u \<mapsto> l))"
proof -
  assume "pool_ok X dyn users" "users u = None" "le_fixed l"
  moreover from this have "dynamic (users(u \<mapsto> l)) = dynamic users"
    by (auto simp: dynamic_def dyn_addr_def fun_eq_iff)
  ultimately show ?thesis using pool_ok_cong by blast
qed

lemma pool_ok_migrate:
  "pool_ok X dyn users \<Longrightarrow> users u = Some l \<Longrightarrow>
    pool_ok X dyn (users(u \<mapsto> l\<lparr>le_unique_id := w, le_acquired := now\<rparr>))"
proof -
  assume "pool_ok X dyn users" "users u = Some l"
  moreover from this have "dynamic (users(u \<mapsto> l\<lparr>le_unique_id := w, le_acquired := now\<rparr>)) = dynamic users"
    by (auto simp: dynamic_def fun_eq_iff)
  ultimately show ?thesis using pool_ok_cong by blast
qed

lemma al_invD:
  assumes "al_invx L X al"
  shows al_lib: "strongswan_ok L" and al_sm: "sm_inv L (al_sessions al)"
    and al_lease: "al_users L al u = Some l \<Longrightarrow> lease_ok l"
    and al_pool: "pool_ok X (al_dyn al) (al_users L al)"
  using assms unfolding al_invx_def by blast+

section \<open>Release\<close>

text \<open>What the release does to the pool.\<close>

lemma release_pool:
  assumes L: "strongswan_ok L" and ok: "pool_ok {} dyn users" and l: "users u = Some l" "lease_ok l"
  shows "\<exists>dyn'. (case dyn of
         None \<Rightarrow> Inr None
       | Some d \<Rightarrow>
           if \<not> le_fixed l \<and> le_ip l \<noteq> None
           then bindR (dp_release d (le_ip l)) (\<lambda>d'. Inr (Some d'))
           else Inr (Some d)) = Inr dyn' \<and>
    pool_ok {} dyn' (users(u := None)) \<and> map_option dp_universe dyn' = map_option dp_universe dyn"
proof (cases dyn)
  case None
  then show ?thesis using ok by (auto simp: pool_ok_def dynamic_upd)
next
  case (Some d)
  have dinv: "strongswan_ok L \<and> dp_inv d" using ok L by (simp add: pool_ok_def Some)
  obtain d' where d': "(if \<not> le_fixed l \<and> le_ip l \<noteq> None
      then bindR (dp_release d (le_ip l)) (\<lambda>d'. Inr (Some d')) else Inr (Some d)) = Inr (Some d')"
      "dp_inv d'" "dp_universe d' = dp_universe d"
      "dp_allocated d' = dp_allocated d - (if le_fixed l then {} else ip_addrs (le_ip l))"
    using dp.give_law [OF dinv, of "le_ip l"] dinv l(2) by (cases "le_fixed l") (auto simp: lease_ok_def)
  have "pool_ok {} (Some d') (users(u := None))"
    by (rule pool_ok_delete [where users = users and u = u, OF _ l d'(2,4)]) (use ok Some in simp)
  then show ?thesis using d'(1,3) Some by auto
qed

lemma release_effect:
  assumes inv: "al_inv L al"
  shows "\<exists>al'. release_by_uid_impl L al w = Inr (al_uids L al w \<noteq> None, al') \<and> al_inv L al' \<and> al_frame al al' \<and>
    sm_abs L (al_sessions al') = snd (spec_unbind w (sm_abs L (al_sessions al)))"
proof -
  let ?sm = "al_sessions al"
  obtain h sm1 sm2 where u: "unbind L ?sm w = Inr (h, sm1)" "sm_inv L sm1"
      "(Option.bind h (sm_heap sm1), sm_abs L sm1) = spec_unbind w (sm_abs L ?sm)"
      "h = None \<longleftrightarrow> snd (sm_abs L ?sm) w = None"
      "lease_destroy sm1 h = Inr sm2" "sm_inv L sm2" "sm_abs L sm2 = sm_abs L sm1"
    using sm.unlink_law [OF al_sm [OF inv], of w] by metis
  show ?thesis
  proof (cases h)
    case None
    then have "sm_abs L sm1 = sm_abs L ?sm" using u(3,4) by (simp add: spec_unbind_def)
    then have "sm_users L sm1 = al_users L al" by (simp add: sm_abs_def)
    with None u inv show ?thesis
      by (auto simp: release_by_uid_impl_def al_invx_def al_frame_def spec_unbind_def sm_abs_def)
  next
    case (Some p)
    obtain user where user: "al_uids L al w = Some user" using u(4) Some by (auto simp: sm_abs_def)
    obtain l where l: "al_users L al user = Some l" "sm_heap sm1 p = Some l"
      using sm.coherent [OF al_sm [OF inv], of w user] user u(3) Some
      by (auto simp: sm_abs_def spec_unbind_def)
    obtain dyn where dyn: "(case al_dyn al of
           None \<Rightarrow> Inr None
         | Some d \<Rightarrow>
             if \<not> le_fixed l \<and> le_ip l \<noteq> None
             then bindR (dp_release d (le_ip l)) (\<lambda>d'. Inr (Some d'))
             else Inr (Some d)) = Inr dyn"
        "pool_ok {} dyn ((al_users L al)(user := None))" "map_option dp_universe dyn = map_option dp_universe (al_dyn al)"
      using release_pool [OF al_lib [OF inv] al_pool [OF inv] l(1) al_lease [OF inv l(1)]] by blast
    have users: "sm_users L sm2 = (al_users L al)(user := None)"
      using u(3,7) user by (simp add: sm_abs_def spec_unbind_def)
    let ?al = "al\<lparr>al_dyn := dyn, al_sessions := sm2\<rparr>"
    have "release_by_uid_impl L al w = Inr (True, ?al)"
      using u(1,5) Some l dyn(1) by (simp add: release_by_uid_impl_def store_simps del: not_None_eq)
    moreover have "al_inv L ?al"
      using dyn(2) u(6) al_lib [OF inv] al_lease [OF inv] by (simp add: al_invx_def users)
    moreover have "sm_abs L sm2 = snd (spec_unbind w (sm_abs L ?sm))" using u(3,7) by (metis snd_conv)
    ultimately show ?thesis using dyn(3) user by (simp add: al_frame_def)
  qed
qed

text \<open>An address that is marked although no lease has it stays marked.\<close>

lemma release_keeps_leaked:
  assumes inv: "al_inv L al" and dyn: "al_dyn al = Some d" and al1: "al1 = al\<lparr>al_dyn := Some d'\<rparr>" "dp_inv d'"
    and a: "a \<in> dp_allocated d'" "a \<notin> dp_allocated d"
  shows "\<exists>b al' d''. release_by_uid_impl L al1 w = Inr (b, al') \<and> al_dyn al' = Some d'' \<and> a \<in> dp_allocated d''"
proof -
  let ?sm = "al_sessions al"
  have same: "al_sessions al1 = ?sm" "al_dyn al1 = Some d'" by (simp_all add: al1)
  obtain h sm1 sm2 where u: "unbind L ?sm w = Inr (h, sm1)"
      "(Option.bind h (sm_heap sm1), sm_abs L sm1) = spec_unbind w (sm_abs L ?sm)"
      "h = None \<longleftrightarrow> snd (sm_abs L ?sm) w = None" "lease_destroy sm1 h = Inr sm2"
    using sm.unlink_law [OF al_sm [OF inv], of w] by metis
  show ?thesis
  proof (cases h)
    case None
    then show ?thesis using u(1) a(1) by (auto simp: release_by_uid_impl_def same)
  next
    case (Some p)
    then obtain user where user: "al_uids L al w = Some user" using u(3) by (auto simp: sm_abs_def)
    obtain l where l: "al_users L al user = Some l" "sm_heap sm1 p = Some l"
      using sm.coherent [OF al_sm [OF inv], of w user] user u(2) Some by (auto simp: sm_abs_def spec_unbind_def)
    have "a \<notin> ip_addrs (le_ip l)" if "\<not> le_fixed l"
    proof
      assume "a \<in> ip_addrs (le_ip l)"
      then have "dynamic (al_users L al) user = Some a"
        using l(1) that by (auto simp: dynamic_def dyn_addr_def ip_addrs_def split: option.splits if_splits)
      then show False using al_pool [OF inv] a(2) by (auto simp: pool_ok_def dyn ran_def)
    qed
    moreover obtain d'' where "dp_release d' (le_ip l) = Inr d''" "dp_allocated d'' = dp_allocated d' - ip_addrs (le_ip l)"
      using dp_release_law [OF al1(2), of "le_ip l"] by blast
    ultimately show ?thesis
      using u(1,4) l(2) a(1) Some by (auto simp: release_by_uid_impl_def same store_simps)
  qed
qed

section \<open>Acquire\<close>

text \<open>The fixed address a name is entitled to: placeholder names never have one.\<close>

definition policy_address :: "('u, 's, 'f) strongswan \<Rightarrow> 'f policy_engine \<Rightarrow> string \<Rightarrow> host option" where
  "policy_address L pe u = (if is_anon u then None else pe_fixed L pe u)"

definition lease_memory_ok :: "memory \<Rightarrow> bool" where
  "lease_memory_ok m \<longleftrightarrow> ok_lease_malloc m \<and> ok_lease_strdup m"

definition chosen_ok :: "('u, 's) ip_allocator \<Rightarrow> host option \<Rightarrow> bool \<Rightarrow> ('u, 's) ip_allocator \<Rightarrow> bool" where
  "chosen_ok al ip fixed al1 \<longleftrightarrow>
     (case al_dyn al of
        None \<Rightarrow> ip = None \<and> al1 = al
      | Some d \<Rightarrow>
          \<exists>d'. al1 = al\<lparr>al_dyn := Some d'\<rparr> \<and> dp_inv d' \<and> dp_universe d' = dp_universe d \<and>
            ip_addrs ip = least_free d \<and> (ip = None \<longleftrightarrow> dp_allocated d = dp_universe d) \<and>
            (ip = None \<longrightarrow> d' = d) \<and> (\<forall>h. ip = Some h \<longrightarrow> h_family h = AF_INET) \<and>
            dp_allocated d' = dp_allocated d \<union> least_free d) \<and> \<not> fixed"

lemma dp_take:
  assumes "strongswan_ok L" and "dp_inv d"
  shows "\<exists>r d'. dp_acquire L d = Inr (r, d') \<and> dp_inv d' \<and> dp_universe d' = dp_universe d \<and>
    ip_addrs r = least_free d \<and> (r = None \<longleftrightarrow> dp_allocated d = dp_universe d) \<and> (r = None \<longrightarrow> d' = d) \<and>
    (\<forall>h. r = Some h \<longrightarrow> h_family h = AF_INET) \<and> dp_allocated d' = dp_allocated d \<union> least_free d"
proof -
  obtain r d' where r: "dp_acquire L d = Inr (r, d')" "ip_addrs r = least_free d"
      "r = None \<longleftrightarrow> dp_allocated d = dp_universe d" "dp_allocated d' = dp_allocated d \<union> least_free d"
      "dp_universe d' = dp_universe d" "dp_inv d'"
    using dp_acquire_least [OF assms] by blast
  have inv: "strongswan_ok L \<and> dp_inv d" using assms by simp
  have "r = None \<longrightarrow> d' = d" using dp.take_None [OF inv, of d'] r(1) by auto
  moreover have "h_family h = AF_INET" if "r = Some h" for h
  proof -
    have "dp_acquire L d = Inr (Some h, d')" using r(1) that by simp
    then obtain a where "ip_addrs (Some h) = {a}" by (rule dp.take_Some [OF inv])
    then show ?thesis by (auto simp: ip_addrs_def split: if_splits)
  qed
  ultimately show ?thesis using r by blast
qed

lemma choose_effect:
  assumes inv: "al_invx L X al" and pe: "pe_inv L pe"
  shows "ok_fixed_clone m \<Longrightarrow> policy_address L pe u = Some h \<Longrightarrow> choose_ip L m pe al u = Inr (Some h, True, al)"
    and "\<not> ok_fixed_clone m \<or> policy_address L pe u = None \<Longrightarrow>
      \<exists>ip al1. choose_ip L m pe al u = Inr (ip, False, al1) \<and> chosen_ok al ip False al1"
proof -
  let ?clone = "\<lambda>h. if ok_fixed_clone m then Some h else None"
  have fetch: "(if is_anon u then Inr None
            else bindR (pe_lookup_fixed L pe (Some u)) (\<lambda>fixed_src.
              case fixed_src of
                None \<Rightarrow> Inr None
              | Some b \<Rightarrow> bindR (borrow_clone pe b) (\<lambda>h. Inr (?clone h)))) = Inr (Option.bind (policy_address L pe u) ?clone)"
    unfolding pe.fetch [OF pe] by (simp add: policy_address_def)
  show "ok_fixed_clone m \<Longrightarrow> policy_address L pe u = Some h \<Longrightarrow> choose_ip L m pe al u = Inr (Some h, True, al)"
    unfolding choose_ip_def fetch by simp
  assume "\<not> ok_fixed_clone m \<or> policy_address L pe u = None"
  then have no: "Option.bind (policy_address L pe u) ?clone = None" by (cases "policy_address L pe u") auto
  show "\<exists>ip al1. choose_ip L m pe al u = Inr (ip, False, al1) \<and> chosen_ok al ip False al1"
  proof (cases "al_dyn al")
    case None
    then show ?thesis unfolding choose_ip_def fetch no by (simp add: chosen_ok_def)
  next
    case (Some d)
    have "dp_inv d" using al_pool [OF inv] by (simp add: pool_ok_def Some)
    from dp_take [OF al_lib [OF inv] this] obtain r d' where r: "dp_acquire L d = Inr (r, d')"
        "dp_inv d'" "dp_universe d' = dp_universe d" "ip_addrs r = least_free d"
        "r = None \<longleftrightarrow> dp_allocated d = dp_universe d" "r = None \<longrightarrow> d' = d"
        "\<forall>h. r = Some h \<longrightarrow> h_family h = AF_INET" "dp_allocated d' = dp_allocated d \<union> least_free d" by blast
    then have "chosen_ok al r False (al\<lparr>al_dyn := Some d'\<rparr>)"
      unfolding chosen_ok_def Some option.case by blast
    moreover have "choose_ip L m pe al u = Inr (r, False, al\<lparr>al_dyn := Some d'\<rparr>)"
      unfolding choose_ip_def fetch no using r(1) by (simp add: Some)
    ultimately show ?thesis by blast
  qed
qed

text \<open>A user who has a lease.\<close>

lemma acquire_reuse:
  assumes inv: "al_invx L X al" and l: "al_users L al u = Some l"
  shows "\<exists>al'. acquire_locked L m now pe al u w = Inr (if ok_result_clone m then le_ip l else None, False, al') \<and>
    al_invx L X al' \<and> al_frame al al' \<and> al_dyn al' = al_dyn al \<and>
    sm_abs L (al_sessions al') = snd (spec_migrate u w now (sm_abs L (al_sessions al)))"
proof -
  let ?sm = "al_sessions al" and ?l = "l\<lparr>le_unique_id := w, le_acquired := now\<rparr>"
  obtain p sm' where p: "lookup_by_user L ?sm (Some u) = Some p" "migrate L now ?sm (Some u) w = Inr (Some p, sm')"
      "sm_inv L sm'" "sm_heap sm' p = Some ?l" "sm_abs L sm' = snd (spec_migrate u w now (sm_abs L ?sm))"
    using sm.move_keeps_address [where now = now and w = w, OF al_sm [OF inv], of u l] l by (auto simp: sm_abs_def)
  obtain h where h: "le_ip l = Some h" using al_lease [OF inv l] by (auto simp: lease_ok_def)
  have users: "sm_users L sm' = (al_users L al)(u \<mapsto> ?l)"
    using p(5) l by (simp add: sm_abs_def spec_migrate_def Let_def)
  have "acquire_locked L m now pe al u w =
      Inr (if ok_result_clone m then le_ip l else None, False, al\<lparr>al_sessions := sm'\<rparr>)"
    using p h by (simp add: acquire_locked_def store_simps)
  moreover have "al_invx L X (al\<lparr>al_sessions := sm'\<rparr>)"
    using inv p(3) al_lease [OF inv l] pool_ok_migrate [where w = w and now = now, OF al_pool [OF inv] l]
    by (auto simp: al_invx_def users lease_ok_def)
  ultimately show ?thesis using p(5) by (auto simp: al_frame_def)
qed

text \<open>The address chosen for a user without a lease may be recorded for that user.\<close>

lemma chosen_pool:
  fixes u w h fixed now
  defines "l \<equiv> \<lparr>le_username = Some u, le_unique_id = w, le_ip = Some h, le_fixed = fixed, le_acquired = now\<rparr>"
  assumes inv: "al_invx L X al" and none: "al_users L al u = None"
    and how: "fixed \<and> al1 = al \<or> chosen_ok al (Some h) fixed al1"
  shows "pool_ok X (al_dyn al1) ((al_users L al)(u \<mapsto> l)) \<and> lease_ok l \<and> al_frame al al1"
proof (cases "chosen_ok al (Some h) fixed al1")
  case False
  then show ?thesis
    using how pool_ok_insert_fixed [OF al_pool [OF inv] none, of l] by (simp add: l_def lease_ok_def)
next
  case True
  obtain d where d0: "al_dyn al = Some d" using True by (cases "al_dyn al") (auto simp: chosen_ok_def)
  obtain d' where d': "al1 = al\<lparr>al_dyn := Some d'\<rparr>" "dp_inv d'" "dp_universe d' = dp_universe d"
      "ip_addrs (Some h) = least_free d" "h_family h = AF_INET" "dp_allocated d' = dp_allocated d \<union> least_free d" "\<not> fixed"
    using True unfolding chosen_ok_def d0 option.case by blast
  have d: "al_dyn al = Some d" "al1 = al\<lparr>al_dyn := Some d'\<rparr>" "dp_inv d'" "dp_universe d' = dp_universe d"
      "{host_to_u32 h} = least_free d" "h_family h = AF_INET" "dp_allocated d' = dp_allocated d \<union> least_free d" "\<not> fixed"
    using d0 d' by simp_all
  have "pool_ok X (Some d') ((al_users L al)(u \<mapsto> l))"
  proof (rule pool_ok_insert [where a = "host_to_u32 h" and d = d])
    show "pool_ok X (Some d) (al_users L al)" using al_pool [OF inv] d(1) by simp
    have "host_to_u32 h \<in> least_free d" using d(5) by blast
    then show "host_to_u32 h \<notin> dp_allocated d" by (simp add: least_free_def)
    show "dp_allocated d' = insert (host_to_u32 h) (dp_allocated d)" using d(5,7) by auto
  qed (use none d in \<open>simp_all add: l_def dyn_addr_def\<close>)
  then show ?thesis using d by (simp add: lease_ok_def l_def al_frame_def)
qed

text \<open>A user who has none, once an address is chosen.\<close>

lemma acquire_fresh:
  assumes inv: "al_invx L X al" and none: "al_users L al u = None" and mem: "lease_memory_ok m"
    and chosen: "choose_ip L m pe al u = Inr (Some h, fixed, al1)"
    and how: "fixed \<and> al1 = al \<or> chosen_ok al (Some h) fixed al1"
  shows "\<exists>al2. acquire_locked L m now pe al u w =
      Inr (if ok_result_clone m then (Some h, False, al2) else (None, True, al2)) \<and>
    al_invx L X al2 \<and> al_frame al al2 \<and> al_dyn al2 = al_dyn al1 \<and>
    sm_abs L (al_sessions al2) = snd (spec_bind u w (Some h) fixed now (sm_abs L (al_sessions al)))"
proof -
  let ?sm = "al_sessions al"
  define l where "l = \<lparr>le_username = Some u, le_unique_id = w, le_ip = Some h, le_fixed = fixed, le_acquired = now\<rparr>"
  have same: "al_sessions al1 = ?sm" using how by (auto simp: chosen_ok_def split: option.splits)
  obtain p k sm' where p: "bind_lease L True True now ?sm (Some u) w (Some h) fixed = Inr (Some p, sm')" "sm_inv L sm'"
      "sm_heap sm' p = Some k" "(Some k, sm_abs L sm') = spec_bind u w (Some h) fixed now (sm_abs L ?sm)"
    using sm.bind_law [OF al_sm [OF inv], of now u w "Some h" fixed] by blast
  then have k: "k = l" and users: "sm_users L sm' = (al_users L al)(u \<mapsto> l)"
    by (simp_all add: spec_bind_def sm_abs_def Let_def l_def)
  have "lookup_by_user L ?sm (Some u) = None"
    using sm.find_law [OF al_sm [OF inv], of u] none by (simp add: sm_abs_def)
  then have run: "acquire_locked L m now pe al u w =
      Inr (if ok_result_clone m then (Some h, False, al1\<lparr>al_sessions := sm'\<rparr>) else (None, True, al1\<lparr>al_sessions := sm'\<rparr>))"
    using chosen p(1,3) mem by (simp add: acquire_locked_def same lease_memory_ok_def k store_simps l_def)
  have pool: "pool_ok X (al_dyn al1) ((al_users L al)(u \<mapsto> l)) \<and> lease_ok l \<and> al_frame al al1"
    unfolding l_def by (rule chosen_pool [OF inv none how])
  have "al_invx L X (al1\<lparr>al_sessions := sm'\<rparr>)"
    using pool inv p(2) by (simp add: al_invx_def users)
  with run pool p(4) show ?thesis by (auto simp: al_frame_def) (metis snd_conv)
qed

section \<open>Every call keeps the invariant\<close>

lemma chosen_none: "chosen_ok al None fixed al1 \<Longrightarrow> al1 = al"
  by (cases "al_dyn al") (auto simp: chosen_ok_def)

text \<open>Every lease after a call was there before, up to its id and time, or is a fixed one of the address that
  the policy gives its user, or a dynamic one of a user to whom the policy gives none.\<close>

definition granted ::
  "('u, 's, 'f) strongswan \<Rightarrow> memory \<Rightarrow> 'f policy_engine \<Rightarrow> ('u, 's) ip_allocator \<Rightarrow> ('u, 's) ip_allocator \<Rightarrow> bool" where
  "granted L m pe al al' \<longleftrightarrow>
     (\<forall>u l. al_users L al' u = Some l \<longrightarrow>
        (\<exists>k. al_users L al u = Some k \<and> le_ip k = le_ip l \<and> le_fixed k = le_fixed l) \<or>
        (if le_fixed l then le_ip l = policy_address L pe u else ok_fixed_clone m \<longrightarrow> policy_address L pe u = None))"

lemma granted_fewer: "granted L m pe al al1 \<Longrightarrow> (\<And>u l. al_users L al2 u = Some l \<Longrightarrow> al_users L al1 u = Some l) \<Longrightarrow> granted L m pe al al2"
  unfolding granted_def by blast

lemma granted_refl: "granted L m pe al al"
  unfolding granted_def by blast

lemma spec_unbind_fewer: "fst (snd (spec_unbind w a)) u = Some l \<Longrightarrow> fst a u = Some l"
  by (auto simp: spec_unbind_def split: option.splits if_splits)

lemma release_fewer:
  "sm_abs L (al_sessions al2) = snd (spec_unbind w (sm_abs L (al_sessions al1))) \<Longrightarrow>
    al_users L al2 u = Some l \<Longrightarrow> al_users L al1 u = Some l"
  using spec_unbind_fewer [of w "sm_abs L (al_sessions al1)" u l] by (simp add: sm_abs_def) (metis fst_conv)

text \<open>A user without a lease gets none and nothing changes, or a new lease.\<close>

lemma acquire_new_cases:
  assumes inv: "al_invx L X al" and pe: "pe_inv L pe" and mem: "lease_memory_ok m" and none: "al_users L al u = None"
  obtains (nothing) "acquire_locked L m now pe al u w = Inr (None, False, al)"
  | (bound) h fixed al2 where
      "acquire_locked L m now pe al u w = Inr (if ok_result_clone m then (Some h, False, al2) else (None, True, al2))"
      "al_invx L X al2" "al_frame al al2" "fixed \<longrightarrow> policy_address L pe u = Some h"
      "sm_abs L (al_sessions al2) = snd (spec_bind u w (Some h) fixed now (sm_abs L (al_sessions al)))"
      "\<not> fixed \<longrightarrow> h_family h = AF_INET \<and> (\<exists>d. al_dyn al = Some d \<and> least_free d = {host_to_u32 h})"
      "\<not> fixed \<longrightarrow> ok_fixed_clone m \<longrightarrow> policy_address L pe u = None"
proof -
  obtain ip fixed al1 where c: "choose_ip L m pe al u = Inr (ip, fixed, al1)"
      "(ip = policy_address L pe u \<and> fixed \<and> al1 = al \<and> ip \<noteq> None) \<or> (\<not> fixed \<and> chosen_ok al ip fixed al1 \<and> (ok_fixed_clone m \<longrightarrow> policy_address L pe u = None))"
    using choose_effect [OF inv pe, of m u]
    by (cases "ok_fixed_clone m"; cases "policy_address L pe u") (auto | metis)+
  show thesis
  proof (cases ip)
    case None
    moreover have "lookup_by_user L (al_sessions al) (Some u) = None"
      using sm.find_law [OF al_sm [OF inv], of u] none by (simp add: sm_abs_def)
    ultimately have "acquire_locked L m now pe al u w = Inr (None, False, al)"
      using c chosen_none by (auto simp: acquire_locked_def)
    then show ?thesis by (rule nothing)
  next
    case (Some h)
    have how: "choose_ip L m pe al u = Inr (Some h, fixed, al1)" "fixed \<and> al1 = al \<or> chosen_ok al (Some h) fixed al1"
      using c Some by auto
    obtain al2 where al2: "acquire_locked L m now pe al u w =
        Inr (if ok_result_clone m then (Some h, False, al2) else (None, True, al2))" "al_invx L X al2" "al_frame al al2"
        "sm_abs L (al_sessions al2) = snd (spec_bind u w (Some h) fixed now (sm_abs L (al_sessions al)))"
      using acquire_fresh [OF inv none mem how, of now w] by blast
    have "fixed \<longrightarrow> policy_address L pe u = Some h" using c(2) Some by auto
    moreover have "h_family h = AF_INET \<and> (\<exists>d. al_dyn al = Some d \<and> least_free d = {host_to_u32 h})" if "\<not> fixed"
      using c(2) Some that by (auto simp: chosen_ok_def ip_addrs_def split: option.splits)
    ultimately show ?thesis using al2 c(2) by (intro bound [of h al2 fixed]) blast+
  qed
qed

lemma acquire_locked_inv:
  assumes inv: "al_invx L X al" and pe: "pe_inv L pe" and mem: "lease_memory_ok m"
  shows "\<exists>r b al'. acquire_locked L m now pe al u w = Inr (r, b, al') \<and> al_invx L X al' \<and> al_frame al al' \<and> granted L m pe al al'"
proof (cases "al_users L al u")
  case (Some l)
  obtain al' where al': "acquire_locked L m now pe al u w = Inr (if ok_result_clone m then le_ip l else None, False, al')"
      "al_invx L X al'" "al_frame al al'" "sm_abs L (al_sessions al') = snd (spec_migrate u w now (sm_abs L (al_sessions al)))"
    using acquire_reuse [OF inv Some] by blast
  have "al_users L al' = (al_users L al)(u \<mapsto> l\<lparr>le_unique_id := w, le_acquired := now\<rparr>)"
    using al'(4) Some by (simp add: sm_abs_def spec_migrate_def Let_def)
  then have "granted L m pe al al'" using Some by (auto simp: granted_def)
  with al' show ?thesis by blast
next
  case None
  show ?thesis
  proof (rule acquire_new_cases [OF inv pe mem None, of now w])
    assume "acquire_locked L m now pe al u w = Inr (None, False, al)"
    then show ?thesis using inv granted_refl by auto
  next
    fix h fixed al2
    assume al2: "acquire_locked L m now pe al u w =
        Inr (if ok_result_clone m then (Some h, False, al2) else (None, True, al2))" "al_invx L X al2" "al_frame al al2"
        "fixed \<longrightarrow> policy_address L pe u = Some h"
        "sm_abs L (al_sessions al2) = snd (spec_bind u w (Some h) fixed now (sm_abs L (al_sessions al)))"
        "\<not> fixed \<longrightarrow> ok_fixed_clone m \<longrightarrow> policy_address L pe u = None"
    have "al_users L al2 = (al_users L al)(u \<mapsto> \<lparr>le_username = Some u, le_unique_id = w, le_ip = Some h,
        le_fixed = fixed, le_acquired = now\<rparr>)"
      using al2(5) by (simp add: sm_abs_def spec_bind_def Let_def)
    then have "granted L m pe al al2" using al2(4,6) by (auto simp: granted_def)
    with al2 show ?thesis by (cases "ok_result_clone m") auto
  qed
qed

lemma acquire_inv:
  assumes inv: "al_inv L al" and pe: "pe_inv L pe" and mem: "lease_memory_ok m"
  shows "\<exists>r al'. acquire_address L m now pe al pools sa requested = Inr (r, al') \<and> al_inv L al' \<and> al_frame al al' \<and>
    granted L m pe al al'"
proof (cases "sa \<noteq> None \<and> pools_include al pools \<and> acquire_username m (the sa) \<noteq> None")
  case False
  then have "acquire_address L m now pe al pools sa requested = Inr (None, al)"
    by (auto simp: acquire_address_def split: option.splits)
  then show ?thesis using inv granted_refl by auto
next
  case True
  then obtain s u where s: "sa = Some s" "acquire_username m s = Some u" by auto
  obtain r b al1 where l: "acquire_locked L m now pe al u (sa_unique_id s) = Inr (r, b, al1)" "al_inv L al1" "al_frame al al1"
      "granted L m pe al al1"
    using acquire_locked_inv [OF assms] by blast
  obtain b' al2 where r: "release_by_uid_impl L al1 (sa_unique_id s) = Inr (b', al2)" "al_inv L al2" "al_frame al1 al2"
      "sm_abs L (al_sessions al2) = snd (spec_unbind (sa_unique_id s) (sm_abs L (al_sessions al1)))"
    using release_effect [OF l(2)] by blast
  have "granted L m pe al al2" by (rule granted_fewer [OF l(4)]) (rule release_fewer [OF r(4)])
  then show ?thesis
    using True s l r al_frame_trans [of al al1 al2] by (cases b) (auto simp: acquire_address_def)
qed

text \<open>A release, on the pointers.\<close>

lemma release_pointers:
  assumes inv: "al_inv L al" and l: "sm_heap (al_sessions al) p = Some l"
    and uid: "uid_get L (al_sessions al) (uid_key (le_unique_id l)) = Some p"
  shows "\<exists>al'. release_by_uid_impl L al (le_unique_id l) = Inr (True, al') \<and> al_inv L al' \<and> al_frame al al' \<and>
    sm_heap (al_sessions al') = (sm_heap (al_sessions al))(p := None) \<and>
    uid_get L (al_sessions al') = (uid_get L (al_sessions al))(uid_key (le_unique_id l) := None) \<and>
    user_get L (al_sessions al') = (user_get L (al_sessions al))(the (le_username l) := None)"
proof -
  let ?sm = "al_sessions al" and ?w = "le_unique_id l"
  obtain sm1 where u: "unbind L ?sm ?w = Inr (Some p, sm1)" "sm_detach L ?sm p sm1"
    using unbind_effect(2) [OF al_sm [OF inv] uid] by blast
  obtain al' where al': "release_by_uid_impl L al ?w = Inr (al_uids L al ?w \<noteq> None, al')" "al_inv L al'" "al_frame al al'"
    using release_effect [OF inv, of ?w] by blast
  have "al_uids L al ?w \<noteq> None" using sm_uids_uid_get(2) [OF al_sm [OF inv] uid] by auto
  moreover have "sm_heap (al_sessions al') = (sm_heap ?sm)(p := None) \<and> sm_by_uid (al_sessions al') = sm_by_uid sm1 \<and>
      sm_by_user (al_sessions al') = sm_by_user sm1"
    using al'(1) u l
    by (auto simp: release_by_uid_impl_def sm_detach_def store_simps lease_destroy_def res_iff)
  ultimately show ?thesis using al' u(2) l by (auto simp: sm_detach_def)
qed

definition dead :: "(u32 \<Rightarrow> bool) \<Rightarrow> lease store \<Rightarrow> nat set \<Rightarrow> nat set" where
  "dead alive h ps = {p \<in> ps. \<exists>l. h p = Some l \<and> \<not> alive (le_unique_id l)}"

text \<open>The callback on one lease without an IKE_SA: the lease is gone from the store and from both tables.\<close>

lemma sweep_one:
  assumes inv: "al_inv L al" and l: "sm_heap (al_sessions al) p = Some l"
    and uid: "uid_get L (al_sessions al) (uid_key (le_unique_id l)) = Some p" and dead: "\<not> alive (le_unique_id l)"
  shows "\<exists>al'. sweep_cb L alive p al = Inr al' \<and> al_inv L al' \<and> al_frame al al' \<and>
    sm_heap (al_sessions al') = (sm_heap (al_sessions al))(p := None) \<and>
    uid_get L (al_sessions al') = (uid_get L (al_sessions al))(uid_key (le_unique_id l) := None) \<and>
    user_get L (al_sessions al') = (\<lambda>u. if user_get L (al_sessions al) u = Some p then None else user_get L (al_sessions al) u)"
proof -
  note sm = al_sm [OF inv]
  obtain al' where al': "release_by_uid_impl L al (le_unique_id l) = Inr (True, al')" "al_inv L al'" "al_frame al al'"
      "sm_heap (al_sessions al') = (sm_heap (al_sessions al))(p := None)"
      "uid_get L (al_sessions al') = (uid_get L (al_sessions al))(uid_key (le_unique_id l) := None)"
      "user_get L (al_sessions al') = (user_get L (al_sessions al))(the (le_username l) := None)"
    using release_pointers [OF inv l uid] by blast
  obtain u where u: "le_username l = Some u" "user_get L (al_sessions al) u = Some p"
    using sm_uids_uid_get(2) [OF sm uid] l by auto
  have only: "user_get L (al_sessions al) v = Some p \<longleftrightarrow> v = u" for v
    using sm_users_user_get(2) [OF sm, of v p] l u by auto
  have "user_get L (al_sessions al') = (\<lambda>v. if user_get L (al_sessions al) v = Some p then None else user_get L (al_sessions al) v)"
    unfolding al'(6) only using u(1) by (simp add: fun_eq_iff)
  moreover have "sweep_cb L alive p al = Inr al'" using al'(1) l dead by (simp add: sweep_cb_def store_simps)
  ultimately show ?thesis using al'(2-5) by blast
qed

text \<open>The other pointers of the snapshot stay good when one lease goes.\<close>

definition listed :: "('u, 's, 'f) strongswan \<Rightarrow> ('u, 's) ip_allocator \<Rightarrow> nat \<Rightarrow> bool" where
  "listed L al p \<longleftrightarrow>
     (\<exists>l. sm_heap (al_sessions al) p = Some l \<and> uid_get L (al_sessions al) (uid_key (le_unique_id l)) = Some p)"

lemma listed_still:
  assumes "listed L al q" and "q \<noteq> p" and "uid_get L (al_sessions al) w = Some p"
    and "sm_heap (al_sessions al1) = (sm_heap (al_sessions al))(p := None)"
    and "uid_get L (al_sessions al1) = (uid_get L (al_sessions al))(w := None)"
  shows "listed L al1 q"
proof -
  obtain k where k: "sm_heap (al_sessions al) q = Some k" "uid_get L (al_sessions al) (uid_key (le_unique_id k)) = Some q"
    using assms(1) by (auto simp: listed_def)
  then have "uid_key (le_unique_id k) \<noteq> w" using assms(2,3) by auto
  then show ?thesis using k assms(2,4,5) by (simp add: listed_def)
qed

lemma sweep_loop:
  assumes "al_inv L al" and "distinct ps"
    and "\<And>p. p \<in> set ps \<Longrightarrow> listed L al p"
  shows "\<exists>al'. foldR (sweep_cb L alive) ps al = Inr al' \<and> al_inv L al' \<and> al_frame al al' \<and>
    sm_heap (al_sessions al') = (\<lambda>p. if p \<in> dead alive (sm_heap (al_sessions al)) (set ps) then None
      else sm_heap (al_sessions al) p) \<and>
    user_get L (al_sessions al') = (\<lambda>u. case user_get L (al_sessions al) u of None \<Rightarrow> None
      | Some p \<Rightarrow> if p \<in> dead alive (sm_heap (al_sessions al)) (set ps) then None else Some p)"
  using assms
proof (induction ps arbitrary: al)
  case Nil
  then show ?case by (auto simp: dead_def fun_eq_iff split: option.split)
next
  case (Cons p ps)
  let ?h = "sm_heap (al_sessions al)" and ?user = "user_get L (al_sessions al)"
  obtain l where l: "?h p = Some l" "uid_get L (al_sessions al) (uid_key (le_unique_id l)) = Some p"
    using Cons.prems(3) [of p] by (auto simp: listed_def)
  show ?case
  proof (cases "alive (le_unique_id l)")
    case True
    have D: "dead alive ?h (set (p # ps)) = dead alive ?h (set ps)" using True l by (auto simp: dead_def)
    have run: "foldR (sweep_cb L alive) (p # ps) al = foldR (sweep_cb L alive) ps al"
      using True l by (simp add: sweep_cb_def store_simps)
    show ?thesis unfolding D run by (rule Cons.IH [OF Cons.prems(1)]) (use Cons.prems(2,3) in auto)
  next
    case False
    obtain al1 where al1: "sweep_cb L alive p al = Inr al1" "al_inv L al1" "al_frame al al1"
        "sm_heap (al_sessions al1) = ?h(p := None)"
        "uid_get L (al_sessions al1) = (uid_get L (al_sessions al))(uid_key (le_unique_id l) := None)"
        "user_get L (al_sessions al1) = (\<lambda>u. if ?user u = Some p then None else ?user u)"
      using sweep_one [where alive = alive, OF Cons.prems(1) l False] by blast
    have still: "\<And>q. q \<in> set ps \<Longrightarrow> listed L al1 q"
      using listed_still [OF _ _ l(2) al1(4,5)] Cons.prems(2,3) by auto
    have D: "dead alive ?h (set (p # ps)) = insert p (dead alive (?h(p := None)) (set ps))"
      using False l Cons.prems(2) by (auto simp: dead_def)
    have d: "distinct ps" using Cons.prems(2) by simp
    obtain al2 where al2: "foldR (sweep_cb L alive) ps al1 = Inr al2" "al_inv L al2" "al_frame al1 al2"
        "sm_heap (al_sessions al2) = (\<lambda>q. if q \<in> dead alive (?h(p := None)) (set ps) then None else (?h(p := None)) q)"
        "user_get L (al_sessions al2) = (\<lambda>v. case if ?user v = Some p then None else ?user v of None \<Rightarrow> None
          | Some q \<Rightarrow> if q \<in> dead alive (?h(p := None)) (set ps) then None else Some q)"
      using Cons.IH [OF al1(2) d still] unfolding al1(4,6) by blast
    have "foldR (sweep_cb L alive) (p # ps) al = Inr al2" using al1(1) al2(1) by simp
    moreover have "sm_heap (al_sessions al2) = (\<lambda>q. if q \<in> dead alive ?h (set (p # ps)) then None else ?h q)"
      unfolding al2(4) D by (auto simp: fun_eq_iff)
    moreover have "user_get L (al_sessions al2) = (\<lambda>v. case ?user v of None \<Rightarrow> None
          | Some q \<Rightarrow> if q \<in> dead alive ?h (set (p # ps)) then None else Some q)"
      unfolding al2(5) D by (auto simp: fun_eq_iff split: option.split)
    ultimately show ?thesis using al2(2) al_frame_trans [OF al1(3) al2(3)] by blast
  qed
qed

text \<open>The sweep on the lease table: what is expired, findable by its id and without an IKE_SA goes.\<close>

definition orphaned ::
  "('u, 's, 'f) strongswan \<Rightarrow> (u32 \<Rightarrow> bool) \<Rightarrow> int \<Rightarrow> ('u, 's) ip_allocator \<Rightarrow> string \<Rightarrow> lease \<Rightarrow> bool" where
  "orphaned L alive now al u l \<longleftrightarrow>
     al_uids L al (le_unique_id l) = Some u \<and> now - le_acquired l > uint (al_lease_timeout al) \<and>
     \<not> alive (le_unique_id l)"

lemma sweep_effect:
  assumes inv: "al_inv L al"
  shows "\<exists>al'. sweep L alive now al = Inr al' \<and> al_inv L al' \<and> al_frame al al' \<and>
    (\<forall>u. al_users L al' u =
       (case al_users L al u of None \<Rightarrow> None | Some l \<Rightarrow> if orphaned L alive now al u l then None else Some l))"
proof -
  let ?sm = "al_sessions al"
  note sm = al_sm [OF inv]
  obtain ps where ps: "expiring L ?sm now (al_lease_timeout al) = Inr ps" "distinct ps"
      "\<And>p. p \<in> set ps \<longleftrightarrow> (\<exists>w l. uid_get L ?sm (uid_key w) = Some p \<and> sm_heap ?sm p = Some l \<and>
         le_unique_id l = w \<and> now - le_acquired l > uint (al_lease_timeout al))"
    using expiring_effect [OF sm, of now "al_lease_timeout al"] by blast
  let ?D = "dead alive (sm_heap ?sm) (set ps)"
  obtain al' where al': "foldR (sweep_cb L alive) ps al = Inr al'" "al_inv L al'" "al_frame al al'"
      "sm_heap (al_sessions al') = (\<lambda>p. if p \<in> ?D then None else sm_heap ?sm p)"
      "user_get L (al_sessions al') = (\<lambda>u. case user_get L ?sm u of None \<Rightarrow> None
        | Some p \<Rightarrow> if p \<in> ?D then None else Some p)"
    using sweep_loop [OF inv ps(2)] ps(3) unfolding listed_def by blast
  have "al_users L al' u =
      (case al_users L al u of None \<Rightarrow> None | Some l \<Rightarrow> if orphaned L alive now al u l then None else Some l)" for u
  proof (cases "user_get L ?sm u")
    case None
    then show ?thesis by (simp add: sm_users_def al'(5))
  next
    case (Some p)
    obtain l where l: "al_users L al u = Some l" "sm_heap ?sm p = Some l" "le_username l = Some u"
      using sm_users_user_get(2) [OF sm Some] by blast
    have "uid_get L ?sm (uid_key (le_unique_id l)) = Some p \<longleftrightarrow> al_uids L al (le_unique_id l) = Some u"
      using sm_uids_uid_get [OF sm, of "le_unique_id l"] Some l
      by (cases "uid_get L ?sm (uid_key (le_unique_id l))") auto
    then have "p \<in> ?D \<longleftrightarrow> orphaned L alive now al u l"
      using ps(3) [of p] l by (auto simp: dead_def orphaned_def)
    then show ?thesis using l Some by (simp add: sm_users_def al'(4,5))
  qed
  then show ?thesis using al'(1-3) ps(1) by (simp add: sweep_def foreach_expiring_def)
qed

section \<open>Creation\<close>

lemma create_inv:
  assumes L: "strongswan_ok L" and pe: "pe_inv L pe" and "ip_allocator_create L ok1 ok2 (Some pe) name timeout = Inr (Some al)"
    and fits: "\<And>d. al_dyn al = Some d \<Longrightarrow> dp_fits d"
  shows "al_inv L al" and "al_users L al = Map.empty" and "\<And>d. al_dyn al = Some d \<Longrightarrow> dp_allocated d = {}"
proof -
  obtain c start "end" where al: "al = \<lparr>al_dyn = (if c then dynamic_pool_create ok2 start end else None),
      al_sessions = session_manager_create L, al_pool_name = (case name of None \<Rightarrow> ''cupp'' | Some n \<Rightarrow> n),
      al_lease_timeout = (if timeout \<noteq> 0 then timeout else 3600)\<rparr>"
  proof (cases "pe_get_pool pe None None")
    case (Inr r)
    obtain c start "end" where "r = (c, start, end)" by (cases r)
    moreover have "ok1" using assms(3) by (cases ok1) (simp_all add: ip_allocator_create_def)
    ultimately show ?thesis using assms(3) Inr that [of c start "end"] by (simp add: ip_allocator_create_def)
  qed (use assms(3) in \<open>cases ok1, simp_all add: ip_allocator_create_def\<close>)
  have pool: "dp_inv d \<and> dp_allocated d = {}" if d: "al_dyn al = Some d" for d
    by (rule dp_created [of ok2 start "end"]) (use d fits [OF d] in \<open>simp_all add: al split: if_splits\<close>)
  show users: "al_users L al = Map.empty" using create_effect(2) [OF L] by (simp add: al sm_abs_def)
  have empty: "dynamic (al_users L al) = Map.empty" by (simp add: users dynamic_def fun_eq_iff)
  have "pool_ok {} (al_dyn al) (al_users L al)"
    unfolding pool_ok_def empty using pool by (simp split: option.split)
  then show "al_inv L al" using L create_effect(1) [OF L] users by (simp add: al_invx_def) (simp add: al)
  show "\<And>d. al_dyn al = Some d \<Longrightarrow> dp_allocated d = {}" using pool by blast
qed

section \<open>Runs\<close>

text \<open>The calls charon, the bus and the job queue make, one after the other, each with the engine of its
  time: the policy may be reloaded between calls.\<close>

datatype 'f call =
    Acquire memory int "'f policy_engine" "string option list option" "ike_sa option" "host option"
  | Release "string option list option" "host option" "ike_sa option"
  | Release_Uid u32
  | Sweep "u32 \<Rightarrow> bool" int

definition do_call ::
  "('u, 's, 'f) strongswan \<Rightarrow> 'f call \<Rightarrow> ('u, 's) ip_allocator \<Rightarrow> ('u, 's) ip_allocator res" where
  "do_call L c al =
     (case c of
        Acquire m now pe pools sa requested \<Rightarrow>
          bindR (acquire_address L m now pe al pools sa requested) (\<lambda>(_, al'). Inr al')
      | Release pools address sa \<Rightarrow> bindR (release_address L al pools address sa) (\<lambda>(_, al'). Inr al')
      | Release_Uid uid \<Rightarrow> release_by_uid L al uid
      | Sweep alive now \<Rightarrow> sweep L alive now al)"

text \<open>The engine of a call is well-formed, and memory for the new lease is there; any other allocation
  may fail.\<close>

definition call_ok :: "('u, 's, 'f) strongswan \<Rightarrow> 'f call \<Rightarrow> bool" where
  "call_ok L c = (case c of Acquire m now pe pools sa requested \<Rightarrow> pe_inv L pe \<and> lease_memory_ok m | _ \<Rightarrow> True)"

text \<open>Calls under one policy, and leases that follow it: each fixed lease has its user's address.\<close>

definition call_under :: "('u, 's, 'f) strongswan \<Rightarrow> (string \<Rightarrow> host option) \<Rightarrow> 'f call \<Rightarrow> bool" where
  "call_under L P c =
     (case c of Acquire m now pe pools sa requested \<Rightarrow> policy_address L pe = P | _ \<Rightarrow> True)"

definition follows :: "(string \<Rightarrow> host option) \<Rightarrow> (string \<Rightarrow> lease option) \<Rightarrow> bool" where
  "follows P users \<longleftrightarrow> (\<forall>u l. users u = Some l \<longrightarrow> le_fixed l \<longrightarrow> le_ip l = P u)"

lemma follows_fewer: "follows P users \<Longrightarrow> (\<And>u l. users' u = Some l \<Longrightarrow> users u = Some l) \<Longrightarrow> follows P users'"
  unfolding follows_def by blast

text \<open>A user with a fixed address has a fixed lease, provided that there is memory to copy the address.\<close>

definition call_copies :: "'f call \<Rightarrow> bool" where
  "call_copies c = (case c of Acquire m now pe pools sa requested \<Rightarrow> ok_fixed_clone m | _ \<Rightarrow> True)"

definition honours :: "(string \<Rightarrow> host option) \<Rightarrow> (string \<Rightarrow> lease option) \<Rightarrow> bool" where
  "honours P users \<longleftrightarrow> (\<forall>u l. users u = Some l \<longrightarrow> P u \<noteq> None \<longrightarrow> le_fixed l)"

lemma honours_fewer: "honours P users \<Longrightarrow> (\<And>u l. users' u = Some l \<Longrightarrow> users u = Some l) \<Longrightarrow> honours P users'"
  unfolding honours_def by blast

lemma honours_granted: "granted L m pe al al' \<Longrightarrow> policy_address L pe = P \<Longrightarrow> ok_fixed_clone m \<Longrightarrow>
    honours P (al_users L al) \<Longrightarrow> honours P (al_users L al')"
  unfolding honours_def granted_def by metis

lemma follows_granted: "granted L m pe al al' \<Longrightarrow> policy_address L pe = P \<Longrightarrow> follows P (al_users L al) \<Longrightarrow> follows P (al_users L al')"
  unfolding follows_def granted_def by metis

lemma do_call_inv:
  assumes inv: "al_inv L al" and ok: "call_ok L c"
  shows "\<exists>al'. do_call L c al = Inr al' \<and> al_inv L al' \<and> al_frame al al' \<and>
    (\<forall>P. call_under L P c \<longrightarrow> follows P (al_users L al) \<longrightarrow> follows P (al_users L al')) \<and>
    (\<forall>P. call_under L P c \<longrightarrow> call_copies c \<longrightarrow> honours P (al_users L al) \<longrightarrow> honours P (al_users L al'))"
proof -
  have release: "\<exists>b al'. release_by_uid_impl L al w = Inr (b, al') \<and> al_inv L al' \<and> al_frame al al' \<and>
      (\<forall>P. follows P (al_users L al) \<longrightarrow> follows P (al_users L al')) \<and>
      (\<forall>P. honours P (al_users L al) \<longrightarrow> honours P (al_users L al'))" for w
  proof -
    obtain al' where al': "release_by_uid_impl L al w = Inr (al_uids L al w \<noteq> None, al')" "al_inv L al'" "al_frame al al'"
        "sm_abs L (al_sessions al') = snd (spec_unbind w (sm_abs L (al_sessions al)))"
      using release_effect [OF inv, of w] by blast
    show ?thesis using al'(1-3) follows_fewer honours_fewer release_fewer [OF al'(4)] by blast
  qed
  show ?thesis
  proof (cases c)
    case (Acquire m now pe pools sa requested)
    then show ?thesis
      using acquire_inv [OF inv, of pe m now pools sa requested] ok
      by (auto simp: do_call_def call_ok_def call_under_def call_copies_def intro: follows_granted honours_granted)
  next
    case (Release pools address sa)
    then show ?thesis
      using release [of "sa_unique_id (the sa)"] inv
      by (cases sa) (auto simp: do_call_def release_address_def)
  next
    case (Release_Uid uid)
    then show ?thesis using release [of uid] by (auto simp: do_call_def release_by_uid_def)
  next
    case (Sweep alive now)
    obtain al' where al': "sweep L alive now al = Inr al'" "al_inv L al'" "al_frame al al'"
        "\<forall>u. al_users L al' u =
          (case al_users L al u of None \<Rightarrow> None | Some l \<Rightarrow> if orphaned L alive now al u l then None else Some l)"
      using sweep_effect [OF inv, of alive now] by blast
    then have "follows P (al_users L al')" if "follows P (al_users L al)" for P
      using that by (auto simp: follows_def split: option.splits if_splits)
    moreover from al'(4) have "honours P (al_users L al')" if "honours P (al_users L al)" for P
      using that by (auto simp: honours_def split: option.splits if_splits)
    ultimately show ?thesis using al' Sweep by (auto simp: do_call_def)
  qed
qed

text \<open>Calls in a row, and calls in a row that follow one policy.\<close>

interpretation al: steady_service "do_call L" "al_inv L" "call_ok L" al_frame "call_under L P"
    "\<lambda>al. follows P (al_users L al)"
  for L :: "('u, 's, 'f) strongswan" and P
proof (unfold_locales, goal_cases)
  case (1 al c)
  then show ?case using do_call_inv by blast
next
  case (2 al)
  then show ?case by (simp add: al_frame_def)
next
  case (3 al al1 al2)
  then show ?case by (rule al_frame_trans)
next
  case (4 al c al')
  then show ?case using do_call_inv [OF 4(1,3)] by auto
qed

interpretation fixed: steady_service "do_call L" "al_inv L" "call_ok L" al_frame "\<lambda>c. call_under L P c \<and> call_copies c"
    "\<lambda>al. follows P (al_users L al) \<and> honours P (al_users L al)"
  for L :: "('u, 's, 'f) strongswan" and P
proof (unfold_locales, goal_cases)
  case (1 al c al')
  then show ?case using do_call_inv [of L al c] by auto
qed

text \<open>The host a user holds, and what the invariants say of two users.\<close>

definition held :: "('u, 's, 'f) strongswan \<Rightarrow> ('u, 's) ip_allocator \<Rightarrow> string \<Rightarrow> host option" where
  "held L al u = Option.bind (al_users L al u) le_ip"

lemma held_distinct_dynamic:
  assumes inv: "al_inv L al" and "dynamic (al_users L al) u = Some a" and "dynamic (al_users L al) v = Some a"
  shows "u = v"
  using inj_onD [of "dynamic (al_users L al)" "dom (dynamic (al_users L al))" u v] al_pool [OF inv] assms(2,3)
  by (auto simp: pool_ok_def)

lemma dynamic_in_pool:
  assumes inv: "al_inv L al" and "dynamic (al_users L al) u = Some a"
  shows "\<exists>d. al_dyn al = Some d \<and> a \<in> dp_universe d"
  using al_pool [OF inv] assms(2)
  by (cases "al_dyn al") (auto simp: pool_ok_def dp_allocated_def ran_def)

text \<open>When the fixed addresses are distinct and none of them lies in the pool, no two users hold the same
  address.\<close>

lemma held_distinct:
  assumes inv: "al_inv L al" and follows: "follows P (al_users L al)"
    and policy: "inj_on P (dom P)"
      "\<And>u h d. P u = Some h \<Longrightarrow> al_dyn al = Some d \<Longrightarrow> h_family h = AF_INET \<Longrightarrow> host_to_u32 h \<notin> dp_universe d"
    and u: "held L al u = Some h" and v: "held L al v = Some h"
  shows "u = v"
proof -
  obtain k l where k: "al_users L al u = Some k" "le_ip k = Some h" and l: "al_users L al v = Some l" "le_ip l = Some h"
    using u v by (auto simp: held_def bind_eq_Some_conv)
  have fixed: "P x = Some h" if "al_users L al x = Some m" "le_ip m = Some h" "le_fixed m" for x m
    using follows that by (auto simp: follows_def)
  have dyn: "dynamic (al_users L al) x = Some (host_to_u32 h) \<and> h_family h = AF_INET"
    if "al_users L al x = Some m" "le_ip m = Some h" "\<not> le_fixed m" for x m
    using al_lease [OF inv that(1)] that by (auto simp: dynamic_def dyn_addr_def lease_ok_def)
  have mixed: False if "P x = Some h" "dynamic (al_users L al) y = Some (host_to_u32 h) \<and> h_family h = AF_INET" for x y
    using policy(2) [OF that(1)] dynamic_in_pool [OF inv, of y] that(2) by auto
  show ?thesis
    using fixed [OF k] fixed [OF l] dyn [OF k] dyn [OF l] mixed held_distinct_dynamic [OF inv, of u _ v]
      inj_onD [OF policy(1), of u v]
    by (cases "le_fixed k"; cases "le_fixed l") (auto dest: domI)
qed

end
