(* ===== verification/Allocator_Properties.thy ===== *)
theory Allocator_Properties
  imports Ip_Allocator
begin

text \<open>
  The properties of the allocator when its calls run one after the other, and a concrete allocator to
  evaluate them on: the policy of \<open>demo_engine\<close>, a pool of twenty addresses.
\<close>

section \<open>A concrete allocator\<close>

definition demo_dyn :: dynamic_pool where
  "demo_dyn = \<lparr>dp_start = \<lparr>h_family = AF_INET, h_address = [100, 101, 102, 103]\<rparr>,
     dp_end = \<lparr>h_family = AF_INET, h_address = [100, 101, 102, 122]\<rparr>,
     dp_start_h = 1684366951, dp_end_h = 1684366970, dp_capacity = 20, dp_bits = [0, 0, 0], dp_used = 0\<rparr>"

definition demo_al :: "((u64, nat) atable, (string, nat) atable) ip_allocator" where
  "demo_al = \<lparr>al_dyn = Some demo_dyn, al_sessions = session_manager_create demo_lib,
     al_pool_name = ''cupp'', al_lease_timeout = 3600\<rparr>"

definition demo_memory :: memory where
  "demo_memory = \<lparr>ok_strndup = True, ok_anon_strdup = True, ok_fixed_clone = True, ok_lease_malloc = True,
     ok_lease_strdup = True, ok_result_clone = True\<rparr>"

definition demo_sa :: "string \<Rightarrow> u32 \<Rightarrow> ike_sa" where
  "demo_sa name uid = \<lparr>sa_auth_cfg = None,
     sa_other_eap_id = (if name = '''' then None else Some \<lparr>id_get_type = ID_KEY_ID, id_get_encoding = Some name\<rparr>),
     sa_other_id = None, sa_unique_id = uid\<rparr>"

definition demo_pools :: "string option list option" where
  "demo_pools = Some [Some ''cupp'']"

lemma demo_memory_simps [simp]:
  "ok_strndup demo_memory" "ok_anon_strdup demo_memory" "ok_fixed_clone demo_memory" "ok_lease_malloc demo_memory"
  "ok_lease_strdup demo_memory" "ok_result_clone demo_memory" "lease_memory_ok demo_memory"
  by (simp_all add: demo_memory_def lease_memory_ok_def)

lemma demo_al_created: "ip_allocator_create demo_lib True True (Some demo_engine) None 0 = Inr (Some demo_al)"
proof -
  have "pe_get_pool demo_engine None None = Inr (True,
      Some \<lparr>h_family = AF_INET, h_address = [100, 101, 102, 103]\<rparr>, Some \<lparr>h_family = AF_INET, h_address = [100, 101, 102, 122]\<rparr>)"
    by (simp add: pe_get_pool_def demo_engine_def document_snapshot_def pool_endpoint_def demo_from_string_def
        cstr_def deref_def)
  moreover have "replicate 3 x = [x, x, x]" for x :: u8 by (simp add: numeral_eq_Suc)
  ultimately show ?thesis
    by (simp add: ip_allocator_create_def demo_al_def dynamic_pool_create_def demo_dyn_def host_to_u32_def
        load_be32_def)
qed

lemma demo_al_inv: "al_inv demo_lib demo_al" and demo_al_users: "al_users demo_lib demo_al = Map.empty"
  and demo_dyn_empty: "dp_allocated demo_dyn = {}"
  using create_inv [OF demo_lib_ok demo_engine_inv demo_al_created]
  by (simp_all add: demo_al_def demo_dyn_def dp_fits_def)

lemma demo_username: "name \<noteq> '''' \<Longrightarrow> acquire_username demo_memory (demo_sa name uid) = Some (cstr name)"
  by (simp add: acquire_username_def identity_get_username_def demo_sa_def id_username_def)

lemma demo_sa_uid [simp]: "sa_unique_id (demo_sa name uid) = uid"
  by (simp add: demo_sa_def)

lemma demo_pools_include: "pools_include demo_al demo_pools"
  by (simp add: pools_include_def demo_pools_def demo_al_def)

section \<open>Safety of every run\<close>

text \<open>C2: whatever sequence of calls charon, the bus and the job queue make on a new allocator, under any
  policies and with memory for new leases, no call faults; afterwards no two users hold the same
  dynamic address, and the addresses marked in the pool are exactly the dynamic addresses held, so
  that none is lost and none is handed out twice.\<close>

theorem runs_keep_pool_and_leases_consistent:
  assumes "strongswan_ok L" and "pe_inv L pe"
    and "ip_allocator_create L ok1 ok2 (Some pe) name timeout = Inr (Some al)"
    and "\<And>d. al_dyn al = Some d \<Longrightarrow> dp_fits d"
    and "list_all (call_ok L) cs"
  shows "\<exists>al'. foldR (do_call L) cs al = Inr al' \<and>
    (\<forall>u v a. dynamic (al_users L al') u = Some a \<longrightarrow> dynamic (al_users L al') v = Some a \<longrightarrow> u = v) \<and>
    (case (al_dyn al, al_dyn al') of
       (None, None) \<Rightarrow> dynamic (al_users L al') = Map.empty
     | (Some d, Some d') \<Rightarrow> dp_universe d' = dp_universe d \<and> dp_allocated d' = ran (dynamic (al_users L al')) \<and>
         unat (dp_used d') = card (ran (dynamic (al_users L al')))
     | _ \<Rightarrow> False)"
proof -
  have inv: "al_inv L al" using create_inv(1) [OF assms(1-4)] .
  obtain al' where al': "foldR (do_call L) cs al = Inr al'" "al_inv L al'" "al_frame al al'"
    using al.run_law [OF inv assms(5)] by blast
  have "\<forall>u v a. dynamic (al_users L al') u = Some a \<longrightarrow> dynamic (al_users L al') v = Some a \<longrightarrow> u = v"
    using held_distinct_dynamic [OF al'(2)] by blast
  then show ?thesis
    using al' al_pool [OF al'(2)]
    by (cases "al_dyn al"; cases "al_dyn al'") (auto simp: al_frame_def pool_ok_def dp_inv_used)
qed

text \<open>A short run: the fixed user and an anonymous connection come, the anonymous one goes.\<close>

definition demo_run :: "(string, host) atable call list" where
  "demo_run =
     [Acquire demo_memory 100 demo_engine demo_pools (Some (demo_sa ''vip'' 1)) None,
      Acquire demo_memory 110 demo_engine demo_pools (Some (demo_sa '''' 2)) None,
      Release demo_pools None (Some (demo_sa '''' 2)), Sweep (\<lambda>_. False) 9000]"

lemma demo_run_ok: "list_all (call_ok demo_lib) demo_run"
  by (simp add: demo_run_def call_ok_def demo_engine_inv)

lemma demo_dyn_fits: "al_dyn demo_al = Some d \<Longrightarrow> dp_fits d"
  by (auto simp: demo_al_def demo_dyn_def dp_fits_def)

theorem runs_keep_pool_and_leases_consistent_witness:
  "\<exists>al'. foldR (do_call demo_lib) demo_run demo_al = Inr al' \<and>
    (\<forall>u v a. dynamic (al_users demo_lib al') u = Some a \<longrightarrow> dynamic (al_users demo_lib al') v = Some a \<longrightarrow> u = v)"
  using runs_keep_pool_and_leases_consistent [OF demo_lib_ok demo_engine_inv demo_al_created demo_dyn_fits demo_run_ok]
  by blast

text \<open>C9: while the policy stays the same, gives its users distinct addresses and none inside the pool, no
  two users ever hold the same address, fixed or dynamic.\<close>

theorem no_two_users_hold_one_address:
  assumes "strongswan_ok L" and "pe_inv L pe"
    and "ip_allocator_create L ok1 ok2 (Some pe) name timeout = Inr (Some al)"
    and "\<And>d. al_dyn al = Some d \<Longrightarrow> dp_fits d"
    and "list_all (call_ok L) cs" and "list_all (call_under L (policy_address L pe)) cs"
    and "inj_on (policy_address L pe) (dom (policy_address L pe))"
    and "\<And>u h d. policy_address L pe u = Some h \<Longrightarrow> al_dyn al = Some d \<Longrightarrow> h_family h = AF_INET \<Longrightarrow>
      host_to_u32 h \<notin> dp_universe d"
  shows "\<exists>al'. foldR (do_call L) cs al = Inr al' \<and>
    (\<forall>u v h. held L al' u = Some h \<longrightarrow> held L al' v = Some h \<longrightarrow> u = v)"
proof -
  have inv: "al_inv L al" and users: "al_users L al = Map.empty" using create_inv [OF assms(1-4)] by auto
  obtain al' where al': "foldR (do_call L) cs al = Inr al'" "al_inv L al'" "al_frame al al'"
      "follows (policy_address L pe) (al_users L al')"
    using al.steady.run_law [of L al "policy_address L pe" cs] inv assms(5,6)
    by (auto simp: users follows_def list_all_iff)
  have "host_to_u32 h \<notin> dp_universe d"
    if "policy_address L pe u = Some h" "al_dyn al' = Some d" "h_family h = AF_INET" for u h d
    using assms(8) [OF that(1) _ that(3)] al'(3) that(2) by (cases "al_dyn al") (auto simp: al_frame_def)
  then show ?thesis using held_distinct [OF al'(2,4) assms(7)] al'(1) by blast
qed

theorem no_two_users_hold_one_address_witness:
  "\<exists>al'. foldR (do_call demo_lib) demo_run demo_al = Inr al' \<and>
    (\<forall>u v h. held demo_lib al' u = Some h \<longrightarrow> held demo_lib al' v = Some h \<longrightarrow> u = v)"
proof -
  have P: "policy_address demo_lib demo_engine u =
      (if u = ''vip'' then Some \<lparr>h_family = AF_INET, h_address = [97, 98, 99, 100]\<rparr> else None)" for u
    by (simp add: policy_address_def demo_engine_fixed is_anon_def)
  show ?thesis
  proof (rule no_two_users_hold_one_address [OF demo_lib_ok demo_engine_inv demo_al_created demo_dyn_fits demo_run_ok])
    show "list_all (call_under demo_lib (policy_address demo_lib demo_engine)) demo_run"
      by (simp add: demo_run_def call_under_def)
    show "inj_on (policy_address demo_lib demo_engine) (dom (policy_address demo_lib demo_engine))"
      by (auto simp: inj_on_def dom_def P split: if_splits)
    show "host_to_u32 h \<notin> dp_universe d"
      if "policy_address demo_lib demo_engine u = Some h" "al_dyn demo_al = Some d" for u h d
      using that by (auto simp: P demo_al_def demo_dyn_def dp_universe_def host_to_u32_def load_be32_def split: if_splits)
  qed
qed

section \<open>What a connection gets\<close>

text \<open>A connection the allocator serves under the name \<open>u\<close>.\<close>

definition serves :: "memory \<Rightarrow> ('u, 's) ip_allocator \<Rightarrow> string option list option \<Rightarrow> ike_sa \<Rightarrow> string \<Rightarrow> bool" where
  "serves m al pools s u \<longleftrightarrow> pools_include al pools \<and> acquire_username m s = Some u"

lemma acquire_served:
  assumes "serves m al pools s u"
    and "acquire_locked L m now pe al u (sa_unique_id s) = Inr (r, False, al')"
  shows "acquire_address L m now pe al pools (Some s) requested = Inr (r, al')"
  using assms by (simp add: serves_def acquire_address_def)

lemma serves_frame: "al_frame al al' \<Longrightarrow> serves m al' pools s u \<longleftrightarrow> serves m al pools s u"
  by (cases pools) (simp_all add: serves_def al_frame_def pools_include_def)

lemma acquire_nothing:
  assumes "al_inv L al" and "serves m al pools s u" and "al_users L al u = None"
    and "choose_ip L m pe al u = Inr (None, fixed, al1)" and "chosen_ok al None fixed al1"
  shows "acquire_address L m now pe al pools (Some s) requested = Inr (None, al)"
proof (rule acquire_served [OF assms(2)])
  have "lookup_by_user L (al_sessions al) (Some u) = None"
    using sm.find_law [OF al_sm [OF assms(1)], of u] assms(3) by (simp add: sm_abs_def)
  then show "acquire_locked L m now pe al u (sa_unique_id s) = Inr (None, False, al)"
    using assms(4) chosen_none [OF assms(5)] by (simp add: acquire_locked_def)
qed

lemma demo_serves: "name \<noteq> '''' \<Longrightarrow> serves demo_memory demo_al demo_pools (demo_sa name uid) (cstr name)"
  by (simp add: serves_def demo_username demo_pools_include)

text \<open>The lease a new connection gets.\<close>

definition new_lease :: "string \<Rightarrow> u32 \<Rightarrow> host \<Rightarrow> bool \<Rightarrow> int \<Rightarrow> lease" where
  "new_lease u w h fixed now =
     \<lparr>le_username = Some u, le_unique_id = w, le_ip = Some h, le_fixed = fixed, le_acquired = now\<rparr>"

lemma spec_bind_users:
  assumes "sm_abs L (al_sessions al') = snd (spec_bind u w (Some h) fixed now (sm_abs L (al_sessions al)))"
    and "al_users L al u = None"
  shows "al_users L al' = (al_users L al)(u \<mapsto> new_lease u w h fixed now)"
    and "al_uids L al' = (al_uids L al)(w \<mapsto> u)"
  using assms by (simp_all add: sm_abs_def spec_bind_def Let_def new_lease_def unindex_def)

lemma fixed_law:
  assumes "al_inv L al" and "pe_inv L pe" and "serves m al pools s u" and "al_users L al u = None"
    and "policy_address L pe u = Some h" and "lease_memory_ok m" and "ok_fixed_clone m" and "ok_result_clone m"
  shows "\<exists>al'. acquire_address L m now pe al pools (Some s) requested = Inr (Some h, al') \<and> al_inv L al' \<and>
    al_dyn al' = al_dyn al \<and>
    al_users L al' = (al_users L al)(u \<mapsto> new_lease u (sa_unique_id s) h True now) \<and>
    al_uids L al' = (al_uids L al)(sa_unique_id s \<mapsto> u)"
proof -
  have c: "choose_ip L m pe al u = Inr (Some h, True, al)"
    using choose_effect(1) [OF assms(1,2,7,5)] .
  obtain al2 where al2: "acquire_locked L m now pe al u (sa_unique_id s) = Inr (Some h, False, al2)" "al_inv L al2"
      "al_dyn al2 = al_dyn al"
      "sm_abs L (al_sessions al2) = snd (spec_bind u (sa_unique_id s) (Some h) True now (sm_abs L (al_sessions al)))"
    using acquire_fresh [OF assms(1,4,6) c, of now "sa_unique_id s"] assms(8) by auto
  then show ?thesis using acquire_served [OF assms(3) al2(1)] spec_bind_users [OF al2(4) assms(4)] by blast
qed

text \<open>C14: a user without a lease to whom the policy gives a fixed address gets exactly that address, from
  no pool: the pool does not change, and the lease is found under the user and under the id.\<close>

theorem fixed_user_gets_policy_address:
  assumes "al_inv L al" and "pe_inv L pe" and "serves m al pools s u" and "al_users L al u = None"
    and "policy_address L pe u = Some h" and "lease_memory_ok m" and "ok_fixed_clone m" and "ok_result_clone m"
  shows "\<exists>al'. acquire_address L m now pe al pools (Some s) requested = Inr (Some h, al') \<and> al_inv L al' \<and>
    al_dyn al' = al_dyn al \<and>
    al_users L al' = (al_users L al)(u \<mapsto> new_lease u (sa_unique_id s) h True now) \<and>
    al_uids L al' = (al_uids L al)(sa_unique_id s \<mapsto> u)"
  using assms by (rule fixed_law)

theorem fixed_user_gets_policy_address_witness:
  "\<exists>al'. acquire_address demo_lib demo_memory 100 demo_engine demo_al demo_pools (Some (demo_sa ''vip'' 1)) None =
    Inr (Some \<lparr>h_family = AF_INET, h_address = [97, 98, 99, 100]\<rparr>, al')"
  using fixed_user_gets_policy_address [OF demo_al_inv demo_engine_inv demo_serves [of "''vip''" 1], of
      "\<lparr>h_family = AF_INET, h_address = [97, 98, 99, 100]\<rparr>"]
  by (auto simp: cstr_def demo_al_users policy_address_def demo_engine_fixed is_anon_def)

lemma dynamic_law:
  assumes "al_inv L al" and "pe_inv L pe" and "serves m al pools s u" and "al_users L al u = None"
    and "policy_address L pe u = None" and "lease_memory_ok m" and "ok_result_clone m"
  shows "case al_dyn al of
      None \<Rightarrow> acquire_address L m now pe al pools (Some s) requested = Inr (None, al)
    | Some d \<Rightarrow>
        if dp_allocated d = dp_universe d
        then acquire_address L m now pe al pools (Some s) requested = Inr (None, al)
        else \<exists>h al' d'. acquire_address L m now pe al pools (Some s) requested = Inr (Some h, al') \<and> al_inv L al' \<and>
          h_family h = AF_INET \<and> {host_to_u32 h} = least_free d \<and>
          al_dyn al' = Some d' \<and> dp_allocated d' = dp_allocated d \<union> least_free d \<and>
          al_users L al' = (al_users L al)(u \<mapsto> new_lease u (sa_unique_id s) h False now) \<and>
          al_uids L al' = (al_uids L al)(sa_unique_id s \<mapsto> u)"
proof -
  obtain ip al1 where c: "choose_ip L m pe al u = Inr (ip, False, al1)" "chosen_ok al ip False al1"
    using choose_effect(2) [OF assms(1,2), of m u] assms(5) by blast
  show ?thesis
  proof (cases "al_dyn al")
    case None
    then have "ip = None" using c(2) by (simp add: chosen_ok_def)
    with c have "choose_ip L m pe al u = Inr (None, False, al1)" "chosen_ok al None False al1" by simp_all
    from acquire_nothing [OF assms(1,3,4) this] show ?thesis by (simp add: None)
  next
    case (Some d)
    obtain d' where d': "al1 = al\<lparr>al_dyn := Some d'\<rparr>" "ip_addrs ip = least_free d"
        "ip = None \<longleftrightarrow> dp_allocated d = dp_universe d" "\<forall>h. ip = Some h \<longrightarrow> h_family h = AF_INET"
        "dp_allocated d' = dp_allocated d \<union> least_free d"
      using c(2) unfolding chosen_ok_def Some option.case by blast
    show ?thesis
    proof (cases ip)
      case None
      with c have "choose_ip L m pe al u = Inr (None, False, al1)" "chosen_ok al None False al1" by simp_all
      from acquire_nothing [OF assms(1,3,4) this] show ?thesis using d'(3) Some None by simp
    next
      case (Some h)
      obtain al2 where al2: "acquire_locked L m now pe al u (sa_unique_id s) = Inr (Some h, False, al2)" "al_inv L al2"
          "al_dyn al2 = al_dyn al1"
          "sm_abs L (al_sessions al2) = snd (spec_bind u (sa_unique_id s) (Some h) False now (sm_abs L (al_sessions al)))"
        using acquire_fresh [OF assms(1,4,6), of pe h False al1 now "sa_unique_id s"] c Some assms(7) by auto
      have "h_family h = AF_INET" "{host_to_u32 h} = least_free d" using d'(2,4) Some by auto
      then show ?thesis
        using acquire_served [OF assms(3) al2(1)] spec_bind_users [OF al2(4) assms(4)] al2(2,3) d'(1,3,5) Some
          \<open>al_dyn al = Some d\<close> by auto
    qed
  qed
qed

lemma demo_free_acquire:
  assumes "serves demo_memory demo_al demo_pools s u" and "policy_address demo_lib demo_engine u = None"
  shows "\<exists>h al'. acquire_address demo_lib demo_memory 100 demo_engine demo_al demo_pools (Some s) None = Inr (Some h, al') \<and>
    h_family h = AF_INET \<and> {host_to_u32 h} = least_free demo_dyn"
proof -
  have "1684366951 \<in> dp_universe demo_dyn" by (simp add: dp_universe_def demo_dyn_def)
  then have free: "dp_allocated demo_dyn \<noteq> dp_universe demo_dyn" by (auto simp: demo_dyn_empty)
  have "al_users demo_lib demo_al u = None" "al_dyn demo_al = Some demo_dyn"
    by (simp_all add: demo_al_users) (simp add: demo_al_def)
  with dynamic_law [OF demo_al_inv demo_engine_inv assms(1) _ assms(2), of 100 None] free
  show ?thesis by auto
qed

text \<open>C13: a user without a lease and without a fixed address gets the lowest free address of the pool,
  marked in the pool and in no other lease; when every address is taken, or there is no pool, the
  connection gets none and nothing changes.\<close>

theorem dynamic_user_gets_lowest_free:
  assumes "al_inv L al" and "pe_inv L pe" and "serves m al pools s u" and "al_users L al u = None"
    and "policy_address L pe u = None" and "lease_memory_ok m" and "ok_result_clone m"
  shows "case al_dyn al of
      None \<Rightarrow> acquire_address L m now pe al pools (Some s) requested = Inr (None, al)
    | Some d \<Rightarrow>
        if dp_allocated d = dp_universe d
        then acquire_address L m now pe al pools (Some s) requested = Inr (None, al)
        else \<exists>h al' d'. acquire_address L m now pe al pools (Some s) requested = Inr (Some h, al') \<and> al_inv L al' \<and>
          h_family h = AF_INET \<and> {host_to_u32 h} = least_free d \<and>
          al_dyn al' = Some d' \<and> dp_allocated d' = dp_allocated d \<union> least_free d \<and>
          al_users L al' = (al_users L al)(u \<mapsto> new_lease u (sa_unique_id s) h False now) \<and>
          al_uids L al' = (al_uids L al)(sa_unique_id s \<mapsto> u)"
  using assms by (rule dynamic_law)

theorem dynamic_user_gets_lowest_free_witness:
  "\<exists>h al'. acquire_address demo_lib demo_memory 100 demo_engine demo_al demo_pools (Some (demo_sa ''ops'' 1)) None =
    Inr (Some h, al') \<and> {host_to_u32 h} = least_free demo_dyn"
proof -
  have "1684366951 \<in> dp_universe demo_dyn" by (simp add: dp_universe_def demo_dyn_def)
  then have free: "dp_allocated demo_dyn \<noteq> dp_universe demo_dyn" by (auto simp: demo_dyn_empty)
  have serves: "serves demo_memory demo_al demo_pools (demo_sa ''ops'' 1) ''ops''"
    using demo_serves [of "''ops''" 1] by (simp add: cstr_def)
  have policy: "policy_address demo_lib demo_engine ''ops'' = None"
    by (simp add: policy_address_def demo_engine_fixed is_anon_def)
  have "al_users demo_lib demo_al ''ops'' = None" "al_dyn demo_al = Some demo_dyn"
    by (simp_all add: demo_al_users) (simp add: demo_al_def)
  with dynamic_user_gets_lowest_free [OF demo_al_inv demo_engine_inv serves _ policy, of 100 None] free
  show ?thesis by auto
qed

section \<open>Reconnecting, releasing\<close>

lemma reconnect_law:
  assumes "al_inv L al" and "serves m al pools s u" and "al_users L al u = Some l" and "ok_result_clone m"
  shows "\<exists>h al'. le_ip l = Some h \<and> acquire_address L m now pe al pools (Some s) requested = Inr (Some h, al') \<and>
    al_inv L al' \<and> al_dyn al' = al_dyn al \<and>
    al_users L al' = (al_users L al)(u \<mapsto> l\<lparr>le_unique_id := sa_unique_id s, le_acquired := now\<rparr>) \<and>
    al_uids L al' = (al_uids L al)(le_unique_id l := None, sa_unique_id s \<mapsto> u)"
proof -
  obtain h where h: "le_ip l = Some h" using al_lease [OF assms(1,3)] by (auto simp: lease_ok_def)
  obtain al' where al': "acquire_locked L m now pe al u (sa_unique_id s) = Inr (Some h, False, al')" "al_inv L al'"
      "al_dyn al' = al_dyn al"
      "sm_abs L (al_sessions al') = snd (spec_migrate u (sa_unique_id s) now (sm_abs L (al_sessions al)))"
    using acquire_reuse [OF assms(1,3), of m now pe "sa_unique_id s"] assms(4) h by auto
  then show ?thesis
    using h acquire_served [OF assms(2) al'(1)] assms(3)
    by (simp add: sm_abs_def spec_migrate_def unindex_def Let_def)
qed

text \<open>C12: a user who holds a lease keeps its address on every further connection, whatever the policy says
  now and however full the pool is: the lease moves to the new id, the old id is forgotten, and the
  pool does not change.\<close>

theorem reconnect_keeps_address:
  assumes "al_inv L al" and "serves m al pools s u" and "al_users L al u = Some l" and "ok_result_clone m"
  shows "\<exists>h al'. le_ip l = Some h \<and> acquire_address L m now pe al pools (Some s) requested = Inr (Some h, al') \<and>
    al_inv L al' \<and> al_dyn al' = al_dyn al \<and>
    al_users L al' = (al_users L al)(u \<mapsto> l\<lparr>le_unique_id := sa_unique_id s, le_acquired := now\<rparr>) \<and>
    al_uids L al' = (al_uids L al)(le_unique_id l := None, sa_unique_id s \<mapsto> u)"
  using assms by (rule reconnect_law)

text \<open>The allocator after the first connection of ''vip''.\<close>

lemma demo_vip_connected:
  obtains al' where
    "acquire_address demo_lib demo_memory 100 demo_engine demo_al demo_pools (Some (demo_sa ''vip'' 1)) None =
      Inr (Some \<lparr>h_family = AF_INET, h_address = [97, 98, 99, 100]\<rparr>, al')"
    "al_inv demo_lib al'" "serves demo_memory al' demo_pools (demo_sa ''vip'' 2) ''vip''"
    "al_users demo_lib al' ''vip'' = Some (new_lease ''vip'' 1 \<lparr>h_family = AF_INET, h_address = [97, 98, 99, 100]\<rparr> True 100)"
    "al_uids demo_lib al' 1 = Some ''vip''" "al_lease_timeout al' = 3600"
proof -
  let ?h = "\<lparr>h_family = AF_INET, h_address = [97, 98, 99, 100]\<rparr>"
  have none: "al_users demo_lib demo_al ''vip'' = None" by (simp add: demo_al_users)
  have policy: "policy_address demo_lib demo_engine ''vip'' = Some ?h"
    by (simp add: policy_address_def demo_engine_fixed is_anon_def)
  note c = choose_effect(1) [OF demo_al_inv demo_engine_inv demo_memory_simps(3) policy]
  obtain al2 where al2: "acquire_locked demo_lib demo_memory 100 demo_engine demo_al ''vip'' 1 = Inr (Some ?h, False, al2)"
      "al_inv demo_lib al2" "al_frame demo_al al2"
      "sm_abs demo_lib (al_sessions al2) = snd (spec_bind ''vip'' 1 (Some ?h) True 100 (sm_abs demo_lib (al_sessions demo_al)))"
    using acquire_fresh [OF demo_al_inv none demo_memory_simps(7) c, of 100 1] by auto
  have serves: "serves demo_memory demo_al demo_pools (demo_sa ''vip'' n) ''vip''" for n
    using demo_serves [of "''vip''" n] by (simp add: cstr_def)
  have "serves demo_memory al2 demo_pools (demo_sa ''vip'' 2) ''vip''"
    using serves by (simp add: serves_frame [OF al2(3)])
  moreover have "acquire_address demo_lib demo_memory 100 demo_engine demo_al demo_pools (Some (demo_sa ''vip'' 1)) None =
      Inr (Some ?h, al2)"
    using acquire_served [OF serves [of 1]] al2(1) by simp
  ultimately show thesis
    using that [of al2] al2(2,3) spec_bind_users [OF al2(4) none] by (simp add: al_frame_def demo_al_def)
qed

theorem reconnect_keeps_address_witness:
  "\<exists>al1 al2. acquire_address demo_lib demo_memory 100 demo_engine demo_al demo_pools (Some (demo_sa ''vip'' 1)) None =
      Inr (Some \<lparr>h_family = AF_INET, h_address = [97, 98, 99, 100]\<rparr>, al1) \<and>
    acquire_address demo_lib demo_memory 200 demo_engine al1 demo_pools (Some (demo_sa ''vip'' 2)) None =
      Inr (Some \<lparr>h_family = AF_INET, h_address = [97, 98, 99, 100]\<rparr>, al2)"
proof -
  obtain al1 where al1: "acquire_address demo_lib demo_memory 100 demo_engine demo_al demo_pools (Some (demo_sa ''vip'' 1)) None =
      Inr (Some \<lparr>h_family = AF_INET, h_address = [97, 98, 99, 100]\<rparr>, al1)"
    "al_inv demo_lib al1" "serves demo_memory al1 demo_pools (demo_sa ''vip'' 2) ''vip''"
    "al_users demo_lib al1 ''vip'' = Some (new_lease ''vip'' 1 \<lparr>h_family = AF_INET, h_address = [97, 98, 99, 100]\<rparr> True 100)"
    by (rule demo_vip_connected)
  from reconnect_keeps_address [OF al1(2,3,4) demo_memory_simps(6), of 200 demo_engine None] al1(1)
  show ?thesis by (auto simp: new_lease_def)
qed

text \<open>What a lease set and the pool have in common decides the pool: equal users, equal marks.\<close>

lemma same_users_same_pool:
  assumes "al_inv L al" and "al_inv L al'" and "al_users L al' = al_users L al" and "al_frame al al'"
  shows "map_option dp_allocated (al_dyn al') = map_option dp_allocated (al_dyn al)"
  using al_pool [OF assms(1)] al_pool [OF assms(2)] assms(3,4)
  by (cases "al_dyn al"; cases "al_dyn al'") (auto simp: pool_ok_def al_frame_def)

lemma bind_then_unbind:
  assumes "al_users L al u = None" and "al_uids L al w = None"
    and "sm_abs L (al_sessions al1) = snd (spec_bind u w ip fixed now (sm_abs L (al_sessions al)))"
    and "sm_abs L (al_sessions al2) = snd (spec_unbind w (sm_abs L (al_sessions al1)))"
  shows "al_users L al2 = al_users L al" and "al_uids L al2 = al_uids L al" and "al_uids L al1 w = Some u"
  using assms by (simp_all add: sm_abs_def spec_bind_def spec_unbind_def unindex_def Let_def fun_upd_idem)

text \<open>C10: acquiring for a user without a lease and releasing under the same id restores the allocator: the
  same leases, the same ids, the same addresses marked in the pool; a further release finds nothing,
  answers FALSE and changes nothing.\<close>

theorem acquire_release_roundtrip:
  assumes "al_inv L al" and "pe_inv L pe" and "serves m al pools s u" and "al_users L al u = None"
    and "al_uids L al (sa_unique_id s) = None" and "lease_memory_ok m"
    and "acquire_address L m now pe al pools (Some s) requested = Inr (Some h, al1)"
  shows "\<exists>al2 al3. release_address L al1 pools' address (Some s) = Inr (True, al2) \<and> al_inv L al2 \<and>
    al_users L al2 = al_users L al \<and> al_uids L al2 = al_uids L al \<and>
    map_option dp_allocated (al_dyn al2) = map_option dp_allocated (al_dyn al) \<and>
    release_address L al2 pools' address (Some s) = Inr (False, al3) \<and>
    sm_abs L (al_sessions al3) = sm_abs L (al_sessions al2)"
proof -
  let ?w = "sa_unique_id s"
  have got: "\<exists>b r al'. acquire_locked L m now pe al u ?w = Inr (r, b, al') \<and>
      (b = False \<longrightarrow> r = Some h \<and> al' = al1) \<and> \<not> b"
    using assms(3,7) by (auto simp: serves_def acquire_address_def res_iff split: if_splits)
  obtain fixed where b: "al_inv L al1" "al_frame al al1"
      "sm_abs L (al_sessions al1) = snd (spec_bind u ?w (Some h) fixed now (sm_abs L (al_sessions al)))"
    by (rule acquire_new_cases [OF assms(1,2,6,4), of now ?w]) (use got in \<open>auto split: if_splits\<close>)
  obtain al2 where r: "release_by_uid_impl L al1 ?w = Inr (al_uids L al1 ?w \<noteq> None, al2)" "al_inv L al2" "al_frame al1 al2"
      "sm_abs L (al_sessions al2) = snd (spec_unbind ?w (sm_abs L (al_sessions al1)))"
    using release_effect [OF b(1)] by blast
  note same = bind_then_unbind [OF assms(4,5) b(3) r(4)]
  obtain al3 where "release_by_uid_impl L al2 ?w = Inr (al_uids L al2 ?w \<noteq> None, al3)"
      "sm_abs L (al_sessions al3) = snd (spec_unbind ?w (sm_abs L (al_sessions al2)))"
    using release_effect [OF r(2)] by blast
  moreover have "al_uids L al2 ?w = None" using same(2) assms(5) by simp
  moreover from this have "snd (spec_unbind ?w (sm_abs L (al_sessions al2))) = sm_abs L (al_sessions al2)"
    by (simp add: spec_unbind_def sm_abs_def)
  ultimately show ?thesis
    using r same same_users_same_pool [OF assms(1) r(2) same(1) al_frame_trans [OF b(2) r(3)]]
    by (auto simp: release_address_def)
qed

theorem acquire_release_roundtrip_witness:
  "\<exists>h al1 al2. acquire_address demo_lib demo_memory 100 demo_engine demo_al demo_pools (Some (demo_sa ''vip'' 1)) None = Inr (h, al1) \<and>
    release_address demo_lib al1 demo_pools h (Some (demo_sa ''vip'' 1)) = Inr (True, al2) \<and>
    al_users demo_lib al2 = Map.empty"
proof -
  obtain al1 where al1: "acquire_address demo_lib demo_memory 100 demo_engine demo_al demo_pools (Some (demo_sa ''vip'' 1)) None =
      Inr (Some \<lparr>h_family = AF_INET, h_address = [97, 98, 99, 100]\<rparr>, al1)"
    by (rule demo_vip_connected)
  have "serves demo_memory demo_al demo_pools (demo_sa ''vip'' 1) ''vip''"
    using demo_serves [of "''vip''" 1] by (simp add: cstr_def)
  moreover have "al_users demo_lib demo_al ''vip'' = None" by (simp add: demo_al_users)
  moreover have "al_uids demo_lib demo_al (sa_unique_id (demo_sa ''vip'' 1)) = None"
    using create_effect(2) [OF demo_lib_ok] by (simp add: demo_al_def sm_abs_def)
  ultimately show ?thesis
    using acquire_release_roundtrip [OF demo_al_inv demo_engine_inv _ _ _ demo_memory_simps(7) al1, of "''vip''" demo_pools] al1
    by (fastforce simp: demo_al_users)
qed

text \<open>C28: when only the copy for charon cannot be allocated, the connection of a new user fails without a
  trace: the lease is rolled back and the address goes back to the pool.\<close>

theorem failed_copy_rolls_back:
  assumes "al_inv L al" and "pe_inv L pe" and "serves m al pools s u" and "al_users L al u = None"
    and "al_uids L al (sa_unique_id s) = None" and "lease_memory_ok m" and "\<not> ok_result_clone m"
  shows "\<exists>al'. acquire_address L m now pe al pools (Some s) requested = Inr (None, al') \<and> al_inv L al' \<and>
    al_users L al' = al_users L al \<and> al_uids L al' = al_uids L al \<and>
    map_option dp_allocated (al_dyn al') = map_option dp_allocated (al_dyn al)"
proof (rule acquire_new_cases [OF assms(1,2,6,4), of now "sa_unique_id s"])
  assume "acquire_locked L m now pe al u (sa_unique_id s) = Inr (None, False, al)"
  then show ?thesis using acquire_served [OF assms(3)] assms(1) by blast
next
  fix h fixed al1
  assume b: "acquire_locked L m now pe al u (sa_unique_id s) = Inr (if ok_result_clone m then (Some h, False, al1) else (None, True, al1))"
      "al_inv L al1" "al_frame al al1"
      "sm_abs L (al_sessions al1) = snd (spec_bind u (sa_unique_id s) (Some h) fixed now (sm_abs L (al_sessions al)))"
  obtain b' al2 where r: "release_by_uid_impl L al1 (sa_unique_id s) = Inr (b', al2)" "al_inv L al2" "al_frame al1 al2"
      "sm_abs L (al_sessions al2) = snd (spec_unbind (sa_unique_id s) (sm_abs L (al_sessions al1)))"
    using release_effect [OF b(2)] by blast
  note same = bind_then_unbind [OF assms(4,5) b(4) r(4)]
  have "acquire_address L m now pe al pools (Some s) requested = Inr (None, al2)"
    using assms(3,7) b(1) r(1) by (simp add: serves_def acquire_address_def)
  then show ?thesis
    using r same same_users_same_pool [OF assms(1) r(2) same(1) al_frame_trans [OF b(3) r(3)]] by blast
qed

theorem failed_copy_rolls_back_witness:
  "\<exists>al'. acquire_address demo_lib (demo_memory\<lparr>ok_result_clone := False\<rparr>) 100 demo_engine demo_al demo_pools
      (Some (demo_sa ''ops'' 1)) None = Inr (None, al') \<and>
    map_option dp_allocated (al_dyn al') = Some {}"
proof -
  let ?m = "demo_memory\<lparr>ok_result_clone := False\<rparr>"
  have "serves ?m demo_al demo_pools (demo_sa ''ops'' 1) ''ops''"
    using demo_serves [of "''ops''" 1] by (simp add: cstr_def serves_def acquire_username_def split: option.splits)
  moreover have "al_users demo_lib demo_al ''ops'' = None" by (simp add: demo_al_users)
  moreover have "al_uids demo_lib demo_al (sa_unique_id (demo_sa ''ops'' 1)) = None"
    using create_effect(2) [OF demo_lib_ok] by (simp add: demo_al_def sm_abs_def)
  moreover have "lease_memory_ok ?m" by (simp add: lease_memory_ok_def)
  moreover have "map_option dp_allocated (al_dyn demo_al) = Some {}" by (simp add: demo_al_def demo_dyn_empty)
  ultimately show ?thesis
    using failed_copy_rolls_back [OF demo_al_inv demo_engine_inv, of ?m demo_pools "demo_sa ''ops'' 1" "''ops''" 100 None]
    by auto
qed

text \<open>C15: a sweep removes exactly the leases that are older than the timeout, can be found by their id and
  whose IKE_SA is gone, and gives exactly their dynamic addresses back to the pool; every other lease
  stays as it is.\<close>

theorem sweep_reclaims_orphans:
  assumes "al_inv L al"
  shows "\<exists>al'. sweep L alive now al = Inr al' \<and> al_inv L al' \<and>
    (\<forall>u. al_users L al' u =
       (case al_users L al u of
          None \<Rightarrow> None
        | Some l \<Rightarrow>
            if al_uids L al (le_unique_id l) = Some u \<and> now - le_acquired l > uint (al_lease_timeout al) \<and>
               \<not> alive (le_unique_id l)
            then None else Some l)) \<and>
    (case (al_dyn al, al_dyn al') of
       (None, None) \<Rightarrow> True
     | (Some d, Some d') \<Rightarrow> dp_universe d' = dp_universe d \<and>
         dp_allocated d' = {a. \<exists>u l. al_users L al' u = Some l \<and> dyn_addr l = Some a}
     | _ \<Rightarrow> False)"
proof -
  obtain al' where al': "sweep L alive now al = Inr al'" "al_inv L al'" "al_frame al al'"
      "\<forall>u. al_users L al' u =
         (case al_users L al u of None \<Rightarrow> None | Some l \<Rightarrow> if orphaned L alive now al u l then None else Some l)"
    using sweep_effect [OF assms] by blast
  have "ran (dynamic (al_users L al')) = {a. \<exists>u l. al_users L al' u = Some l \<and> dyn_addr l = Some a}"
    by (auto simp: ran_def dynamic_def bind_eq_Some_conv)
  then have "case (al_dyn al, al_dyn al') of
       (None, None) \<Rightarrow> True
     | (Some d, Some d') \<Rightarrow> dp_universe d' = dp_universe d \<and>
         dp_allocated d' = {a. \<exists>u l. al_users L al' u = Some l \<and> dyn_addr l = Some a}
     | _ \<Rightarrow> False"
    using al_pool [OF al'(2)] al'(3)
    by (cases "al_dyn al"; cases "al_dyn al'") (auto simp: al_frame_def pool_ok_def)
  then show ?thesis using al'(1,2,4) unfolding orphaned_def by blast
qed

theorem sweep_reclaims_orphans_witness:
  "\<exists>al1 al'. sweep demo_lib (\<lambda>_. False) 3701 al1 = Inr al' \<and> al_users demo_lib al1 ''vip'' \<noteq> None \<and>
    al_users demo_lib al' ''vip'' = None"
proof -
  obtain al1 where al1: "al_inv demo_lib al1"
      "al_users demo_lib al1 ''vip'' = Some (new_lease ''vip'' 1 \<lparr>h_family = AF_INET, h_address = [97, 98, 99, 100]\<rparr> True 100)"
      "al_uids demo_lib al1 1 = Some ''vip''" "al_lease_timeout al1 = 3600"
    by (rule demo_vip_connected)
  obtain al' where al': "sweep demo_lib (\<lambda>_. False) 3701 al1 = Inr al'"
      "\<forall>u. al_users demo_lib al' u = (case al_users demo_lib al1 u of None \<Rightarrow> None
        | Some l \<Rightarrow> if al_uids demo_lib al1 (le_unique_id l) = Some u \<and>
            3701 - le_acquired l > uint (al_lease_timeout al1) \<and> \<not> False then None else Some l)"
    using sweep_reclaims_orphans [OF al1(1), of "\<lambda>_. False" 3701] by blast
  have "al_users demo_lib al' ''vip'' = None"
    using al'(2) [rule_format, of "''vip''"] al1(2-4) by (simp add: new_lease_def)
  with al'(1) al1(2) show ?thesis by blast
qed

section \<open>Placeholder names\<close>

lemma length_decimal: "n < 10 ^ k \<Longrightarrow> 0 < k \<Longrightarrow> length (decimal n) \<le> k"
proof (induction k arbitrary: n)
  case (Suc k)
  show ?case
  proof (cases "n < 10")
    case True
    then show ?thesis by (simp add: decimal_small)
  next
    case False
    then have "0 < k" using Suc.prems(1) by (cases k) auto
    moreover have "n div 10 < 10 ^ k" using Suc.prems(1) by (simp add: div_less_iff_less_mult mult.commute)
    ultimately have "length (decimal (n div 10)) \<le> k" by (intro Suc.IH)
    then show ?thesis by (simp add: decimal_large [OF False])
  qed
qed simp

text \<open>Ten digits are enough for an id, so the buffer of 32 bytes never cuts a placeholder.\<close>

lemma anon_name_eq: "anon_name w = ''anon-'' @ decimal (unat w)"
proof -
  have "length (decimal (unat w)) \<le> 10"
    using unat_u32_bound [of w] by (intro length_decimal) simp_all
  then show ?thesis unfolding anon_name_def by (intro snprintf_s_short) simp
qed

lemma is_anon_name: "is_anon (anon_name w)"
  by (simp add: is_anon_def anon_name_eq)

text \<open>Connections without a user name never share a lease with each other: the placeholder names of
  different ids differ, are complete, and have no fixed address under any policy.\<close>

theorem placeholder_names_are_distinct:
  "(anon_name v = anon_name w \<longleftrightarrow> v = w) \<and> anon_name w = ''anon-'' @ decimal (unat w) \<and>
   policy_address L pe (anon_name w) = None"
  by (auto simp: anon_name_eq policy_address_def is_anon_def word_unat_eq_iff dest: decimal_inj)

text \<open>But they share with named users: when a user whose name is the placeholder of an id is
  connected, a connection without a name and with that id is given that user's address and takes the
  lease over, so that the end of the user's own connection no longer releases it.\<close>

theorem placeholder_takes_over_named_lease:
  assumes "al_inv L al" and "pe_inv L pe" and "pools_include al pools" and "lease_memory_ok m"
    and "identity_get_username (ok_strndup m) (Some s) = Some (anon_name (sa_unique_id t))"
    and "identity_get_username (ok_strndup m) (Some t) = None" and "ok_anon_strdup m" and "ok_result_clone m"
    and "sa_unique_id s \<noteq> sa_unique_id t" and "al_users L al (anon_name (sa_unique_id t)) = None"
    and "acquire_address L m now pe al pools (Some s) requested = Inr (Some h, al1)"
  shows "\<exists>al2 al3. acquire_address L m now' pe al1 pools (Some t) requested' = Inr (Some h, al2) \<and>
    release_address L al2 pools address (Some s) = Inr (False, al3)"
proof -
  let ?u = "anon_name (sa_unique_id t)"
  have s: "serves m al pools s ?u" and t: "serves m al pools t ?u"
    using assms(3,5-7) by (simp_all add: serves_def acquire_username_def)
  have got: "acquire_locked L m now pe al ?u (sa_unique_id s) = Inr (Some h, False, al1)"
    using s assms(11) by (auto simp: serves_def acquire_address_def res_iff split: if_splits)
  obtain fixed where b: "al_inv L al1" "al_frame al al1"
      "sm_abs L (al_sessions al1) = snd (spec_bind ?u (sa_unique_id s) (Some h) fixed now (sm_abs L (al_sessions al)))"
    by (rule acquire_new_cases [OF assms(1,2,4,10), of now "sa_unique_id s"])
      (use got assms(8) in auto)
  note users = spec_bind_users [OF b(3) assms(10)]
  have "serves m al1 pools t ?u" using t by (simp add: serves_frame [OF b(2)])
  moreover have "al_users L al1 ?u = Some (new_lease ?u (sa_unique_id s) h fixed now)" by (simp add: users)
  note reconnect_law [OF b(1) calculation this assms(8), of now' pe requested']
  then obtain al2 where al2: "acquire_address L m now' pe al1 pools (Some t) requested' = Inr (Some h, al2)" "al_inv L al2"
      "al_uids L al2 = (al_uids L al1)(sa_unique_id s := None, sa_unique_id t \<mapsto> ?u)"
    by (auto simp: new_lease_def)
  have "al_uids L al2 (sa_unique_id s) = None" using al2(3) assms(9) by simp
  then show ?thesis
    using al2(1) release_effect [OF al2(2), of "sa_unique_id s"] by (auto simp: release_address_def)
qed

theorem placeholder_takes_over_named_lease_witness:
  "\<exists>h al1 al2. acquire_address demo_lib demo_memory 100 demo_engine demo_al demo_pools (Some (demo_sa ''anon-7'' 1)) None = Inr (Some h, al1) \<and>
    acquire_address demo_lib demo_memory 200 demo_engine al1 demo_pools (Some (demo_sa '''' 7)) None = Inr (Some h, al2)"
proof -
  have "char_of (55 :: nat) = CHR ''7''" by code_simp
  then have name: "anon_name 7 = ''anon-7''" by (simp add: anon_name_eq decimal_small)
  have s: "identity_get_username (ok_strndup demo_memory) (Some (demo_sa ''anon-7'' 1)) = Some (anon_name (sa_unique_id (demo_sa '''' 7)))"
    by (simp add: identity_get_username_def demo_sa_def id_username_def cstr_def name)
  have t: "identity_get_username (ok_strndup demo_memory) (Some (demo_sa '''' 7)) = None"
    by (simp add: identity_get_username_def demo_sa_def)
  have none: "al_users demo_lib demo_al u = None" for u by (simp add: demo_al_users)
  have "policy_address demo_lib demo_engine ''anon-7'' = None" by (simp add: policy_address_def is_anon_def)
  moreover have "serves demo_memory demo_al demo_pools (demo_sa ''anon-7'' 1) ''anon-7''"
    using demo_serves [of "''anon-7''" 1] by (simp add: cstr_def)
  ultimately obtain h al1 where "acquire_address demo_lib demo_memory 100 demo_engine demo_al demo_pools (Some (demo_sa ''anon-7'' 1)) None = Inr (Some h, al1)"
    using demo_free_acquire by blast
  with placeholder_takes_over_named_lease [OF demo_al_inv demo_engine_inv demo_pools_include demo_memory_simps(7) s t _ _ _ none this, of 200 None]
  show ?thesis by fastforce
qed

section \<open>Where the allocator falls short\<close>

text \<open>C36: when the memory for the lease cannot be allocated, the address already taken from the pool is
  not given back: it stays marked although nobody holds it, and no release by any id frees it.\<close>

theorem failed_bind_leaks_address:
  assumes "al_inv L al" and "pe_inv L pe" and "serves m al pools s u" and "al_users L al u = None"
    and "policy_address L pe u = None" and "al_dyn al = Some d" and "dp_allocated d \<noteq> dp_universe d"
    and "\<not> ok_lease_malloc m"
  shows "\<exists>al' d' a. acquire_address L m now pe al pools (Some s) requested = Inr (None, al') \<and>
    al_users L al' = al_users L al \<and> al_uids L al' = al_uids L al \<and> al_dyn al' = Some d' \<and>
    a \<notin> dp_allocated d \<and> dp_allocated d' = insert a (dp_allocated d) \<and>
    (\<forall>w. \<exists>b al'' d''. release_by_uid_impl L al' w = Inr (b, al'') \<and> al_dyn al'' = Some d'' \<and> a \<in> dp_allocated d'')"
proof -
  obtain ip al1 where c: "choose_ip L m pe al u = Inr (ip, False, al1)" "chosen_ok al ip False al1"
    using choose_effect(2) [OF assms(1,2), of m u] assms(5) by blast
  obtain d' where d': "al1 = al\<lparr>al_dyn := Some d'\<rparr>" "ip_addrs ip = least_free d" "ip \<noteq> None" "dp_inv d'"
      "\<forall>h. ip = Some h \<longrightarrow> h_family h = AF_INET" "dp_allocated d' = dp_allocated d \<union> least_free d"
    using c(2) assms(7) unfolding chosen_ok_def assms(6) option.case by blast
  obtain h where h: "ip = Some h" using d'(3) by blast
  have a: "least_free d = {host_to_u32 h}" using d'(2,5) h by simp
  then have fresh: "host_to_u32 h \<notin> dp_allocated d" unfolding least_free_def by blast
  have find: "user_get L (al_sessions al) u = None"
    using sm.find_law [OF al_sm [OF assms(1)], of u] assms(4) by (simp add: sm_abs_def lookup_by_user_def)
  then have "acquire_locked L m now pe al u (sa_unique_id s) = Inr (None, False, al1)"
    using c(1) h d'(1) assms(8)
    by (simp add: acquire_locked_def lookup_by_user_def bind_lease_def evict_def lease_create_def)
  note run = acquire_served [OF assms(3) this]
  have keep: "\<exists>b al'' d''. release_by_uid_impl L al1 w = Inr (b, al'') \<and> al_dyn al'' = Some d'' \<and>
      host_to_u32 h \<in> dp_allocated d''" for w
    by (rule release_keeps_leaked [OF assms(1,6) d'(1,4)]) (use fresh d'(6) a in auto)
  have "al_users L al1 = al_users L al" "al_uids L al1 = al_uids L al" "al_dyn al1 = Some d'"
    "dp_allocated d' = insert (host_to_u32 h) (dp_allocated d)"
    using d'(1,6) a by auto
  with run keep fresh show ?thesis by blast
qed

theorem failed_bind_leaks_address_witness:
  "\<exists>al' d' a. acquire_address demo_lib (demo_memory\<lparr>ok_lease_malloc := False\<rparr>) 100 demo_engine demo_al demo_pools
      (Some (demo_sa ''ops'' 1)) None = Inr (None, al') \<and> al_users demo_lib al' = Map.empty \<and>
    al_dyn al' = Some d' \<and> dp_allocated d' = {a}"
proof -
  let ?m = "demo_memory\<lparr>ok_lease_malloc := False\<rparr>"
  have serves: "serves ?m demo_al demo_pools (demo_sa ''ops'' 1) ''ops''"
    using demo_serves [of "''ops''" 1] by (simp add: cstr_def serves_def acquire_username_def split: option.splits)
  have policy: "policy_address demo_lib demo_engine ''ops'' = None"
    by (simp add: policy_address_def demo_engine_fixed is_anon_def)
  have none: "al_users demo_lib demo_al ''ops'' = None" by (simp add: demo_al_users)
  have dyn: "al_dyn demo_al = Some demo_dyn" by (simp add: demo_al_def)
  have "1684366951 \<in> dp_universe demo_dyn" by (simp add: dp_universe_def demo_dyn_def)
  then have free: "dp_allocated demo_dyn \<noteq> dp_universe demo_dyn" by (auto simp: demo_dyn_empty)
  have fail: "\<not> ok_lease_malloc ?m" by simp
  from failed_bind_leaks_address [OF demo_al_inv demo_engine_inv serves none policy dyn free fail, of 100 None]
  show ?thesis by (auto simp: demo_dyn_empty demo_al_users)
qed

lemma demo_ops_connected:
  obtains h al' where
    "acquire_address demo_lib demo_memory 100 demo_engine demo_al demo_pools (Some (demo_sa ''ops'' 1)) None = Inr (Some h, al')"
    "acquire_locked demo_lib demo_memory 100 demo_engine demo_al ''ops'' 1 = Inr (Some h, False, al')"
    "al_inv demo_lib al'" "serves demo_memory al' demo_pools (demo_sa ''ops'' 2) ''ops''"
    "al_users demo_lib al' ''ops'' = Some (new_lease ''ops'' 1 h False 100)"
    "al_uids demo_lib al' 1 = Some ''ops''" "al_lease_timeout al' = 3600" "dom (al_users demo_lib al') = {''ops''}"
proof -
  have serves: "serves demo_memory demo_al demo_pools (demo_sa ''ops'' n) ''ops''" for n
    using demo_serves [of "''ops''" n] by (simp add: cstr_def)
  have policy: "policy_address demo_lib demo_engine ''ops'' = None"
    by (simp add: policy_address_def demo_engine_fixed is_anon_def)
  have none: "al_users demo_lib demo_al ''ops'' = None" by (simp add: demo_al_users)
  obtain h al1 where a: "acquire_address demo_lib demo_memory 100 demo_engine demo_al demo_pools (Some (demo_sa ''ops'' 1)) None = Inr (Some h, al1)"
    using demo_free_acquire [OF serves policy] by blast
  have got: "acquire_locked demo_lib demo_memory 100 demo_engine demo_al ''ops'' 1 = Inr (Some h, False, al1)"
    using serves [of 1] a by (auto simp: serves_def acquire_address_def res_iff split: if_splits)
  obtain fixed where b: "al_inv demo_lib al1" "al_frame demo_al al1" "\<not> fixed"
      "sm_abs demo_lib (al_sessions al1) = snd (spec_bind ''ops'' 1 (Some h) fixed 100 (sm_abs demo_lib (al_sessions demo_al)))"
    by (rule acquire_new_cases [OF demo_al_inv demo_engine_inv demo_memory_simps(7) none, of 100 1])
      (use got policy in auto)
  have "serves demo_memory al1 demo_pools (demo_sa ''ops'' 2) ''ops''" using serves by (simp add: serves_frame [OF b(2)])
  moreover have "al_users demo_lib al1 ''ops'' = Some (new_lease ''ops'' 1 h False 100)" "al_uids demo_lib al1 1 = Some ''ops''"
    using spec_bind_users [OF b(4) none] b(3) by simp_all
  moreover have "al_lease_timeout al1 = 3600" using b(2) by (simp add: al_frame_def demo_al_def)
  moreover have "dom (al_users demo_lib al1) = {''ops''}" using spec_bind_users(1) [OF b(4) none] by (simp add: demo_al_users)
  ultimately show thesis by (rule that [OF a got b(1)])
qed

text \<open>The address of a user whose lease is gone is free.\<close>

lemma released_address_free:
  assumes inv: "al_inv L al" and l: "al_users L al u = Some l" and inv': "al_inv L al'"
    and gone: "al_users L al' = (al_users L al)(u := None)"
    and h: "le_ip l = Some h" "\<not> le_fixed l" and d: "al_dyn al' = Some d"
  shows "host_to_u32 h \<notin> dp_allocated d"
proof -
  have held: "dynamic (al_users L al) u = Some (host_to_u32 h)" using l h by (simp add: dynamic_def dyn_addr_def)
  have "dynamic (al_users L al) v = Some (host_to_u32 h) \<Longrightarrow> v = u" for v
    using held_distinct_dynamic [OF inv held] by blast
  then have "host_to_u32 h \<notin> ran (dynamic (al_users L al'))"
    by (auto simp: gone dynamic_upd ran_def split: if_splits)
  then show ?thesis using al_pool [OF inv'] d by (simp add: pool_ok_def)
qed

text \<open>C37: a second connection of a user shares the address of the first, and its end releases it: the
  address is free in the pool again, for anybody, while the first connection still uses it.\<close>

theorem second_connection_frees_shared_address:
  assumes "al_inv L al" and "serves m al pools s u" and "ok_result_clone m"
    and "al_users L al u = Some l" and "\<not> le_fixed l" and "le_unique_id l \<noteq> sa_unique_id s"
  shows "\<exists>h al1 al2 d. le_ip l = Some h \<and>
    acquire_address L m now pe al pools (Some s) requested = Inr (Some h, al1) \<and>
    release_address L al1 pools (Some h) (Some s) = Inr (True, al2) \<and> al_dyn al2 = Some d \<and>
    host_to_u32 h \<in> dp_universe d \<and> host_to_u32 h \<notin> dp_allocated d \<and> al_uids L al2 (le_unique_id l) = None"
proof -
  let ?w = "sa_unique_id s" and ?l = "l\<lparr>le_unique_id := sa_unique_id s, le_acquired := now\<rparr>"
  obtain h al1 where r: "le_ip l = Some h" "acquire_address L m now pe al pools (Some s) requested = Inr (Some h, al1)"
      "al_inv L al1" "al_dyn al1 = al_dyn al" "al_users L al1 = (al_users L al)(u \<mapsto> ?l)"
      "al_uids L al1 = (al_uids L al)(le_unique_id l := None, ?w \<mapsto> u)"
    using reconnect_law [OF assms(1,2,4,3), of now pe requested] by blast
  obtain al2 where r2: "release_by_uid_impl L al1 ?w = Inr (al_uids L al1 ?w \<noteq> None, al2)" "al_inv L al2" "al_frame al1 al2"
      "sm_abs L (al_sessions al2) = snd (spec_unbind ?w (sm_abs L (al_sessions al1)))"
    using release_effect [OF r(3)] by blast
  have users: "al_users L al2 = (al_users L al)(u := None)"
    and uids: "al_uids L al2 = (al_uids L al)(le_unique_id l := None, ?w := None)"
    using r2(4) by (simp_all add: sm_abs_def spec_unbind_def r(5,6))
  have held: "dynamic (al_users L al) u = Some (host_to_u32 h)"
    using assms(4,5) r(1) by (simp add: dynamic_def dyn_addr_def)
  obtain d0 where d0: "al_dyn al = Some d0" "host_to_u32 h \<in> dp_universe d0"
    using dynamic_in_pool [OF assms(1) held] by blast
  then obtain d where d: "al_dyn al2 = Some d" "dp_universe d = dp_universe d0"
    using r2(3) r(4) by (auto simp: al_frame_def)
  have "host_to_u32 h \<notin> dp_allocated d"
    by (rule released_address_free [OF assms(1,4) r2(2) users r(1) assms(5) d(1)])
  then show ?thesis
    using r(1,2) r2(1) d d0(2) uids r(6) by (auto simp: release_address_def)
qed

theorem second_connection_frees_shared_address_witness:
  "\<exists>h al1 al2 al3 d. acquire_address demo_lib demo_memory 100 demo_engine demo_al demo_pools (Some (demo_sa ''ops'' 1)) None = Inr (Some h, al1) \<and>
    acquire_address demo_lib demo_memory 200 demo_engine al1 demo_pools (Some (demo_sa ''ops'' 2)) None = Inr (Some h, al2) \<and>
    release_address demo_lib al2 demo_pools (Some h) (Some (demo_sa ''ops'' 2)) = Inr (True, al3) \<and>
    al_dyn al3 = Some d \<and> host_to_u32 h \<notin> dp_allocated d"
proof -
  obtain h al1 where a: "acquire_address demo_lib demo_memory 100 demo_engine demo_al demo_pools (Some (demo_sa ''ops'' 1)) None = Inr (Some h, al1)"
    "al_inv demo_lib al1" "serves demo_memory al1 demo_pools (demo_sa ''ops'' 2) ''ops''"
    "al_users demo_lib al1 ''ops'' = Some (new_lease ''ops'' 1 h False 100)"
    by (rule demo_ops_connected)
  from second_connection_frees_shared_address [OF a(2,3) demo_memory_simps(6) a(4), of 200 demo_engine None]
  show ?thesis using a(1) by (auto simp: new_lease_def)
qed

text \<open>C38: a fixed address inside the range of the pool is not reserved: while its user holds it, the pool
  hands the same address to the next user who gets one, as soon as it is the lowest free one.\<close>

theorem fixed_address_in_pool_is_shared:
  assumes "al_inv L al" and "pe_inv L pe" and "lease_memory_ok m" and "ok_fixed_clone m" and "ok_result_clone m"
    and "serves m al pools s u" and "al_users L al u = None" and "policy_address L pe u = Some h"
    and "serves m al pools t v" and "al_users L al v = None" and "policy_address L pe v = None" and "u \<noteq> v"
    and "al_dyn al = Some d" and "least_free d = {host_to_u32 h}"
  shows "\<exists>al1 al2 h'. acquire_address L m now pe al pools (Some s) requested = Inr (Some h, al1) \<and>
    acquire_address L m now' pe al1 pools (Some t) requested' = Inr (Some h', al2) \<and>
    host_to_u32 h' = host_to_u32 h \<and> held L al2 u = Some h \<and> held L al2 v = Some h'"
proof -
  have c: "choose_ip L m pe al u = Inr (Some h, True, al)"
    using choose_effect(1) [OF assms(1,2,4,8)] .
  obtain al1 where a: "acquire_locked L m now pe al u (sa_unique_id s) = Inr (Some h, False, al1)" "al_inv L al1"
      "al_frame al al1" "al_dyn al1 = al_dyn al"
      "sm_abs L (al_sessions al1) = snd (spec_bind u (sa_unique_id s) (Some h) True now (sm_abs L (al_sessions al)))"
    using acquire_fresh [OF assms(1,7,3) c, of now "sa_unique_id s"] assms(5) by auto
  note users = spec_bind_users [OF a(5) assms(7)]
  have t: "serves m al1 pools t v" using assms(9) by (simp add: serves_frame [OF a(3)])
  have none: "al_users L al1 v = None" using assms(10,12) by (simp add: users)
  have "dp_allocated d \<noteq> dp_universe d" using assms(14) unfolding least_free_def by blast
  then obtain h' al2 where b: "acquire_address L m now' pe al1 pools (Some t) requested' = Inr (Some h', al2)"
      "{host_to_u32 h'} = least_free d"
      "al_users L al2 = (al_users L al1)(v \<mapsto> new_lease v (sa_unique_id t) h' False now')"
    using dynamic_law [OF a(2) assms(2) t none assms(11,3,5), of now' requested'] a(4) assms(13) by auto
  then show ?thesis
    using acquire_served [OF assms(6) a(1), of requested] assms(12,14) by (auto simp: held_def users new_lease_def)
qed

text \<open>A policy whose fixed address is the first one of its pool.\<close>

definition clash_engine :: "(string, host) atable policy_engine" where
  "clash_engine = \<lparr>pe_store = [0 \<mapsto> document_snapshot demo_lib [(''vip'', ''defg'')] (Some (''defg'', ''defz''))],
     pe_next = 1, pe_active = Some 0, pe_path = ''p''\<rparr>"

lemma clash_engine_inv: "pe_inv demo_lib clash_engine"
  unfolding pe_inv_def clash_engine_def using document_snapshot_inv [OF demo_lib_ok] by fastforce

lemma clash_engine_fixed:
  "pe_fixed demo_lib clash_engine u =
    (if u = ''vip'' then Some \<lparr>h_family = AF_INET, h_address = [100, 101, 102, 103]\<rparr> else None)"
proof -
  have "policy_entries demo_lib [(''vip'', ''defg'')] = [(''vip'', \<lparr>h_family = AF_INET, h_address = [100, 101, 102, 103]\<rparr>)]"
    by (simp add: policy_entries_def user_entry_def List.map_filter_simps demo_from_string_def cstr_id snprintf_s_def)
  then show ?thesis
    using document_engine_lookup [OF demo_lib_ok, of clash_engine 0] by (simp add: clash_engine_def)
qed

theorem fixed_address_in_pool_is_shared_witness:
  "\<exists>al1 al2 h h'. acquire_address demo_lib demo_memory 100 clash_engine demo_al demo_pools (Some (demo_sa ''vip'' 1)) None = Inr (Some h, al1) \<and>
    acquire_address demo_lib demo_memory 101 clash_engine al1 demo_pools (Some (demo_sa ''ops'' 2)) None = Inr (Some h', al2) \<and>
    host_to_u32 h' = host_to_u32 h"
proof -
  let ?h = "\<lparr>h_family = AF_INET, h_address = [100, 101, 102, 103]\<rparr>"
  have s: "serves demo_memory demo_al demo_pools (demo_sa ''vip'' 1) ''vip''"
    and t: "serves demo_memory demo_al demo_pools (demo_sa ''ops'' 2) ''ops''"
    using demo_serves [of "''vip''" 1] demo_serves [of "''ops''" 2] by (simp_all add: cstr_def)
  have none: "al_users demo_lib demo_al u = None" for u by (simp add: demo_al_users)
  have P: "policy_address demo_lib clash_engine ''vip'' = Some ?h" "policy_address demo_lib clash_engine ''ops'' = None"
    by (simp_all add: policy_address_def clash_engine_fixed is_anon_def)
  have "host_to_u32 ?h = 1684366951" by (simp add: host_to_u32_def load_be32_def)
  moreover have "least_free demo_dyn = {1684366951}"
    by (rule least_freeI) (auto simp: demo_dyn_empty, auto simp: dp_universe_def demo_dyn_def)
  ultimately have least: "least_free demo_dyn = {host_to_u32 ?h}" by simp
  have dyn: "al_dyn demo_al = Some demo_dyn" by (simp add: demo_al_def)
  from fixed_address_in_pool_is_shared [OF demo_al_inv clash_engine_inv demo_memory_simps(7) demo_memory_simps(3)
      demo_memory_simps(6) s none P(1) t none P(2) _ dyn least, of 100 None 101 None]
  show ?thesis by auto
qed

end
