(* ===== verification/Event_Listener.thy ===== *)
theory Event_Listener
  imports Allocator_Properties
begin

text \<open>
  \<open>event_listener.c\<close>: the listener on the bus of charon that releases the lease of an IKE_SA that goes
  down, should \<open>release_address\<close> not have done it.  The listener borrows the allocator, so allocators
  live in a store; the answer of \<open>calloc\<close> is an argument.
\<close>

section \<open>State and operations\<close>

record event_listener =
  el_allocator :: nat

definition ike_updown ::
  "('u, 's, 'f) strongswan \<Rightarrow> ('u, 's) ip_allocator store \<Rightarrow> event_listener \<Rightarrow> ike_sa option \<Rightarrow> bool \<Rightarrow>
   (bool \<times> ('u, 's) ip_allocator store) res" where
  "ike_updown L als this sa up =
     (case sa of
        None \<Rightarrow> Inr (True, als)
      | Some s \<Rightarrow>
          if up then Inr (True, als)
          else bindR (deref als (el_allocator this)) (\<lambda>al.
               bindR (release_by_uid L al (sa_unique_id s)) (\<lambda>al'.
               Inr (True, als(el_allocator this \<mapsto> al')))))"

definition event_listener_create :: "bool \<Rightarrow> nat option \<Rightarrow> event_listener option" where
  "event_listener_create calloc_ok allocator =
     (case allocator of None \<Rightarrow> None | Some a \<Rightarrow> if calloc_ok then Some \<lparr>el_allocator = a\<rparr> else None)"

definition event_listener_destroy :: "event_listener store \<Rightarrow> nat option \<Rightarrow> event_listener store res" where
  "event_listener_destroy ls this = (case this of None \<Rightarrow> Inr ls | Some p \<Rightarrow> free_obj ls p)"

section \<open>Properties\<close>

lemma release_by_uid_effect:
  assumes inv: "al_inv L al"
  obtains al' where "release_by_uid L al w = Inr al'" "release_by_uid_impl L al w = Inr (al_uids L al w \<noteq> None, al')"
    "al_inv L al'" "al_frame al al'" "sm_abs L (al_sessions al') = snd (spec_unbind w (sm_abs L (al_sessions al)))"
proof -
  obtain al' where r: "release_by_uid_impl L al w = Inr (al_uids L al w \<noteq> None, al')" "al_inv L al'" "al_frame al al'"
      "sm_abs L (al_sessions al') = snd (spec_unbind w (sm_abs L (al_sessions al)))"
    using release_effect [OF inv] by blast
  show thesis by (rule that [OF _ r(1-4)]) (simp add: release_by_uid_def r(1))
qed

text \<open>The marks of a pool are determined by the leases.\<close>

definition al_marks :: "('u, 's) ip_allocator \<Rightarrow> u32 set option" where
  "al_marks al = map_option dp_allocated (al_dyn al)"

lemma al_marks_leases:
  assumes "al_inv L al"
  shows "al_marks al = (if al_dyn al = None then None else Some (ran (dynamic (al_users L al))))"
  using al_pool [OF assms] by (auto simp: al_marks_def pool_ok_def split: option.splits)

lemma same_leases_same_marks:
  "al_inv L al \<Longrightarrow> al_inv L al' \<Longrightarrow> al_frame al al' \<Longrightarrow> al_users L al' = al_users L al \<Longrightarrow> al_marks al' = al_marks al"
  by (cases "al_dyn al"; cases "al_dyn al'") (simp_all add: al_marks_leases al_frame_def)

lemma unbind_twice:
  "snd (snd (spec_unbind w a)) w = None" "snd (spec_unbind w (snd (spec_unbind w a))) = snd (spec_unbind w a)"
  by (auto simp: spec_unbind_def split: prod.split option.split)

text \<open>C16: both ways on which an IKE_SA gives its address back, \<open>release_address\<close> and the \<open>ike_updown\<close>
  event, may be taken, in either order: whichever comes second finds nothing, returns without a fault
  and changes neither the leases nor the pool.  An event that says \<open>up\<close> does nothing.  The listener
  always stays registered.\<close>

theorem updown_and_release_agree:
  assumes "als p = Some al" and "al_inv L al" and "el_allocator this = p"
  shows "ike_updown L als this (Some s) True = Inr (True, als) \<and> ike_updown L als this None up = Inr (True, als) \<and>
    (\<exists>al1 al2. release_address L al pools addr (Some s) = Inr (al_uids L al (sa_unique_id s) \<noteq> None, al1) \<and>
      ike_updown L als this (Some s) False = Inr (True, als(p \<mapsto> al1)) \<and>
      ike_updown L (als(p \<mapsto> al1)) this (Some s) False = Inr (True, als(p \<mapsto> al2)) \<and>
      release_address L al1 pools addr (Some s) = Inr (False, al2) \<and>
      al_users L al2 = al_users L al1 \<and> al_uids L al2 = al_uids L al1 \<and> al_marks al2 = al_marks al1)"
proof -
  let ?w = "sa_unique_id s"
  obtain al1 where 1: "release_by_uid L al ?w = Inr al1" "release_by_uid_impl L al ?w = Inr (al_uids L al ?w \<noteq> None, al1)"
      "al_inv L al1" "al_frame al al1" "sm_abs L (al_sessions al1) = snd (spec_unbind ?w (sm_abs L (al_sessions al)))"
    by (rule release_by_uid_effect [OF assms(2)])
  obtain al2 where 2: "release_by_uid L al1 ?w = Inr al2" "release_by_uid_impl L al1 ?w = Inr (al_uids L al1 ?w \<noteq> None, al2)"
      "al_inv L al2" "al_frame al1 al2" "sm_abs L (al_sessions al2) = snd (spec_unbind ?w (sm_abs L (al_sessions al1)))"
    by (rule release_by_uid_effect [OF 1(3)])
  have gone: "al_uids L al1 ?w = None"
    using unbind_twice(1) [of ?w "sm_abs L (al_sessions al)"] unfolding 1(5) [symmetric] by (simp add: sm_abs_def)
  have same: "al_users L al2 = al_users L al1" "al_uids L al2 = al_uids L al1"
    using 2(5) unbind_twice(2) [of ?w "sm_abs L (al_sessions al)"] unfolding 1(5) [symmetric] by (simp_all add: sm_abs_def)
  show ?thesis
    using assms(1,3) 1(1,2) 2(1,2) gone same same_leases_same_marks [OF 1(3) 2(3,4) same(1)]
    by (auto simp: ike_updown_def release_address_def store_simps)
qed
theorem updown_and_release_agree_witness:
  "\<exists>h al al1. acquire_address demo_lib demo_memory 100 demo_engine demo_al demo_pools (Some (demo_sa ''ops'' 1)) None = Inr (Some h, al) \<and>
    ike_updown demo_lib [0 \<mapsto> al] \<lparr>el_allocator = 0\<rparr> (Some (demo_sa ''ops'' 1)) False = Inr (True, [0 \<mapsto> al1]) \<and>
    release_address demo_lib al demo_pools (Some h) (Some (demo_sa ''ops'' 1)) = Inr (True, al1)"
proof -
  obtain h al where a: "acquire_address demo_lib demo_memory 100 demo_engine demo_al demo_pools (Some (demo_sa ''ops'' 1)) None = Inr (Some h, al)"
    "al_inv demo_lib al" "al_uids demo_lib al 1 = Some ''ops''"
    by (rule demo_ops_connected)
  from updown_and_release_agree [of "[0 \<mapsto> al]" 0 al demo_lib "\<lparr>el_allocator = 0\<rparr>" "demo_sa ''ops'' 1" True demo_pools "Some h"]
  show ?thesis using a by auto
qed

end
