(* ===== verification/Lock_Programs.thy ===== *)
theory Lock_Programs
  imports Event_Listener "HOL-Library.Multiset"
begin

text \<open>
  Programs that take locks, for the question the value models leave open: can the threads of charon wait
  for each other for ever?  A program is a tree: it returns, locks or unlocks, or makes one step on the
  shared state and goes on with what it has found there.  Threads run their programs in any order; a
  lock has one holder.  The discipline is that a thread takes locks in the order of \<open>lock_rank\<close> only
  and gives all of them back, which is enough for some thread always to be able to go on, and that it
  changes shared data only with the lock the data belongs to.
\<close>

section \<open>Programs\<close>

text \<open>The locks of the plugin, and an IKE_SA, which is checked out by one thread at a time.\<close>

datatype lock =
    Sweep_Lock
  | Ike_Sa u32
  | Alloc_Lock
  | Sessions_Mutex
  | Pool_Mutex
  | Reload_Lock
  | Ref_Lock

datatype lock_event = Lock lock | Unlock lock

datatype ('s, 'a) prog =
    Return 'a
  | Emit lock_event "('s, 'a) prog"
  | Atomic "'s \<Rightarrow> fault + 's \<times> ('s, 'a) prog"

primrec bindP :: "('s, 'a) prog \<Rightarrow> ('a \<Rightarrow> ('s, 'b) prog) \<Rightarrow> ('s, 'b) prog" where
  "bindP (Return x) k = k x"
| "bindP (Emit e p) k = Emit e (bindP p k)"
| "bindP (Atomic f) k = Atomic (\<lambda>s. map_sum id (map_prod id (\<lambda>p. bindP p k)) (f s))"

text \<open>The program alone, with nobody to wait for.\<close>

primrec run :: "('s, 'a) prog \<Rightarrow> 's \<Rightarrow> ('a \<times> 's) res" where
  "run (Return x) = (\<lambda>s. Inr (x, s))"
| "run (Emit e p) = run p"
| "run (Atomic f) = (\<lambda>s. case map_sum id (map_prod id run) (f s) of Inl e \<Rightarrow> Inl e | Inr (s', g) \<Rightarrow> g s')"

definition lockP :: "lock \<Rightarrow> ('s, unit) prog" where
  "lockP l = Emit (Lock l) (Return ())"

definition unlockP :: "lock \<Rightarrow> ('s, unit) prog" where
  "unlockP l = Emit (Unlock l) (Return ())"

definition doP :: "('s \<Rightarrow> ('a \<times> 's) res) \<Rightarrow> ('s, 'a) prog" where
  "doP f = Atomic (\<lambda>s. bindR (f s) (\<lambda>(x, s'). Inr (s', Return x)))"

definition getP :: "('s \<Rightarrow> 'a) \<Rightarrow> ('s, 'a) prog" where
  "getP f = doP (\<lambda>s. Inr (f s, s))"

fun forP :: "('x \<Rightarrow> ('s, unit) prog) \<Rightarrow> 'x list \<Rightarrow> ('s, unit) prog" where
  "forP f [] = Return ()"
| "forP f (x # xs) = bindP (f x) (\<lambda>_. forP f xs)"

named_theorems run_simps "what programs compute"

lemma run_bindP [run_simps]: "run (bindP p k) s = bindR (run p s) (\<lambda>(x, s'). run (k x) s')"
proof (induction p arbitrary: s)
  case (Atomic f)
  show ?case
  proof (cases "f s")
    case (Inr r)
    obtain s' p where r: "r = (s', p)" by (cases r)
    have "Inr (s', p) \<in> range f" using Inr r by (metis rangeI)
    then have "run (bindP p k) s' = bindR (run p s') (\<lambda>(x, s'). run (k x) s')"
      using Atomic.IH [of "Inr (s', p)" "(s', p)" p s'] by simp
    then show ?thesis by (simp add: Inr r)
  qed simp
qed simp_all

lemma run_basic [run_simps]:
  "run (lockP l) s = Inr ((), s)"
  "run (unlockP l) s = Inr ((), s)"
  "run (doP f) s = f s"
  "run (getP g) s = Inr (g s, s)"
  "run (Return x) s = Inr (x, s)"
  by (simp_all add: lockP_def unlockP_def doP_def getP_def bindR_def split: sum.split)

section \<open>The discipline\<close>

definition lock_rank :: "lock \<Rightarrow> nat" where
  "lock_rank l =
     (case l of
        Sweep_Lock \<Rightarrow> 0 | Ike_Sa w \<Rightarrow> 1 | Alloc_Lock \<Rightarrow> 2 | Sessions_Mutex \<Rightarrow> 3 | Pool_Mutex \<Rightarrow> 3
      | Reload_Lock \<Rightarrow> 3 | Ref_Lock \<Rightarrow> 3)"

lemma lock_rank_simps [simp]:
  "lock_rank Sweep_Lock = 0" "lock_rank (Ike_Sa w) = 1" "lock_rank Alloc_Lock = 2" "lock_rank Sessions_Mutex = 3"
  "lock_rank Pool_Mutex = 3" "lock_rank Reload_Lock = 3" "lock_rank Ref_Lock = 3"
  by (simp_all add: lock_rank_def)

text \<open>\<open>disciplined G H p H'\<close>: holding \<open>H\<close>, the program locks upwards and unlocks what it holds, whatever it
  finds in the shared state, and holds \<open>H'\<close> when it returns; each of its steps changes the state only
  as \<open>G\<close> allows it with the locks it holds at that moment.\<close>

inductive disciplined ::
  "(lock set \<Rightarrow> 's \<Rightarrow> 's \<Rightarrow> bool) \<Rightarrow> lock set \<Rightarrow> ('s, 'a) prog \<Rightarrow> lock set \<Rightarrow> bool" for G where
  ret: "disciplined G H (Return x) H"
| lock: "(\<And>k. k \<in> H \<Longrightarrow> lock_rank k < lock_rank l) \<Longrightarrow> disciplined G (insert l H) p H' \<Longrightarrow> disciplined G H (Emit (Lock l) p) H'"
| unlock: "l \<in> H \<Longrightarrow> disciplined G (H - {l}) p H' \<Longrightarrow> disciplined G H (Emit (Unlock l) p) H'"
| atomic: "(\<And>s s' p. f s = Inr (s', p) \<Longrightarrow> G H s s' \<and> disciplined G H p H') \<Longrightarrow> disciplined G H (Atomic f) H'"

inductive_cases disciplined_ReturnE: "disciplined G H (Return x) H'"
inductive_cases disciplined_LockE: "disciplined G H (Emit (Lock l) p) H'"
inductive_cases disciplined_UnlockE: "disciplined G H (Emit (Unlock l) p) H'"
inductive_cases disciplined_AtomicE: "disciplined G H (Atomic f) H'"

text \<open>One rule per construct; \<open>locks\<close> collects those and the discipline of each operation.\<close>

named_theorems locks "operations keep the discipline"

lemma disciplined_bindP:
  assumes "disciplined G H p H'" and "\<And>x. disciplined G H' (k x) H''"
  shows "disciplined G H (bindP p k) H''"
  using assms
proof (induction rule: disciplined.induct)
  case (atomic f H H')
  show ?case unfolding bindP.simps
  proof (rule disciplined.atomic)
    fix s s' q assume "map_sum id (map_prod id (\<lambda>p. bindP p k)) (f s) = Inr (s', q)"
    then obtain p where "f s = Inr (s', p)" "q = bindP p k" by (cases "f s") auto
    then show "G H s s' \<and> disciplined G H q H''" using atomic by blast
  qed
qed (auto intro: disciplined.intros)

lemma disciplined_lockP: "(\<And>k. k \<in> H \<Longrightarrow> lock_rank k < lock_rank l) \<Longrightarrow> disciplined G H (lockP l) (insert l H)"
  unfolding lockP_def by (rule disciplined.lock) (auto intro: disciplined.ret)

lemma disciplined_unlockP: "l \<in> H \<Longrightarrow> disciplined G H (unlockP l) (H - {l})"
  unfolding unlockP_def by (auto intro: disciplined.intros)

lemma disciplined_doP: "(\<And>s x s'. f s = Inr (x, s') \<Longrightarrow> G H s s') \<Longrightarrow> disciplined G H (doP f) H"
  unfolding doP_def by (rule disciplined.atomic) (auto simp: res_iff intro: disciplined.ret)

lemma disciplined_getP: "(\<And>s. G H s s) \<Longrightarrow> disciplined G H (getP f) H"
  unfolding getP_def by (rule disciplined_doP) simp

lemma disciplined_forP: "(\<And>x. disciplined G H (f x) H) \<Longrightarrow> disciplined G H (forP f xs) H"
  by (induction xs) (auto intro: disciplined.ret disciplined_bindP)

section \<open>Threads\<close>

record 's threads =
  th_state :: 's
  th_holder :: "lock \<Rightarrow> nat option"
  th_prog :: "nat \<Rightarrow> ('s, unit) prog"

definition set_prog :: "nat \<Rightarrow> ('s, unit) prog \<Rightarrow> 's threads \<Rightarrow> 's threads" where
  "set_prog i p t = t\<lparr>th_prog := (th_prog t)(i := p)\<rparr>"

text \<open>A thread that wants a lock somebody holds, be it itself, cannot move.\<close>

inductive locked_step :: "'s threads \<Rightarrow> 's threads res \<Rightarrow> bool" where
  lock: "th_prog t i = Emit (Lock l) p \<Longrightarrow> th_holder t l = None \<Longrightarrow>
    locked_step t (Inr (set_prog i p (t\<lparr>th_holder := (th_holder t)(l \<mapsto> i)\<rparr>)))"
| unlock: "th_prog t i = Emit (Unlock l) p \<Longrightarrow> th_holder t l = Some i \<Longrightarrow>
    locked_step t (Inr (set_prog i p (t\<lparr>th_holder := (th_holder t)(l := None)\<rparr>)))"
| atomic: "th_prog t i = Atomic f \<Longrightarrow>
    locked_step t (bindR (f (th_state t)) (\<lambda>(s', p). Inr (set_prog i p (t\<lparr>th_state := s'\<rparr>))))"

inductive locked_reach :: "'s threads \<Rightarrow> 's threads \<Rightarrow> bool" for t where
  start: "locked_reach t t"
| step: "locked_reach t t' \<Longrightarrow> locked_step t' (Inr t'') \<Longrightarrow> locked_reach t t''"

inductive_cases locked_stepE: "locked_step t r"

definition returned :: "('s, 'a) prog \<Rightarrow> bool" where
  "returned p = (case p of Return x \<Rightarrow> True | _ \<Rightarrow> False)"

definition all_returned :: "'s threads \<Rightarrow> bool" where
  "all_returned t \<longleftrightarrow> (\<forall>i. returned (th_prog t i))"

definition holds :: "'s threads \<Rightarrow> nat \<Rightarrow> lock set" where
  "holds t i = {l. th_holder t l = Some i}"

text \<open>Finitely many threads run, and each is disciplined from what it holds to nothing.\<close>

definition orderly :: "(lock set \<Rightarrow> 's \<Rightarrow> 's \<Rightarrow> bool) \<Rightarrow> 's threads \<Rightarrow> bool" where
  "orderly G t \<longleftrightarrow> finite {i. \<not> returned (th_prog t i)} \<and> (\<forall>i. disciplined G (holds t i) (th_prog t i) {})"

lemma th_set_prog [simp]:
  "th_state (set_prog i p t) = th_state t" "th_holder (set_prog i p t) = th_holder t"
  "th_prog (set_prog i p t) = (th_prog t)(i := p)"
  by (simp_all add: set_prog_def)

lemma orderly_step:
  assumes ord: "orderly G t" and step: "locked_step t (Inr t')"
  shows "orderly G t'"
proof -
  have fin: "finite {i. \<not> returned (th_prog t i)}" and disc: "\<And>i. disciplined G (holds t i) (th_prog t i) {}"
    using ord by (simp_all add: orderly_def)
  have fin': "finite {i. \<not> returned (((th_prog t)(j := p)) i)}" for j p
    by (rule finite_subset [OF _ finite.insertI [OF fin, of j]]) auto
  from step show ?thesis
  proof cases
    case (lock i l p)
    from disc [of i] have "disciplined G (insert l (holds t i)) p {}" by (auto simp: lock(2) elim: disciplined_LockE)
    moreover have "holds t' i = insert l (holds t i)" "\<And>j. j \<noteq> i \<Longrightarrow> holds t' j = holds t j"
      using lock(3) by (auto simp: lock(1) holds_def)
    ultimately show ?thesis using disc fin' by (auto simp: orderly_def lock(1))
  next
    case (unlock i l p)
    from disc [of i] have "disciplined G (holds t i - {l}) p {}" by (auto simp: unlock(2) elim: disciplined_UnlockE)
    moreover have "holds t' i = holds t i - {l}" "\<And>j. j \<noteq> i \<Longrightarrow> holds t' j = holds t j"
      using unlock(3) by (auto simp: unlock(1) holds_def)
    ultimately show ?thesis using disc fin' by (auto simp: orderly_def unlock(1))
  next
    case (atomic i f)
    from atomic(1) obtain s' p where f: "f (th_state t) = Inr (s', p)" "t' = set_prog i p (t\<lparr>th_state := s'\<rparr>)"
      by (cases "f (th_state t)") auto
    from disc [of i] have "disciplined G (holds t i) p {}" using f(1) by (auto simp: atomic(2) elim: disciplined_AtomicE)
    moreover have "holds t' = holds t" by (auto simp: f(2) holds_def fun_eq_iff)
    ultimately show ?thesis using disc fin' by (auto simp: orderly_def f(2))
  qed
qed

lemma orderly_reach: "locked_reach t t' \<Longrightarrow> orderly G t \<Longrightarrow> orderly G t'"
  by (induction rule: locked_reach.induct) (auto intro: orderly_step)

text \<open>If nobody could move, everybody would wait for a lock; the holder of the highest of these would wait
  for a higher one.\<close>

lemma orderly_progress:
  assumes ord: "orderly G t" and busy: "\<not> all_returned t"
  shows "\<exists>r. locked_step t r"
proof (rule ccontr)
  assume stuck: "\<nexists>r. locked_step t r"
  have disc: "\<And>i. disciplined G (holds t i) (th_prog t i) {}" using ord by (simp add: orderly_def)
  have waits: "\<exists>l p j. th_prog t i = Emit (Lock l) p \<and> th_holder t l = Some j" if i: "\<not> returned (th_prog t i)" for i
  proof (cases "th_prog t i")
    case (Return x)
    then show ?thesis using i by (simp add: returned_def)
  next
    case (Emit e p)
    show ?thesis
    proof (cases e)
      case (Lock l)
      then show ?thesis using Emit stuck locked_step.lock [of t i l p] by (cases "th_holder t l") auto
    next
      case (Unlock l)
      then have "th_holder t l = Some i" using disc [of i] Emit by (auto simp: holds_def elim: disciplined_UnlockE)
      then show ?thesis using Emit Unlock stuck locked_step.unlock [of t i l p] by blast
    qed
  next
    case (Atomic f)
    then show ?thesis using stuck locked_step.atomic [of t i f] by blast
  qed
  define B where "B = {i. \<not> returned (th_prog t i)}"
  define want where "want = (\<lambda>i. case th_prog t i of Emit (Lock l) p \<Rightarrow> lock_rank l | _ \<Rightarrow> 0)"
  have "finite B" "B \<noteq> {}" using ord busy by (auto simp: B_def orderly_def all_returned_def)
  then obtain i where i: "i \<in> B" "\<And>j. j \<in> B \<Longrightarrow> want j \<le> want i"
    using Max_in [of "want ` B"] Max_ge [of "want ` B"] by (metis (no_types, lifting) finite_imageI image_iff image_is_empty)
  obtain l p j where l: "th_prog t i = Emit (Lock l) p" "th_holder t l = Some j" using waits [of i] i(1) unfolding B_def by blast
  then have "l \<in> holds t j" by (simp add: holds_def)
  then have "\<not> returned (th_prog t j)"
    using disc [of j] by (cases "th_prog t j") (auto simp: returned_def elim: disciplined_ReturnE)
  then obtain k q where k: "th_prog t j = Emit (Lock k) q" "j \<in> B" using waits [of j] unfolding B_def by blast
  then have "lock_rank l < lock_rank k" using disc [of j] \<open>l \<in> holds t j\<close> by (auto elim: disciplined_LockE)
  then show False using i(2) [OF k(2)] l(1) k(1) by (simp add: want_def)
qed

text \<open>Every step leaves one program smaller and the others as they are, so that every run ends.\<close>

inductive smaller :: "('s, 'a) prog \<Rightarrow> ('s, 'a) prog \<Rightarrow> bool" where
  emit: "smaller p (Emit e p)"
| atomic: "f s = Inr (s', p) \<Longrightarrow> smaller p (Atomic f)"

inductive_cases smaller_ReturnE: "smaller q (Return x)"
inductive_cases smaller_EmitE: "smaller q (Emit e p)"
inductive_cases smaller_AtomicE: "smaller q (Atomic f)"

lemma smaller_busy: "smaller q p \<Longrightarrow> \<not> returned p"
  by (cases p) (auto simp: returned_def elim: smaller_ReturnE)

lemma wfp_smaller: "wfp (smaller :: ('s, 'a) prog \<Rightarrow> ('s, 'a) prog \<Rightarrow> bool)"
proof (rule accp_wfpI, rule allI)
  fix p :: "('s, 'a) prog"
  show "Wellfounded.accp smaller p"
  proof (induction p)
    case (Return x)
    show ?case by (rule accpI) (auto elim: smaller_ReturnE)
  next
    case (Emit e p)
    show ?case by (rule accpI) (auto elim: smaller_EmitE intro: Emit.IH)
  next
    case (Atomic f)
    show ?case
    proof (rule accpI)
      fix q assume "smaller q (Atomic f)"
      then obtain s s' where f: "f s = Inr (s', q)" by (auto elim: smaller_AtomicE)
      then have "Inr (s', q) \<in> range f" by (metis rangeI)
      then show "Wellfounded.accp smaller q" using Atomic.IH [of "Inr (s', q)" "(s', q)" q] by simp
    qed
  qed
qed

lemma step_smaller:
  assumes "locked_step t (Inr t')"
  shows "\<exists>i q. smaller q (th_prog t i) \<and> th_prog t' = (th_prog t)(i := q)"
  using assms
proof cases
  case (atomic i f)
  then obtain s' p where "f (th_state t) = Inr (s', p)" "t' = set_prog i p (t\<lparr>th_state := s'\<rparr>)"
    by (cases "f (th_state t)") auto
  then show ?thesis using atomic(2) by (intro exI [of _ i] exI [of _ p]) (auto intro: smaller.atomic)
next
  case (lock i l p)
  then show ?thesis by (intro exI [of _ i] exI [of _ p]) (simp add: smaller.emit)
next
  case (unlock i l p)
  then show ?thesis by (intro exI [of _ i] exI [of _ p]) (simp add: smaller.emit)
qed

lemma smaller_neq: "\<not> smaller p p"
  using wfp_smaller by (metis wfp_imp_irreflp irreflpD)

text \<open>A step changes the state only as its thread may with the locks it holds.\<close>

lemma orderly_guarantee:
  assumes ord: "orderly G t" and step: "locked_step t (Inr t')"
  shows "th_state t' = th_state t \<or> (\<exists>i. th_prog t' i \<noteq> th_prog t i \<and> G (holds t i) (th_state t) (th_state t'))"
  using step
proof cases
  case (atomic i f)
  from atomic(1) obtain s' p where f: "f (th_state t) = Inr (s', p)" "t' = set_prog i p (t\<lparr>th_state := s'\<rparr>)"
    by (cases "f (th_state t)") auto
  have "disciplined G (holds t i) (Atomic f) {}" using ord atomic(2) by (simp add: orderly_def flip: atomic(2))
  then have "G (holds t i) (th_state t) s'" using f(1) by (auto elim: disciplined_AtomicE)
  moreover have "smaller p (Atomic f)" using f(1) by (rule smaller.atomic)
  then have "p \<noteq> Atomic f" using smaller_neq by blast
  ultimately show ?thesis using atomic(2) f(2) by auto
qed simp_all

text \<open>A thread that does not move keeps its locks; and as its program would be smaller if it had moved, one
  can tell from the program it has in the end.\<close>

lemma waiting_keeps_lock:
  assumes step: "locked_step t (Inr t')" and i: "th_prog t' i = th_prog t i" "th_holder t l = Some i"
  shows "th_holder t' l = Some i"
  using step
proof cases
  case (lock j k p)
  then show ?thesis using i(2) by auto
next
  case (unlock j k p)
  have "p \<noteq> Emit (Unlock k) p" using smaller_neq smaller.emit by metis
  then have "j \<noteq> i" using i(1) unlock(1,2) by auto
  then show ?thesis using unlock(1,3) i(2) by auto
next
  case (atomic j f)
  then show ?thesis using i(2) by (cases "f (th_state t)") auto
qed

lemma reach_smaller: "locked_reach t t' \<Longrightarrow> smaller\<^sup>*\<^sup>* (th_prog t' i) (th_prog t i)"
proof (induction rule: locked_reach.induct)
  case (step t' t'')
  then obtain j q where "smaller q (th_prog t' j)" "th_prog t'' = (th_prog t')(j := q)" using step_smaller by blast
  then show ?case using step.IH by (cases "i = j") (auto intro: converse_rtranclp_into_rtranclp)
qed simp

lemma smaller_antisym:
  assumes "smaller\<^sup>*\<^sup>* p q" and "smaller\<^sup>*\<^sup>* q p"
  shows "p = q"
proof (rule ccontr)
  assume "p \<noteq> q"
  then have "smaller\<^sup>+\<^sup>+ p p" using assms by (metis rtranclpD tranclp_trans)
  then show False using wfp_tranclp [OF wfp_smaller] by (metis wfp_imp_irreflp irreflpD)
qed

lemma reach_waiting:
  assumes "locked_reach t t'" and "locked_step t' (Inr t'')" and "th_prog t'' i = th_prog t i"
  shows "th_prog t' i = th_prog t i"
proof -
  have "smaller\<^sup>*\<^sup>* (th_prog t'' i) (th_prog t' i)"
    using reach_smaller [OF locked_reach.step [OF locked_reach.start assms(2)]] .
  then show ?thesis using reach_smaller [OF assms(1), of i] assms(3) smaller_antisym by metis
qed

definition programs :: "nat set \<Rightarrow> 's threads \<Rightarrow> ('s, unit) prog multiset" where
  "programs B t = image_mset (th_prog t) (mset_set B)"

lemma programs_decrease:
  assumes step: "locked_step t (Inr t')" and B: "finite B" "{i. \<not> returned (th_prog t i)} \<subseteq> B"
  shows "(programs B t', programs B t) \<in> mult {(q, p). smaller q p}" and "{i. \<not> returned (th_prog t' i)} \<subseteq> B"
proof -
  obtain i q where i: "smaller q (th_prog t i)" "th_prog t' = (th_prog t)(i := q)" using step_smaller [OF step] by blast
  then have "i \<in> B" using B(2) smaller_busy by blast
  then show "{i. \<not> returned (th_prog t' i)} \<subseteq> B" using B(2) by (auto simp: i(2))
  have split: "mset_set B = add_mset i (mset_set (B - {i}))" using \<open>i \<in> B\<close> B(1) by (simp add: mset_set.remove)
  have "image_mset ((th_prog t)(i := q)) (mset_set (B - {i})) = image_mset (th_prog t) (mset_set (B - {i}))"
    by (rule image_mset_cong) (use B(1) in auto)
  then have "programs B t' = programs (B - {i}) t + {#q#}" and "programs B t = programs (B - {i}) t + {#th_prog t i#}"
    by (simp_all add: programs_def i(2) split)
  then show "(programs B t', programs B t) \<in> mult {(q, p). smaller q p}"
    using one_step_implies_mult [of "{#th_prog t i#}" "{#q#}" "{(q, p). smaller q p}" "programs (B - {i}) t"] i(1) by simp
qed

lemma runs_end:
  fixes f :: "nat \<Rightarrow> 's threads"
  assumes fin: "finite {i. \<not> returned (th_prog (f 0) i)}" and run: "\<And>n. locked_step (f n) (Inr (f (Suc n)))"
  shows False
proof -
  define B where "B = {i. \<not> returned (th_prog (f 0) i)}"
  have B: "finite B" using fin by (simp add: B_def)
  have "{i. \<not> returned (th_prog (f n) i)} \<subseteq> B" for n
    by (induction n) (auto simp: B_def dest: programs_decrease(2) [OF run B, unfolded B_def])
  then have "(programs B (f (Suc n)), programs B (f n)) \<in> mult {(q, p). smaller q p}" for n
    using programs_decrease(1) [OF run B] by blast
  then have "\<exists>g. \<forall>n. (g (Suc n), g n) \<in> mult ({(q, p). smaller q p} :: (('s, unit) prog \<times> ('s, unit) prog) set)"
    by (intro exI [of _ "\<lambda>n. programs B (f n)"]) blast
  moreover have "wf (mult ({(q, p). smaller q p} :: (('s, unit) prog \<times> ('s, unit) prog) set))"
    using wfp_smaller by (intro wf_mult) (simp add: wfp_def)
  ultimately show False unfolding wf_iff_no_infinite_down_chain by blast
qed


section \<open>Runs without interruption\<close>

lemma locked_reach_trans: "locked_reach t' t'' \<Longrightarrow> locked_reach t t' \<Longrightarrow> locked_reach t t''"
  by (induction rule: locked_reach.induct) (auto intro: locked_reach.step)

lemma locked_reach_then: "locked_step t (Inr t') \<Longrightarrow> locked_reach t' t'' \<Longrightarrow> locked_reach t t''"
  by (rule locked_reach_trans) (auto intro: locked_reach.intros)

text \<open>Which locks a program uses.\<close>

inductive within :: "lock set \<Rightarrow> ('s, 'a) prog \<Rightarrow> bool" for S where
  ret: "within S (Return x)"
| lock: "l \<in> S \<Longrightarrow> within S p \<Longrightarrow> within S (Emit (Lock l) p)"
| unlock: "l \<in> S \<Longrightarrow> within S p \<Longrightarrow> within S (Emit (Unlock l) p)"
| atomic: "(\<And>s s' p. f s = Inr (s', p) \<Longrightarrow> within S p) \<Longrightarrow> within S (Atomic f)"

inductive_simps within_simps [simp]:
  "within S (Return x)" "within S (Emit (Lock l) p)" "within S (Emit (Unlock l) p)" "within S (Atomic f)"

named_theorems locks_used "which locks operations use"

lemma within_bindP [locks_used]: "within S p \<Longrightarrow> (\<And>x. within S (k x)) \<Longrightarrow> within S (bindP p k)"
proof (induction rule: within.induct)
  case (atomic f)
  show ?case unfolding bindP.simps
  proof (rule within.atomic)
    fix s s' q assume "map_sum id (map_prod id (\<lambda>p. bindP p k)) (f s) = Inr (s', q)"
    then obtain p where "f s = Inr (s', p)" "q = bindP p k" by (cases "f s") auto
    then show "within S q" using atomic by blast
  qed
qed simp_all

lemma within_basic [locks_used]:
  "within S (Return x)" "l \<in> S \<Longrightarrow> within S (lockP l)" "l \<in> S \<Longrightarrow> within S (unlockP l)" "within S (doP f)" "within S (getP g)"
  by (auto simp: lockP_def unlockP_def doP_def getP_def res_iff)

lemma within_UNIV: "within UNIV p"
proof (induction p)
  case (Emit e p)
  then show ?case by (cases e) simp_all
next
  case (Atomic f)
  show ?case
  proof (rule within.atomic)
    fix s s' p assume "f s = Inr (s', p)"
    then have "Inr (s', p) \<in> range f" by (metis rangeI)
    then show "within UNIV p" using Atomic.IH [of "Inr (s', p)" "(s', p)" p] by simp
  qed
qed simp

text \<open>Where nobody else has a lock it uses, a thread can go through a disciplined program as if it were alone.\<close>

definition alone :: "'s threads \<Rightarrow> nat \<Rightarrow> lock set \<Rightarrow> lock set \<Rightarrow> bool" where
  "alone t i S H \<longleftrightarrow> (\<forall>l \<in> S. th_holder t l = (if l \<in> H then Some i else None))"

lemma run_reach:
  assumes "disciplined G H p H'" and "within S p" and "th_prog t i = bindP p k" and "alone t i S H"
    and "run p (th_state t) = Inr (x, s')"
  shows "\<exists>t'. locked_reach t t' \<and> th_state t' = s' \<and> alone t' i S H' \<and> th_prog t' = (th_prog t)(i := k x)"
  using assms
proof (induction arbitrary: t rule: disciplined.induct)
  case (ret H y)
  then show ?case by (intro exI [of _ t]) (auto intro: locked_reach.start)
next
  case (lock H l p H')
  let ?t = "set_prog i (bindP p k) (t\<lparr>th_holder := (th_holder t)(l \<mapsto> i)\<rparr>)"
  have "l \<notin> H" using lock.hyps(1) by blast
  then have "locked_step t (Inr ?t)" and "alone ?t i S (insert l H)" and "within S p"
    using lock.prems locked_step.lock [of t i l "bindP p k"] by (auto simp: alone_def)
  moreover have "run p (th_state ?t) = Inr (x, s')" using lock.prems by simp
  ultimately show ?case using lock.IH [of ?t] locked_reach_then by fastforce
next
  case (unlock l H p H')
  let ?t = "set_prog i (bindP p k) (t\<lparr>th_holder := (th_holder t)(l := None)\<rparr>)"
  have "locked_step t (Inr ?t)" and "alone ?t i S (H - {l})" and "within S p"
    using unlock.hyps unlock.prems locked_step.unlock [of t i l "bindP p k"] by (auto simp: alone_def)
  moreover have "run p (th_state ?t) = Inr (x, s')" using unlock.prems by simp
  ultimately show ?case using unlock.IH [of ?t] locked_reach_then by fastforce
next
  case (atomic f H H')
  obtain s p where f: "f (th_state t) = Inr (s, p)" and run: "run p s = Inr (x, s')"
    using atomic.prems(4) by (cases "f (th_state t)") auto
  let ?t = "set_prog i (bindP p k) (t\<lparr>th_state := s\<rparr>)"
  have "locked_step t (Inr ?t)"
    using locked_step.atomic [of t i] atomic.prems(2) f by fastforce
  moreover have "alone ?t i S H" "run p (th_state ?t) = Inr (x, s')" "within S p"
    using atomic.prems(1,3) f run by (auto simp: alone_def)
  moreover have "th_prog ?t i = bindP p k" by simp
  moreover note atomic.IH [OF f, THEN conjunct2, THEN conjunct2, rule_format, of ?t]
  ultimately show ?case using locked_reach_then by fastforce
qed

text \<open>\<open>stands t i H s p t'\<close>: from \<open>t\<close>, thread \<open>i\<close> alone has come to the program \<open>p\<close>, with the locks \<open>H\<close>.\<close>

definition stands :: "'s threads \<Rightarrow> nat \<Rightarrow> lock set \<Rightarrow> 's \<Rightarrow> ('s, unit) prog \<Rightarrow> 's threads \<Rightarrow> bool" where
  "stands t i H s p t' \<longleftrightarrow>
     locked_reach t t' \<and> th_state t' = s \<and> alone t' i UNIV H \<and> th_prog t' = (th_prog t)(i := p)"

lemma stands_start: "th_prog t i = p \<Longrightarrow> th_holder t = (\<lambda>_. None) \<Longrightarrow> th_state t = s \<Longrightarrow> stands t i {} s p t"
  by (auto simp: stands_def alone_def intro: locked_reach.start)

lemma stands_run:
  assumes "stands t i H s p t1" and "p = bindP q k" and "disciplined G H q H'" and "run q s = Inr (x, s')"
  shows "\<exists>t2. stands t i H' s' (k x) t2"
proof -
  have t1: "th_prog t1 i = bindP q k" "run q (th_state t1) = Inr (x, s')" "alone t1 i UNIV H"
    using assms by (simp_all add: stands_def)
  obtain t2 where "locked_reach t1 t2" "th_state t2 = s'" "alone t2 i UNIV H'" "th_prog t2 = (th_prog t1)(i := k x)"
    using run_reach [OF assms(3) within_UNIV t1(1,3,2)] by blast
  then have "stands t i H' s' (k x) t2"
    using assms(1) locked_reach_trans [of t1 t2 t] by (simp add: stands_def)
  then show ?thesis ..
qed

lemma stands_simps:
  "stands t i H s p t' \<Longrightarrow> locked_reach t t'" "stands t i H s p t' \<Longrightarrow> th_state t' = s"
  "stands t i H s p t' \<Longrightarrow> th_prog t' i = p" "stands t i H s p t' \<Longrightarrow> j \<noteq> i \<Longrightarrow> th_prog t' j = th_prog t j"
  "stands t i H s p t' \<Longrightarrow> l \<notin> H \<Longrightarrow> th_holder t' l = None"
  by (simp_all add: stands_def alone_def)

lemma bindP_assoc: "bindP (bindP p k) j = bindP p (\<lambda>x. bindP (k x) j)"
proof (induction p)
  case (Atomic f)
  have "map_sum id (map_prod id (\<lambda>p. bindP p j)) (map_sum id (map_prod id (\<lambda>p. bindP p k)) (f s)) =
      map_sum id (map_prod id (\<lambda>p. bindP p (\<lambda>x. bindP (k x) j))) (f s)" for s
  proof (cases "f s")
    case (Inr r)
    obtain s' p where r: "r = (s', p)" by (cases r)
    have "Inr (s', p) \<in> range f" using Inr r by (metis rangeI)
    then show ?thesis using Atomic.IH [of "Inr (s', p)" "(s', p)" p] by (simp add: Inr r)
  qed simp
  then show ?case by simp
qed simp_all

end
