(* ===== verification/Lock_Logic.thy ===== *)
theory Lock_Logic
  imports Lock_Programs
begin

text \<open>
  A logic for the programs of \<open>Lock_Programs\<close>.  Every thread has auxiliary state that says what it owns at
  the moment (\<open>'g\<close>); a global invariant speaks of the shared state and of what all threads own.  What a
  thread knows between two steps has to be stable: the steps of the others keep what its locks protect
  and what it owns.  A program that is safe in this sense keeps the invariant, at every step of every
  interleaving, and faults only if it is allowed to.
\<close>

section \<open>Safe programs\<close>

text \<open>\<open>pr_same l\<close>: nothing that \<open>l\<close> protects has changed; \<open>pr_keeps g\<close>: nothing has that the owner of \<open>g\<close>
  owns; \<open>pr_idle\<close>: a thread that owns nothing; \<open>pr_faults\<close>: whether steps may find freed memory.\<close>

record ('s, 'g) protocol =
  pr_inv :: "'s \<Rightarrow> (nat \<Rightarrow> 'g) \<Rightarrow> bool"
  pr_same :: "lock \<Rightarrow> 's \<Rightarrow> 's \<Rightarrow> bool"
  pr_keeps :: "'g \<Rightarrow> 's \<Rightarrow> 's \<Rightarrow> bool"
  pr_idle :: 'g
  pr_faults :: bool

definition stable :: "('s, 'g) protocol \<Rightarrow> lock set \<Rightarrow> ('s \<Rightarrow> 'g \<Rightarrow> bool) \<Rightarrow> bool" where
  "stable P H A \<longleftrightarrow>
     (\<forall>s s' G G' i. pr_inv P s G \<longrightarrow> pr_inv P s' G' \<longrightarrow> G' i = G i \<longrightarrow> A s (G i) \<longrightarrow>
        (\<forall>l \<in> H. pr_same P l s s') \<longrightarrow> pr_keeps P (G i) s s' \<longrightarrow> A s' (G i))"

text \<open>\<open>safe P H A p H' Q\<close>: with the locks \<open>H\<close> and what \<open>A\<close> says, the program runs to its end, where it has the
  locks \<open>H'\<close> and \<open>Q\<close> holds for its result.\<close>

inductive safe ::
  "('s, 'g) protocol \<Rightarrow> lock set \<Rightarrow> ('s \<Rightarrow> 'g \<Rightarrow> bool) \<Rightarrow> ('s, 'a) prog \<Rightarrow> lock set \<Rightarrow> ('a \<Rightarrow> 's \<Rightarrow> 'g \<Rightarrow> bool) \<Rightarrow> bool"
  for P where
  ret: "(\<And>s g. A s g \<Longrightarrow> Q x s g) \<Longrightarrow> safe P H A (Return x) H Q"
| lock: "safe P (insert l H) A p H' Q \<Longrightarrow> safe P H A (Emit (Lock l) p) H' Q"
| unlock: "(\<And>s g. A s g \<Longrightarrow> B s g) \<Longrightarrow> stable P (H - {l}) B \<Longrightarrow> safe P (H - {l}) B p H' Q \<Longrightarrow>
    safe P H A (Emit (Unlock l) p) H' Q"
| atomic: "(\<And>s G i. pr_inv P s G \<Longrightarrow> A s (G i) \<Longrightarrow>
      (f s = Inl Use_After_Free \<and> pr_faults P) \<or>
      (\<exists>s' p g B. f s = Inr (s', p) \<and> pr_inv P s' (G(i := g)) \<and> (\<forall>j. j \<noteq> i \<longrightarrow> pr_keeps P (G j) s s') \<and>
        stable P H B \<and> B s' g \<and> safe P H B p H' Q)) \<Longrightarrow>
    safe P H A (Atomic f) H' Q"

inductive_cases safe_ReturnE: "safe P H A (Return x) H' Q"
inductive_cases safe_LockE: "safe P H A (Emit (Lock l) p) H' Q"
inductive_cases safe_UnlockE: "safe P H A (Emit (Unlock l) p) H' Q"
inductive_cases safe_AtomicE: "safe P H A (Atomic f) H' Q"

lemma stable_more: "stable P H A \<Longrightarrow> H \<subseteq> K \<Longrightarrow> stable P K A"
  unfolding stable_def by blast

lemma stable_ghost: "stable P H (\<lambda>s g. A g)"
  by (simp add: stable_def)

lemma stable_conj: "stable P H A \<Longrightarrow> stable P H B \<Longrightarrow> stable P H (\<lambda>s g. A s g \<and> B s g)"
  unfolding stable_def by blast

lemma safe_weaken:
  assumes "safe P H A p H' Q" and "\<And>s g. B s g \<Longrightarrow> A s g" and "\<And>x s g. Q x s g \<Longrightarrow> R x s g"
  shows "safe P H B p H' R"
  using assms
proof (induction arbitrary: B rule: safe.induct)
  case (ret A Q x H)
  then show ?case by (intro safe.ret) blast
next
  case (lock l H A p H' Q)
  then show ?case by (intro safe.lock) blast
next
  case (unlock A C H l p H' Q)
  have "safe P (H - {l}) C p H' R" by (rule unlock.IH) (use unlock.prems in blast)+
  then show ?case using unlock.hyps unlock.prems by (intro safe.unlock [of B C]) blast+
next
  case (atomic A f H H' Q)
  show ?case
  proof (rule safe.atomic)
    fix s G i assume "pr_inv P s G" "B s (G i)"
    then show "(f s = Inl Use_After_Free \<and> pr_faults P) \<or>
      (\<exists>s' p g B. f s = Inr (s', p) \<and> pr_inv P s' (G(i := g)) \<and> (\<forall>j. j \<noteq> i \<longrightarrow> pr_keeps P (G j) s s') \<and>
        stable P H B \<and> B s' g \<and> safe P H B p H' R)"
      using atomic.IH [of s G i] atomic.prems by blast
  qed
qed

lemma safe_bindP:
  assumes "safe P H A p H' Q" and "\<And>x. safe P H' (Q x) (k x) H'' R"
  shows "safe P H A (bindP p k) H'' R"
  using assms
proof (induction rule: safe.induct)
  case (ret A Q x H)
  then show ?case using safe_weaken [of P H "Q x" "k x" H'' R A R] by simp
next
  case (unlock A B H l p H' Q)
  then show ?case by (auto intro: safe.unlock [of A B])
next
  case (atomic A f H H' Q)
  show ?case unfolding bindP.simps
  proof (rule safe.atomic)
    fix s G i assume *: "pr_inv P s G" "A s (G i)"
    from atomic.IH [OF *] atomic.prems
    show "(map_sum id (map_prod id (\<lambda>p. bindP p k)) (f s) = Inl Use_After_Free \<and> pr_faults P) \<or>
      (\<exists>s' q g B. map_sum id (map_prod id (\<lambda>p. bindP p k)) (f s) = Inr (s', q) \<and> pr_inv P s' (G(i := g)) \<and>
        (\<forall>j. j \<noteq> i \<longrightarrow> pr_keeps P (G j) s s') \<and> stable P H B \<and> B s' g \<and> safe P H B q H'' R)"
      by fastforce
  qed
qed (auto intro: safe.lock)

lemma safe_forP:
  assumes "\<And>x. safe P H A (f x) H (\<lambda>_. A)"
  shows "safe P H A (forP f xs) H (\<lambda>_. A)"
proof (induction xs)
  case Nil
  show ?case by (simp add: safe.ret)
next
  case (Cons x xs)
  show ?case unfolding forP.simps by (rule safe_bindP [OF assms Cons.IH])
qed

text \<open>A program that is never run from here is safe.\<close>

lemma safe_false: "disciplined G H p H' \<Longrightarrow> safe P H (\<lambda>s g. False) p H' Q"
proof (induction rule: disciplined.induct)
  case (unlock l H p H')
  then show ?case by (intro safe.unlock [of _ "\<lambda>s g. False"]) (auto simp: stable_def)
next
  case (atomic f H H')
  show ?case by (rule safe.atomic) simp
qed (auto intro: safe.ret safe.lock)

lemma safe_never: "disciplined G H p H' \<Longrightarrow> (\<And>s g. \<not> A s g) \<Longrightarrow> safe P H A p H' Q"
  by (rule safe_weaken [OF safe_false]) auto

text \<open>One rule per construct.\<close>

lemma safe_doP:
  assumes "\<And>s G i. pr_inv P s G \<Longrightarrow> A s (G i) \<Longrightarrow>
      (f s = Inl Use_After_Free \<and> pr_faults P) \<or>
      (\<exists>x s' g. f s = Inr (x, s') \<and> pr_inv P s' (G(i := g)) \<and> (\<forall>j. j \<noteq> i \<longrightarrow> pr_keeps P (G j) s s') \<and> Q x s' g)"
    and "\<And>x. stable P H (Q x)"
  shows "safe P H A (doP f) H Q"
  unfolding doP_def
proof (rule safe.atomic)
  fix s G i assume "pr_inv P s G" "A s (G i)"
  from assms(1) [OF this]
  show "(bindR (f s) (\<lambda>(x, s'). Inr (s', Return x)) = Inl Use_After_Free \<and> pr_faults P) \<or>
      (\<exists>s' p g B. bindR (f s) (\<lambda>(x, s'). Inr (s', Return x)) = Inr (s', p) \<and> pr_inv P s' (G(i := g)) \<and>
        (\<forall>j. j \<noteq> i \<longrightarrow> pr_keeps P (G j) s s') \<and> stable P H B \<and> B s' g \<and> safe P H B p H Q)"
  proof (elim disjE exE conjE)
    fix x s' g
    assume "f s = Inr (x, s')" "pr_inv P s' (G(i := g))" "\<forall>j. j \<noteq> i \<longrightarrow> pr_keeps P (G j) s s'" "Q x s' g"
    then show ?thesis
      using assms(2) [of x] safe.ret [of "Q x" Q x P H] by (intro disjI2 exI [of _ s'] exI [of _ "Return x"] exI [of _ g] exI [of _ "Q x"]) simp
  qed simp
qed

lemma safe_lock:
  "safe P (insert l H) A p H' Q \<Longrightarrow> safe P H A (bindP (lockP l) (\<lambda>_. p)) H' Q"
  by (simp add: lockP_def safe.lock)

lemma safe_unlock:
  "l \<notin> H \<Longrightarrow> stable P H A \<Longrightarrow> safe P H A p H' Q \<Longrightarrow> safe P (insert l H) A (bindP (unlockP l) (\<lambda>_. p)) H' Q"
  by (simp add: unlockP_def safe.unlock [of A A])

lemma safe_unlock_last:
  "l \<notin> H \<Longrightarrow> stable P H A \<Longrightarrow> safe P (insert l H) A (unlockP l) H (\<lambda>_. A)"
  by (simp add: unlockP_def safe.unlock [of A A] safe.ret)

section \<open>Safe threads\<close>

text \<open>\<open>ready\<close>: what a thread knows is stable and enough for what it still has to run; it ends with nothing owned.\<close>

definition ready :: "('s, 'g) protocol \<Rightarrow> lock set \<Rightarrow> 's \<Rightarrow> 'g \<Rightarrow> ('s, unit) prog \<Rightarrow> bool" where
  "ready P H s g p \<longleftrightarrow> (\<exists>A. stable P H A \<and> A s g \<and> safe P H A p {} (\<lambda>_ _ g. g = pr_idle P))"

definition governed :: "('s, 'g) protocol \<Rightarrow> 's threads \<Rightarrow> bool" where
  "governed P t \<longleftrightarrow>
     (\<exists>G. pr_inv P (th_state t) G \<and> (\<forall>i. ready P (holds t i) (th_state t) (G i) (th_prog t i)))"

lemma ready_lock: "ready P H s g (Emit (Lock l) p) \<Longrightarrow> ready P (insert l H) s g p"
  unfolding ready_def by (blast elim: safe_LockE intro: stable_more)

lemma ready_unlock: "ready P H s g (Emit (Unlock l) p) \<Longrightarrow> ready P (H - {l}) s g p"
  unfolding ready_def by (blast elim: safe_UnlockE)

lemma ready_return: "ready P H s g (Return x) \<Longrightarrow> g = pr_idle P"
  unfolding ready_def by (blast elim: safe_ReturnE)

lemma ready_atomic:
  assumes "ready P H s (G i) (Atomic f)" and "pr_inv P s G"
  obtains "f s = Inl Use_After_Free" "pr_faults P"
  | s' p g where "f s = Inr (s', p)" "pr_inv P s' (G(i := g))" "\<And>j. j \<noteq> i \<Longrightarrow> pr_keeps P (G j) s s'" "ready P H s' g p"
proof -
  obtain A where A: "A s (G i)" "safe P H A (Atomic f) {} (\<lambda>_ _ g. g = pr_idle P)"
    using assms(1) by (auto simp: ready_def)
  from A(2) have "(f s = Inl Use_After_Free \<and> pr_faults P) \<or>
      (\<exists>s' p g B. f s = Inr (s', p) \<and> pr_inv P s' (G(i := g)) \<and> (\<forall>j. j \<noteq> i \<longrightarrow> pr_keeps P (G j) s s') \<and>
        stable P H B \<and> B s' g \<and> safe P H B p {} (\<lambda>_ _ g. g = pr_idle P))"
    by (rule safe_AtomicE) (use assms(2) A(1) in blast)
  then show thesis unfolding ready_def using that unfolding ready_def by blast
qed

lemma ready_other:
  assumes "ready P H s (G j) p" and "pr_inv P s G" and "pr_inv P s' G'" and "G' j = G j"
    and "\<And>l. l \<in> H \<Longrightarrow> pr_same P l s s'" and "pr_keeps P (G j) s s'"
  shows "ready P H s' (G' j) p"
proof -
  obtain A where A: "stable P H A" "A s (G j)" "safe P H A p {} (\<lambda>_ _ g. g = pr_idle P)"
    using assms(1) by (auto simp: ready_def)
  then have "A s' (G j)" using assms(2-6) unfolding stable_def by blast
  then show ?thesis using A assms(4) by (auto simp: ready_def)
qed

text \<open>A step keeps the invariant and what every thread knows, or is a fault that is allowed.\<close>

lemma governed_step:
  assumes ord: "orderly may t" and gov: "governed P t" and step: "locked_step t r"
    and may: "\<And>H s s' l. may H s s' \<Longrightarrow> l \<notin> H \<Longrightarrow> pr_same P l s s'"
  shows "(\<exists>t'. r = Inr t' \<and> governed P t') \<or> (r = Inl Use_After_Free \<and> pr_faults P)"
proof -
  obtain G where G: "pr_inv P (th_state t) G" and all: "\<And>i. ready P (holds t i) (th_state t) (G i) (th_prog t i)"
    using gov unfolding governed_def by blast
  from step show ?thesis
  proof cases
    case (lock i l p)
    let ?t = "set_prog i p (t\<lparr>th_holder := (th_holder t)(l \<mapsto> i)\<rparr>)"
    have "holds ?t i = insert l (holds t i)" "\<And>j. j \<noteq> i \<Longrightarrow> holds ?t j = holds t j"
      using lock(3) by (auto simp: holds_def)
    moreover have "ready P (insert l (holds t i)) (th_state t) (G i) p" using all [of i] lock(2) by (intro ready_lock) simp
    ultimately have "governed P ?t" unfolding governed_def using G all by (intro exI [of _ G]) auto
    then show ?thesis using lock(1) by blast
  next
    case (unlock i l p)
    let ?t = "set_prog i p (t\<lparr>th_holder := (th_holder t)(l := None)\<rparr>)"
    have "holds ?t i = holds t i - {l}" "\<And>j. j \<noteq> i \<Longrightarrow> holds ?t j = holds t j"
      using unlock(3) by (auto simp: holds_def)
    moreover have "ready P (holds t i - {l}) (th_state t) (G i) p" using all [of i] unlock(2) by (intro ready_unlock) simp
    ultimately have "governed P ?t" unfolding governed_def using G all by (intro exI [of _ G]) auto
    then show ?thesis using unlock(1) by blast
  next
    case (atomic i f)
    have "ready P (holds t i) (th_state t) (G i) (Atomic f)" using all [of i] atomic(2) by simp
    then show ?thesis
    proof (cases rule: ready_atomic [OF _ G, consumes 1, case_names fault ok])
      case fault
      then show ?thesis using atomic(1) by simp
    next
      case (ok s' p g)
      let ?t = "set_prog i p (t\<lparr>th_state := s'\<rparr>)"
      have holds: "holds ?t = holds t" by (auto simp: holds_def fun_eq_iff)
      have "disciplined may (holds t i) (Atomic f) {}" using ord atomic(2) by (simp add: orderly_def flip: atomic(2))
      then have "may (holds t i) (th_state t) s'" using ok(1) by (auto elim: disciplined_AtomicE)
      then have "pr_same P l (th_state t) s'" if "l \<in> holds t j" "j \<noteq> i" for j l
        using that may by (auto simp: holds_def)
      then have "ready P (holds t j) s' ((G(i := g)) j) (th_prog t j)" if "j \<noteq> i" for j
        using ready_other [OF all [of j] G ok(2)] ok(3) that by simp
      then have "governed P ?t"
        unfolding governed_def holds using ok(2,4) by (intro exI [of _ "G(i := g)"]) auto
      then show ?thesis using atomic(1) ok(1) by auto
    qed
  qed
qed

lemma governed_reach:
  assumes "locked_reach t t'" and "orderly may t" and "governed P t"
    and "\<And>H s s' l. may H s s' \<Longrightarrow> l \<notin> H \<Longrightarrow> pr_same P l s s'"
  shows "governed P t'"
  using assms(1)
proof (induction rule: locked_reach.induct)
  case (step t' t'')
  have "(\<exists>u. Inr t'' = (Inr u :: 'a threads res) \<and> governed P u) \<or> (Inr t'' = (Inl Use_After_Free :: 'a threads res) \<and> pr_faults P)"
    by (rule governed_step [OF orderly_reach [OF step(1) assms(2)] step.IH step(2)]) (rule assms(4))
  then show ?case by simp
qed (rule assms(3))

text \<open>Threads that have returned own nothing.\<close>

lemma governed_owners:
  assumes "governed P t"
  obtains G where "pr_inv P (th_state t) G" and "\<And>i. returned (th_prog t i) \<Longrightarrow> G i = pr_idle P"
proof -
  obtain G where G: "pr_inv P (th_state t) G" and all: "\<And>i. ready P (holds t i) (th_state t) (G i) (th_prog t i)"
    using assms unfolding governed_def by blast
  have "G i = pr_idle P" if "returned (th_prog t i)" for i
    using all [of i] that by (cases "th_prog t i") (auto simp: returned_def dest: ready_return)
  with G show ?thesis by (rule that)
qed

end
