(* ===== verification/Plugin.thy ===== *)
theory Plugin
  imports Event_Listener "HOL-Library.Multiset"
begin

text \<open>
  \<open>plugin.c\<close>: the objects the plugin owns, its reference count, the job that sweeps, and what charon
  calls.  The plugin, its policy engine, allocator and listener are objects of one heap, so that a
  call on an object that has been freed is seen.  The sweep lock makes the sweep and the setting of
  \<open>terminating\<close> exclude each other; between the reads of \<open>terminating\<close> of one run of the job
  anything may happen, so a run is three phases.
\<close>

section \<open>State\<close>

record plugin =
  pl_refcnt :: int
  pl_terminating :: bool
  pl_policy :: "nat option"
  pl_allocator :: "nat option"
  pl_listener :: "nat option"
  pl_policy_path :: string
  pl_pool_name :: string
  pl_lease_timeout :: u32
  pl_sweep_interval :: u32

text \<open>\<open>hp_engine_of\<close> is the engine each allocator borrows, the field \<open>policy\<close> of the allocator.\<close>

record ('u, 's, 'f) heap =
  hp_plugin :: "plugin store"
  hp_policy :: "'f policy_engine store"
  hp_alloc :: "('u, 's) ip_allocator store"
  hp_engine_of :: "nat store"
  hp_listener :: "event_listener store"
  hp_next :: nat

definition upd_plugin :: "nat \<Rightarrow> (plugin \<Rightarrow> plugin) \<Rightarrow> ('u, 's, 'f) heap \<Rightarrow> ('u, 's, 'f) heap res" where
  "upd_plugin this f h = bindR (deref (hp_plugin h) this) (\<lambda>p. Inr (h\<lparr>hp_plugin := (hp_plugin h)(this \<mapsto> f p)\<rparr>))"

section \<open>The reference count\<close>

definition plugin_ref :: "('u, 's, 'f) heap \<Rightarrow> nat \<Rightarrow> ('u, 's, 'f) heap res" where
  "plugin_ref h this = upd_plugin this (\<lambda>p. p\<lparr>pl_refcnt := pl_refcnt p + 1\<rparr>) h"

definition plugin_destroy_internal ::
  "('u, 's, 'f) strongswan \<Rightarrow> ('u, 's, 'f) heap \<Rightarrow> nat \<Rightarrow> ('u, 's, 'f) heap res" where
  "plugin_destroy_internal L h this =
     bindR (deref (hp_plugin h) this) (\<lambda>p.
     bindR (event_listener_destroy (hp_listener h) (pl_listener p)) (\<lambda>listeners.
     bindR (case pl_allocator p of
              None \<Rightarrow> Inr (hp_alloc h)
            | Some a \<Rightarrow>
                bindR (deref (hp_alloc h) a) (\<lambda>al.
                bindR (ip_allocator_destroy L (Some al)) (\<lambda>_. free_obj (hp_alloc h) a))) (\<lambda>allocs.
     bindR (case pl_policy p of
              None \<Rightarrow> Inr (hp_policy h)
            | Some q \<Rightarrow>
                bindR (deref (hp_policy h) q) (\<lambda>pe.
                bindR (policy_engine_destroy pe) (\<lambda>_. free_obj (hp_policy h) q))) (\<lambda>policies.
     bindR (free_obj (hp_plugin h) this) (\<lambda>plugins.
     Inr (h\<lparr>hp_plugin := plugins, hp_policy := policies, hp_alloc := allocs, hp_listener := listeners\<rparr>))))))"

definition plugin_unref ::
  "('u, 's, 'f) strongswan \<Rightarrow> ('u, 's, 'f) heap \<Rightarrow> nat \<Rightarrow> ('u, 's, 'f) heap res" where
  "plugin_unref L h this =
     bindR (upd_plugin this (\<lambda>p. p\<lparr>pl_refcnt := pl_refcnt p - 1\<rparr>) h) (\<lambda>h'.
     bindR (deref (hp_plugin h') this) (\<lambda>p.
     if pl_refcnt p \<le> 0 then plugin_destroy_internal L h' this else Inr h'))"

section \<open>The sweep job\<close>

datatype job_requeue = JOB_REQUEUE_NONE | JOB_RESCHEDULE_MS u32

definition sweep_check :: "('u, 's, 'f) heap \<Rightarrow> nat \<Rightarrow> bool res" where
  "sweep_check h this = bindR (deref (hp_plugin h) this) (\<lambda>p. Inr (pl_terminating p))"

definition sweep_locked ::
  "('u, 's, 'f) strongswan \<Rightarrow> (u32 \<Rightarrow> bool) \<Rightarrow> int \<Rightarrow> ('u, 's, 'f) heap \<Rightarrow> nat \<Rightarrow> ('u, 's, 'f) heap res" where
  "sweep_locked L alive now h this =
     bindR (deref (hp_plugin h) this) (\<lambda>p.
     case pl_allocator p of
       None \<Rightarrow> Inr h
     | Some a \<Rightarrow>
         if pl_terminating p then Inr h
         else bindR (deref (hp_alloc h) a) (\<lambda>al.
              bindR (sweep L alive now al) (\<lambda>al'. Inr (h\<lparr>hp_alloc := (hp_alloc h)(a \<mapsto> al')\<rparr>))))"

definition sweep_requeue :: "('u, 's, 'f) heap \<Rightarrow> nat \<Rightarrow> job_requeue res" where
  "sweep_requeue h this =
     bindR (deref (hp_plugin h) this) (\<lambda>p.
     Inr (if pl_terminating p then JOB_REQUEUE_NONE else JOB_RESCHEDULE_MS (pl_sweep_interval p * 1000)))"

definition plugin_sweep_cb ::
  "('u, 's, 'f) strongswan \<Rightarrow> (u32 \<Rightarrow> bool) \<Rightarrow> int \<Rightarrow> ('u, 's, 'f) heap \<Rightarrow> nat \<Rightarrow>
   (job_requeue \<times> ('u, 's, 'f) heap) res" where
  "plugin_sweep_cb L alive now h this =
     bindR (sweep_check h this) (\<lambda>terminating.
     if terminating then Inr (JOB_REQUEUE_NONE, h)
     else bindR (sweep_locked L alive now h this) (\<lambda>h'.
          bindR (sweep_requeue h' this) (\<lambda>r. Inr (r, h'))))"

definition sweep_cancel :: "('u, 's, 'f) heap \<Rightarrow> nat \<Rightarrow> bool res" where
  "sweep_cancel h this = bindR (deref (hp_plugin h) this) (\<lambda>p. Inr (pl_terminating p))"

definition sweep_cleanup ::
  "('u, 's, 'f) strongswan \<Rightarrow> ('u, 's, 'f) heap \<Rightarrow> nat \<Rightarrow> ('u, 's, 'f) heap res" where
  "sweep_cleanup L h this = plugin_unref L h this"

section \<open>What charon sees\<close>

text \<open>
  The daemon: who is registered as provider of attributes and as listener, the jobs it has not cleaned
  up, each with its context and phase, and what its plugin loader knows: whether it still has the
  plugin, and whether the feature is registered.
\<close>

datatype job_phase = Queued | Entered | Swept | Ending

record ('u, 's, 'f) charon =
  ch_heap :: "('u, 's, 'f) heap"
  ch_providers :: "nat set"
  ch_listeners :: "nat set"
  ch_jobs :: "(nat \<times> job_phase) multiset"
  ch_loaded :: bool
  ch_registered :: bool

definition get_name :: string where "get_name = ''user-policy''"

definition plugin_cb ::
  "('u, 's, 'f) strongswan \<Rightarrow> bool \<Rightarrow> ('u, 's, 'f) charon \<Rightarrow> nat \<Rightarrow> bool \<Rightarrow> (bool \<times> ('u, 's, 'f) charon) res" where
  "plugin_cb L job_ok ch this reg =
     bindR (deref (hp_plugin (ch_heap ch)) this) (\<lambda>p.
     bindR (nonnull (pl_allocator p)) (\<lambda>a.
     bindR (nonnull (pl_listener p)) (\<lambda>l.
     if reg
     then
       bindR (plugin_ref (ch_heap ch) this) (\<lambda>h1.
       let ch1 = ch\<lparr>ch_heap := h1, ch_providers := insert a (ch_providers ch), ch_listeners := insert l (ch_listeners ch)\<rparr> in
       if job_ok then Inr (True, ch1\<lparr>ch_jobs := add_mset (this, Queued) (ch_jobs ch)\<rparr>)
       else bindR (plugin_unref L h1 this) (\<lambda>h2. Inr (True, ch1\<lparr>ch_heap := h2\<rparr>)))
     else
       bindR (upd_plugin this (\<lambda>p. p\<lparr>pl_terminating := True\<rparr>) (ch_heap ch)) (\<lambda>h1.
       Inr (True, ch\<lparr>ch_heap := h1, ch_providers := ch_providers ch - {a}, ch_listeners := ch_listeners ch - {l}\<rparr>)))))"

datatype plugin_feature = PLUGIN_CALLBACK | PLUGIN_PROVIDE_CUSTOM string

definition get_features :: "int \<times> plugin_feature list" where
  "get_features = (let f = [PLUGIN_CALLBACK, PLUGIN_PROVIDE_CUSTOM ''user-policy''] in (int (length f), f))"

text \<open>\<open>reload\<close>: \<open>None\<close> means that the parser never ends.\<close>

definition plugin_reload ::
  "('u, 's, 'f) strongswan \<Rightarrow> (string \<Rightarrow> yaml_file) \<Rightarrow> bool \<Rightarrow> ('u, 's, 'f) heap \<Rightarrow> nat \<Rightarrow>
   (bool \<times> ('u, 's, 'f) heap) res option" where
  "plugin_reload L files calloc_ok h this =
     (case bindR (deref (hp_plugin h) this) (\<lambda>p.
             case pl_policy p of
               None \<Rightarrow> Inr None
             | Some q \<Rightarrow> bindR (deref (hp_policy h) q) (\<lambda>pe. Inr (Some (q, pe)))) of
        Inl e \<Rightarrow> Some (Inl e)
      | Inr None \<Rightarrow> Some (Inr (False, h))
      | Inr (Some (q, pe)) \<Rightarrow>
          map_option (\<lambda>r. bindR r (\<lambda>(ok, pe'). Inr (ok, h\<lparr>hp_policy := (hp_policy h)(q \<mapsto> pe')\<rparr>)))
            (pe_reload L files calloc_ok pe))"

definition plugin_destroy ::
  "('u, 's, 'f) strongswan \<Rightarrow> ('u, 's, 'f) heap \<Rightarrow> nat \<Rightarrow> ('u, 's, 'f) heap res" where
  "plugin_destroy L h this = plugin_unref L h this"

section \<open>Configuration and construction\<close>

text \<open>\<open>lib->ns\<close> and \<open>lib->settings\<close>, which answers with the default when a key is not set.\<close>

record settings =
  st_ns :: string
  st_get_str :: "string \<Rightarrow> string \<Rightarrow> string"
  st_get_int :: "string \<Rightarrow> int \<Rightarrow> int"

definition settings_key :: "settings \<Rightarrow> string \<Rightarrow> string" where
  "settings_key st key = snprintf_s 128 (cstr (st_ns st) @ ''.plugins.user-policy.'' @ key)"

definition settings_get_str :: "settings \<Rightarrow> string \<Rightarrow> string \<Rightarrow> string" where
  "settings_get_str st key def = st_get_str st key def"

definition settings_get_int :: "settings \<Rightarrow> string \<Rightarrow> u32 \<Rightarrow> u32" where
  "settings_get_int st key def = word_of_int (st_get_int st key (sint def))"

text \<open>The answers of \<open>calloc\<close> during the construction.\<close>

record plugin_memory =
  ok_snapshot :: bool
  ok_engine :: bool
  ok_allocator :: bool
  ok_bitmap :: bool
  ok_listener :: bool

definition init_plugin :: "settings \<Rightarrow> plugin" where
  "init_plugin st =
     \<lparr>pl_refcnt = 1, pl_terminating = False, pl_policy = None, pl_allocator = None, pl_listener = None,
      pl_policy_path = settings_get_str st (settings_key st ''policy'') ''/etc/strongswan/cupp/policy.yaml'',
      pl_pool_name = settings_get_str st (settings_key st ''pool_name'') ''cupp'',
      pl_lease_timeout = settings_get_int st (settings_key st ''lease_timeout'') 3600,
      pl_sweep_interval = settings_get_int st (settings_key st ''sweep_interval'') 60\<rparr>"

definition abort_load ::
  "('u, 's, 'f) strongswan \<Rightarrow> ('u, 's, 'f) heap \<Rightarrow> nat \<Rightarrow> (nat option \<times> ('u, 's, 'f) heap) res" where
  "abort_load L h this = bindR (plugin_destroy_internal L h this) (\<lambda>h'. Inr (None, h'))"

text \<open>The construction after the policy engine has been created.\<close>

definition create_with_policy ::
  "('u, 's, 'f) strongswan \<Rightarrow> plugin_memory \<Rightarrow> plugin \<Rightarrow> 'f policy_engine \<Rightarrow> ('u, 's, 'f) heap \<Rightarrow> nat \<Rightarrow>
   (nat option \<times> ('u, 's, 'f) heap) res" where
  "create_with_policy L m p pe h this =
     (let q = hp_next h; p1 = p\<lparr>pl_policy := Some q\<rparr>;
          h1 = h\<lparr>hp_policy := (hp_policy h)(q \<mapsto> pe), hp_plugin := (hp_plugin h)(this \<mapsto> p1), hp_next := Suc q\<rparr> in
      bindR (ip_allocator_create L (ok_allocator m) (ok_bitmap m) (Some pe) (Some (pl_pool_name p)) (pl_lease_timeout p)) (\<lambda>created.
      case created of
        None \<Rightarrow> abort_load L h1 this
      | Some al \<Rightarrow>
          let a = hp_next h1; p2 = p1\<lparr>pl_allocator := Some a\<rparr>;
              h2 = h1\<lparr>hp_alloc := (hp_alloc h1)(a \<mapsto> al), hp_engine_of := (hp_engine_of h1)(a \<mapsto> q),
                      hp_plugin := (hp_plugin h1)(this \<mapsto> p2), hp_next := Suc a\<rparr> in
          (case event_listener_create (ok_listener m) (Some a) of
             None \<Rightarrow> abort_load L h2 this
           | Some el \<Rightarrow>
               let l = hp_next h2; p3 = p2\<lparr>pl_listener := Some l\<rparr> in
               Inr (Some this, h2\<lparr>hp_listener := (hp_listener h2)(l \<mapsto> el),
                 hp_plugin := (hp_plugin h2)(this \<mapsto> p3), hp_next := Suc l\<rparr>))))"

definition user_policy_plugin_create ::
  "('u, 's, 'f) strongswan \<Rightarrow> (string \<Rightarrow> yaml_file) \<Rightarrow> settings \<Rightarrow> plugin_memory \<Rightarrow> ('u, 's, 'f) heap \<Rightarrow>
   (nat option \<times> ('u, 's, 'f) heap) res option" where
  "user_policy_plugin_create L files st m h =
     (let this = hp_next h; p = init_plugin st;
          h0 = h\<lparr>hp_plugin := (hp_plugin h)(this \<mapsto> p), hp_next := Suc this\<rparr> in
      map_option (\<lambda>policy.
        case policy of
          None \<Rightarrow> abort_load L h0 this
        | Some pe \<Rightarrow> create_with_policy L m p pe h0 this)
      (policy_engine_create L files (ok_snapshot m) (ok_engine m) (Some (pl_policy_path p))))"

end
