(* ===== verification/Locked_Calls.thy ===== *)
theory Locked_Calls
  imports Lock_Programs Plugin
begin

text \<open>
  The calls with their locks, step by step as in the code: every \<open>pthread_mutex_lock\<close> and \<open>unlock\<close>, on every
  way out of a function, and the checkout of an IKE_SA by the sweep.  Run alone, each is the function
  of the component's theory; the discipline of \<open>Lock_Programs\<close> is proved for what the threads of charon
  run.
\<close>

section \<open>The shared state\<close>

text \<open>\<open>sh_alive\<close>: the ids of the IKE_SAs that charon has at the moment.\<close>

record ('u, 's, 'f) shared =
  sh_al :: "('u, 's) ip_allocator"
  sh_pe :: "'f policy_engine"
  sh_alive :: "u32 \<Rightarrow> bool"
  sh_terminating :: bool
  sh_refcnt :: int

definition on_al ::
  "(('u, 's) ip_allocator \<Rightarrow> ('a \<times> ('u, 's) ip_allocator) res) \<Rightarrow> (('u, 's, 'f) shared, 'a) prog" where
  "on_al f = doP (\<lambda>sh. bindR (f (sh_al sh)) (\<lambda>(x, al). Inr (x, sh\<lparr>sh_al := al\<rparr>)))"

definition on_sessions ::
  "(('u, 's) session_manager \<Rightarrow> ('a \<times> ('u, 's) session_manager) res) \<Rightarrow> (('u, 's, 'f) shared, 'a) prog" where
  "on_sessions f = on_al (\<lambda>al. bindR (f (al_sessions al)) (\<lambda>(x, sm). Inr (x, al\<lparr>al_sessions := sm\<rparr>)))"

definition on_pool ::
  "'a \<Rightarrow> (dynamic_pool \<Rightarrow> ('a \<times> dynamic_pool) res) \<Rightarrow> (('u, 's, 'f) shared, 'a) prog" where
  "on_pool x f = on_al (\<lambda>al. case al_dyn al of None \<Rightarrow> Inr (x, al)
     | Some d \<Rightarrow> bindR (f d) (\<lambda>(y, d'). Inr (y, al\<lparr>al_dyn := Some d'\<rparr>)))"

text \<open>Reading a lease through a pointer.\<close>

definition read_lease :: "nat \<Rightarrow> (('u, 's, 'f) shared, lease) prog" where
  "read_lease p = on_sessions (\<lambda>sm. bindR (deref (sm_heap sm) p) (\<lambda>l. Inr (l, sm)))"

section \<open>The lease table\<close>

definition bind_lease_p ::
  "('u, 's, 'f) strongswan \<Rightarrow> memory \<Rightarrow> int \<Rightarrow> string option \<Rightarrow> u32 \<Rightarrow> host option \<Rightarrow> bool \<Rightarrow>
   (('u, 's, 'f) shared, nat option) prog" where
  "bind_lease_p L m now username unique_id ip fixed =
     (case username of
        None \<Rightarrow> Return None
      | Some u \<Rightarrow>
          bindP (lockP Sessions_Mutex) (\<lambda>_.
          bindP (on_sessions (\<lambda>sm. bindR (evict L sm u) (\<lambda>sm'. Inr ((), sm')))) (\<lambda>_.
          bindP (on_sessions (\<lambda>sm. Inr (lease_create (ok_lease_malloc m) (ok_lease_strdup m) now sm u unique_id ip fixed))) (\<lambda>lease.
          case lease of
            None \<Rightarrow> bindP (unlockP Sessions_Mutex) (\<lambda>_. Return None)
          | Some p \<Rightarrow>
              bindP (on_sessions (\<lambda>sm.
                bindR (deref (sm_heap sm) p) (\<lambda>l.
                bindR (nonnull (le_username l)) (\<lambda>name.
                Inr ((), sm\<lparr>sm_by_uid := fst (ht_put (uid_ht L) (sm_by_uid sm) (uid_key unique_id) p),
                            sm_by_user := fst (ht_put (user_ht L) (sm_by_user sm) name p)\<rparr>))))) (\<lambda>_.
              bindP (unlockP Sessions_Mutex) (\<lambda>_. Return (Some p)))))))"

definition migrate_p ::
  "('u, 's, 'f) strongswan \<Rightarrow> int \<Rightarrow> string option \<Rightarrow> u32 \<Rightarrow> (('u, 's, 'f) shared, nat option) prog" where
  "migrate_p L now username new_unique_id =
     (case username of
        None \<Rightarrow> Return None
      | Some u \<Rightarrow>
          bindP (lockP Sessions_Mutex) (\<lambda>_.
          bindP (on_sessions (\<lambda>sm. migrate L now sm (Some u) new_unique_id)) (\<lambda>lease.
          bindP (unlockP Sessions_Mutex) (\<lambda>_. Return lease))))"

definition lookup_by_user_p ::
  "('u, 's, 'f) strongswan \<Rightarrow> string option \<Rightarrow> (('u, 's, 'f) shared, nat option) prog" where
  "lookup_by_user_p L username =
     (case username of
        None \<Rightarrow> Return None
      | Some u \<Rightarrow>
          bindP (lockP Sessions_Mutex) (\<lambda>_.
          bindP (getP (\<lambda>sh. lookup_by_user L (al_sessions (sh_al sh)) (Some u))) (\<lambda>lease.
          bindP (unlockP Sessions_Mutex) (\<lambda>_. Return lease))))"

definition unbind_p :: "('u, 's, 'f) strongswan \<Rightarrow> u32 \<Rightarrow> (('u, 's, 'f) shared, nat option) prog" where
  "unbind_p L unique_id =
     bindP (lockP Sessions_Mutex) (\<lambda>_.
     bindP (on_sessions (\<lambda>sm. unbind L sm unique_id)) (\<lambda>lease.
     bindP (unlockP Sessions_Mutex) (\<lambda>_. Return lease)))"

definition foreach_expiring_p ::
  "('u, 's, 'f) strongswan \<Rightarrow> int \<Rightarrow> u32 \<Rightarrow> (nat \<Rightarrow> (('u, 's, 'f) shared, unit) prog) \<Rightarrow> (('u, 's, 'f) shared, unit) prog" where
  "foreach_expiring_p L now timeout cb =
     bindP (lockP Sessions_Mutex) (\<lambda>_.
     bindP (on_sessions (\<lambda>sm. bindR (expiring L sm now timeout) (\<lambda>ps. Inr (ps, sm)))) (\<lambda>snapshot.
     bindP (unlockP Sessions_Mutex) (\<lambda>_. forP cb snapshot)))"

section \<open>The dynamic pool\<close>

definition dp_acquire_p :: "('u, 's, 'f) strongswan \<Rightarrow> (('u, 's, 'f) shared, host option) prog" where
  "dp_acquire_p L =
     bindP (lockP Pool_Mutex) (\<lambda>_.
     bindP (on_pool None (dp_acquire L)) (\<lambda>result.
     bindP (unlockP Pool_Mutex) (\<lambda>_. Return result)))"

text \<open>\<open>release\<close> takes the mutex only for an address of the pool.\<close>

definition dp_release_p :: "host option \<Rightarrow> (('u, 's, 'f) shared, unit) prog" where
  "dp_release_p ip =
     bindP (getP (\<lambda>sh. case al_dyn (sh_al sh) of None \<Rightarrow> False | Some d \<Rightarrow> dp_is_in_pool d ip)) (\<lambda>inside.
     if \<not> inside then Return ()
     else
       bindP (lockP Pool_Mutex) (\<lambda>_.
       bindP (on_pool () (\<lambda>d. bindR (dp_release d ip) (\<lambda>d'. Inr ((), d')))) (\<lambda>_.
       unlockP Pool_Mutex)))"

section \<open>The allocator\<close>

definition release_by_uid_impl_p :: "('u, 's, 'f) strongswan \<Rightarrow> u32 \<Rightarrow> (('u, 's, 'f) shared, bool) prog" where
  "release_by_uid_impl_p L uid =
     bindP (lockP Alloc_Lock) (\<lambda>_.
     bindP (unbind_p L uid) (\<lambda>lease.
     bindP (unlockP Alloc_Lock) (\<lambda>_.
     case lease of
       None \<Rightarrow> Return False
     | Some p \<Rightarrow>
         bindP (read_lease p) (\<lambda>l.
         bindP (getP (\<lambda>sh. al_dyn (sh_al sh) \<noteq> None)) (\<lambda>dyn.
         bindP (if \<not> le_fixed l \<and> dyn \<and> le_ip l \<noteq> None then dp_release_p (le_ip l) else Return ()) (\<lambda>_.
         bindP (on_sessions (\<lambda>sm. bindR (lease_destroy sm (Some p)) (\<lambda>sm'. Inr ((), sm')))) (\<lambda>_.
         Return True)))))))"

text \<open>The policy is read without a lock.\<close>

definition lookup_fixed_p ::
  "('u, 's, 'f) strongswan \<Rightarrow> memory \<Rightarrow> string \<Rightarrow> (('u, 's, 'f) shared, host option) prog" where
  "lookup_fixed_p L m username =
     (if is_anon username then Return None
      else
        bindP (doP (\<lambda>sh. bindR (pe_lookup_fixed L (sh_pe sh) (Some username)) (\<lambda>b. Inr (b, sh)))) (\<lambda>fixed_src.
        case fixed_src of
          None \<Rightarrow> Return None
        | Some b \<Rightarrow>
            bindP (doP (\<lambda>sh. bindR (borrow_clone (sh_pe sh) b) (\<lambda>h. Inr (h, sh)))) (\<lambda>h.
            Return (if ok_fixed_clone m then Some h else None))))"

definition choose_ip_p ::
  "('u, 's, 'f) strongswan \<Rightarrow> memory \<Rightarrow> string \<Rightarrow> (('u, 's, 'f) shared, host option \<times> bool) prog" where
  "choose_ip_p L m username =
     bindP (lookup_fixed_p L m username) (\<lambda>ip.
     case ip of
       Some h \<Rightarrow> Return (Some h, True)
     | None \<Rightarrow>
         bindP (getP (\<lambda>sh. al_dyn (sh_al sh) \<noteq> None)) (\<lambda>dyn.
         if dyn then bindP (dp_acquire_p L) (\<lambda>ip. Return (ip, False)) else Return (None, False)))"

text \<open>\<open>acquire_address\<close> from the lock of the allocator on: it is given back on each of the five ways out.\<close>

definition acquire_locked_p ::
  "('u, 's, 'f) strongswan \<Rightarrow> memory \<Rightarrow> int \<Rightarrow> string \<Rightarrow> u32 \<Rightarrow> (('u, 's, 'f) shared, host option) prog" where
  "acquire_locked_p L m now username uid =
     bindP (lockP Alloc_Lock) (\<lambda>_.
     bindP (lookup_by_user_p L (Some username)) (\<lambda>lease.
     case lease of
       Some p \<Rightarrow>
         bindP (migrate_p L now (Some username) uid) (\<lambda>_.
         bindP (read_lease p) (\<lambda>l.
         bindP (doP (\<lambda>sh. bindR (nonnull (le_ip l)) (\<lambda>h. Inr (if ok_result_clone m then Some h else None, sh)))) (\<lambda>result.
         bindP (unlockP Alloc_Lock) (\<lambda>_. Return result))))
     | None \<Rightarrow>
         bindP (choose_ip_p L m username) (\<lambda>(ip, is_fixed).
         case ip of
           None \<Rightarrow> bindP (unlockP Alloc_Lock) (\<lambda>_. Return None)
         | Some _ \<Rightarrow>
             bindP (bind_lease_p L m now (Some username) uid ip is_fixed) (\<lambda>lease.
             case lease of
               None \<Rightarrow> bindP (unlockP Alloc_Lock) (\<lambda>_. Return None)
             | Some p \<Rightarrow>
                 bindP (read_lease p) (\<lambda>l.
                 bindP (doP (\<lambda>sh. bindR (nonnull (le_ip l)) (\<lambda>h. Inr (if ok_result_clone m then Some h else None, sh)))) (\<lambda>result.
                 case result of
                   None \<Rightarrow>
                     bindP (unlockP Alloc_Lock) (\<lambda>_.
                     bindP (release_by_uid_impl_p L uid) (\<lambda>_. Return None))
                 | Some h \<Rightarrow> bindP (unlockP Alloc_Lock) (\<lambda>_. Return (Some h))))))))"

definition acquire_address_p ::
  "('u, 's, 'f) strongswan \<Rightarrow> memory \<Rightarrow> int \<Rightarrow> string option list option \<Rightarrow> ike_sa option \<Rightarrow> host option \<Rightarrow>
   (('u, 's, 'f) shared, host option) prog" where
  "acquire_address_p L m now pools sa requested =
     bindP (getP (\<lambda>sh. pools_include (sh_al sh) pools)) (\<lambda>included.
     case sa of
       None \<Rightarrow> Return None
     | Some s \<Rightarrow>
         if \<not> included then Return None
         else
           (case acquire_username m s of
              None \<Rightarrow> Return None
            | Some username \<Rightarrow> acquire_locked_p L m now username (sa_unique_id s)))"

definition release_address_p :: "('u, 's, 'f) strongswan \<Rightarrow> ike_sa option \<Rightarrow> (('u, 's, 'f) shared, bool) prog" where
  "release_address_p L sa =
     (case sa of None \<Rightarrow> Return False | Some s \<Rightarrow> release_by_uid_impl_p L (sa_unique_id s))"

definition ike_updown_p :: "('u, 's, 'f) strongswan \<Rightarrow> ike_sa option \<Rightarrow> bool \<Rightarrow> (('u, 's, 'f) shared, bool) prog" where
  "ike_updown_p L sa up =
     (case sa of
        None \<Rightarrow> Return True
      | Some s \<Rightarrow>
          if up then Return True
          else bindP (release_by_uid_impl_p L (sa_unique_id s)) (\<lambda>_. Return True))"
section \<open>The sweep, the plugin and the reload\<close>

text \<open>\<open>checkout_by_id\<close> waits until no other thread has the IKE_SA, and finds nothing if it has vanished
  meanwhile.\<close>

definition checkout_p :: "u32 \<Rightarrow> (('u, 's, 'f) shared, bool) prog" where
  "checkout_p w =
     bindP (getP (\<lambda>sh. sh_alive sh w)) (\<lambda>there.
     if \<not> there then Return False
     else
       bindP (lockP (Ike_Sa w)) (\<lambda>_.
       bindP (getP (\<lambda>sh. sh_alive sh w)) (\<lambda>still.
       bindP (unlockP (Ike_Sa w)) (\<lambda>_. Return still))))"

definition sweep_cb_p :: "('u, 's, 'f) strongswan \<Rightarrow> nat \<Rightarrow> (('u, 's, 'f) shared, unit) prog" where
  "sweep_cb_p L lease =
     bindP (read_lease lease) (\<lambda>l.
     bindP (checkout_p (le_unique_id l)) (\<lambda>found.
     if found then Return ()
     else
       bindP (read_lease lease) (\<lambda>l.
       bindP (release_by_uid_impl_p L (le_unique_id l)) (\<lambda>_. Return ()))))"

definition sweep_p :: "('u, 's, 'f) strongswan \<Rightarrow> int \<Rightarrow> (('u, 's, 'f) shared, unit) prog" where
  "sweep_p L now =
     bindP (getP (\<lambda>sh. al_lease_timeout (sh_al sh))) (\<lambda>timeout. foreach_expiring_p L now timeout (sweep_cb_p L))"

text \<open>The callback of the job: the sweep is made under \<open>sweep_lock\<close>.\<close>

definition plugin_sweep_cb_p ::
  "('u, 's, 'f) strongswan \<Rightarrow> int \<Rightarrow> u32 \<Rightarrow> (('u, 's, 'f) shared, job_requeue) prog" where
  "plugin_sweep_cb_p L now interval =
     bindP (getP sh_terminating) (\<lambda>terminating.
     if terminating then Return JOB_REQUEUE_NONE
     else
       bindP (lockP Sweep_Lock) (\<lambda>_.
       bindP (getP sh_terminating) (\<lambda>terminating.
       bindP (if \<not> terminating then sweep_p L now else Return ()) (\<lambda>_.
       bindP (unlockP Sweep_Lock) (\<lambda>_.
       bindP (getP sh_terminating) (\<lambda>terminating.
       Return (if terminating then JOB_REQUEUE_NONE else JOB_RESCHEDULE_MS (interval * 1000))))))))"

text \<open>Unregistering the feature, as far as it takes a lock.\<close>

definition unregister_p :: "(('u, 's, 'f) shared, unit) prog" where
  "unregister_p =
     bindP (lockP Sweep_Lock) (\<lambda>_.
     bindP (doP (\<lambda>sh. Inr ((), sh\<lparr>sh_terminating := True\<rparr>))) (\<lambda>_.
     unlockP Sweep_Lock))"

text \<open>The count of references; the result says whether the last one is gone.\<close>

definition plugin_ref_p :: "(('u, 's, 'f) shared, unit) prog" where
  "plugin_ref_p =
     bindP (lockP Ref_Lock) (\<lambda>_.
     bindP (doP (\<lambda>sh. Inr ((), sh\<lparr>sh_refcnt := sh_refcnt sh + 1\<rparr>))) (\<lambda>_.
     unlockP Ref_Lock))"

definition plugin_unref_p :: "(('u, 's, 'f) shared, bool) prog" where
  "plugin_unref_p =
     bindP (lockP Ref_Lock) (\<lambda>_.
     bindP (doP (\<lambda>sh. Inr (sh_refcnt sh - 1 \<le> 0, sh\<lparr>sh_refcnt := sh_refcnt sh - 1\<rparr>))) (\<lambda>last.
     bindP (unlockP Ref_Lock) (\<lambda>_. Return last)))"

text \<open>\<open>reload\<close>; \<open>loaded\<close> is the answer of \<open>snapshot_load\<close>.  The old snapshot is destroyed after the unlock.\<close>

definition reload_p :: "'f snapshot option \<Rightarrow> (('u, 's, 'f) shared, bool) prog" where
  "reload_p loaded =
     bindP (lockP Reload_Lock) (\<lambda>_.
     case loaded of
       None \<Rightarrow> bindP (unlockP Reload_Lock) (\<lambda>_. Return False)
     | Some fresh \<Rightarrow>
         bindP (doP (\<lambda>sh. let (old, pe) = pe_swap (sh_pe sh) fresh in Inr (old, sh\<lparr>sh_pe := pe\<rparr>))) (\<lambda>old.
         bindP (unlockP Reload_Lock) (\<lambda>_.
         bindP (doP (\<lambda>sh. bindR (snapshot_destroy (sh_pe sh) old) (\<lambda>pe. Inr ((), sh\<lparr>sh_pe := pe\<rparr>)))) (\<lambda>_.
         Return True))))"

section \<open>Run alone, the programs are the functions\<close>

lemma run_on_al [run_simps]: "run (on_al f) sh = bindR (f (sh_al sh)) (\<lambda>(x, al). Inr (x, sh\<lparr>sh_al := al\<rparr>))"
  by (simp add: on_al_def run_simps)

lemma run_on_sessions [run_simps]:
  "run (on_sessions f) sh =
    bindR (f (al_sessions (sh_al sh))) (\<lambda>(x, sm). Inr (x, sh\<lparr>sh_al := (sh_al sh)\<lparr>al_sessions := sm\<rparr>\<rparr>))"
  by (cases "f (al_sessions (sh_al sh))") (auto simp: on_sessions_def run_simps)

lemma run_on_pool [run_simps]:
  "run (on_pool x f) sh = (case al_dyn (sh_al sh) of None \<Rightarrow> Inr (x, sh)
     | Some d \<Rightarrow> bindR (f d) (\<lambda>(y, d'). Inr (y, sh\<lparr>sh_al := (sh_al sh)\<lparr>al_dyn := Some d'\<rparr>\<rparr>)))"
  by (cases "al_dyn (sh_al sh)"; simp add: on_pool_def run_simps; cases "f (the (al_dyn (sh_al sh)))") auto

lemma run_read_lease [run_simps]:
  "run (read_lease p) sh = bindR (deref (sm_heap (al_sessions (sh_al sh))) p) (\<lambda>l. Inr (l, sh))"
  by (cases "deref (sm_heap (al_sessions (sh_al sh))) p") (simp_all add: read_lease_def run_simps)

lemma run_lookup_by_user_p [run_simps]:
  "run (lookup_by_user_p L u) sh = Inr (lookup_by_user L (al_sessions (sh_al sh)) u, sh)"
  by (cases u) (simp_all add: lookup_by_user_p_def lookup_by_user_def run_simps)

lemma run_migrate_p [run_simps]:
  "run (migrate_p L now u w) sh = bindR (migrate L now (al_sessions (sh_al sh)) u w) (\<lambda>(x, sm).
    Inr (x, sh\<lparr>sh_al := (sh_al sh)\<lparr>al_sessions := sm\<rparr>\<rparr>))"
proof (cases u)
  case None
  then show ?thesis by (simp add: migrate_p_def migrate_def run_simps)
next
  case (Some a)
  then show ?thesis
    by (cases "migrate L now (al_sessions (sh_al sh)) (Some a) w") (auto simp: migrate_p_def run_simps)
qed

lemma run_unbind_p [run_simps]:
  "run (unbind_p L w) sh = bindR (unbind L (al_sessions (sh_al sh)) w) (\<lambda>(x, sm).
    Inr (x, sh\<lparr>sh_al := (sh_al sh)\<lparr>al_sessions := sm\<rparr>\<rparr>))"
  by (cases "unbind L (al_sessions (sh_al sh)) w") (auto simp: unbind_p_def run_simps)

lemma run_bind_lease_p [run_simps]:
  "run (bind_lease_p L m now u w ip fixed) sh =
    bindR (bind_lease L (ok_lease_malloc m) (ok_lease_strdup m) now (al_sessions (sh_al sh)) u w ip fixed) (\<lambda>(x, sm).
    Inr (x, sh\<lparr>sh_al := (sh_al sh)\<lparr>al_sessions := sm\<rparr>\<rparr>))"
proof (cases u)
  case None
  then show ?thesis by (simp add: bind_lease_p_def bind_lease_def run_simps)
next
  case (Some a)
  show ?thesis
  proof (cases "evict L (al_sessions (sh_al sh)) a")
    case (Inr sm)
    obtain r sm' where created: "lease_create (ok_lease_malloc m) (ok_lease_strdup m) now sm a w ip fixed = (r, sm')"
      by fastforce
    show ?thesis
    proof (cases r)
      case None
      then show ?thesis using Inr created by (simp add: Some bind_lease_p_def bind_lease_def run_simps)
    next
      case (Some p)
      then show ?thesis
        using Inr created
        by (cases "sm_heap sm' p") (simp_all add: \<open>u = Some a\<close> bind_lease_p_def bind_lease_def run_simps store_simps bindR_assoc)
    qed
  qed (simp add: Some bind_lease_p_def bind_lease_def run_simps)
qed

lemma run_dp_acquire_p [run_simps]:
  "run (dp_acquire_p L) sh = (case al_dyn (sh_al sh) of None \<Rightarrow> Inr (None, sh)
     | Some d \<Rightarrow> bindR (dp_acquire L d) (\<lambda>(ip, d'). Inr (ip, sh\<lparr>sh_al := (sh_al sh)\<lparr>al_dyn := Some d'\<rparr>\<rparr>)))"
proof (cases "al_dyn (sh_al sh)")
  case (Some d)
  then show ?thesis by (cases "dp_acquire L d") (auto simp: dp_acquire_p_def run_simps)
qed (simp add: dp_acquire_p_def run_simps)

lemma dp_release_outside: "\<not> dp_is_in_pool d ip \<Longrightarrow> dp_release d ip = Inr d"
  by (auto simp: dp_is_in_pool_def dp_release_def Let_def not_le split: option.splits)

lemma sh_same: "al_dyn (sh_al sh) = dyn \<Longrightarrow> sh\<lparr>sh_al := (sh_al sh)\<lparr>al_dyn := dyn\<rparr>\<rparr> = sh"
  by (cases sh; cases "sh_al sh") simp

lemma run_dp_release_p [run_simps]:
  "run (dp_release_p ip) sh = (case al_dyn (sh_al sh) of None \<Rightarrow> Inr ((), sh)
     | Some d \<Rightarrow> bindR (dp_release d ip) (\<lambda>d'. Inr ((), sh\<lparr>sh_al := (sh_al sh)\<lparr>al_dyn := Some d'\<rparr>\<rparr>)))"
proof (cases "al_dyn (sh_al sh)")
  case (Some d)
  show ?thesis
  proof (cases "dp_is_in_pool d ip")
    case True
    then show ?thesis using Some by (cases "dp_release d ip") (auto simp: dp_release_p_def run_simps)
  next
    case False
    then show ?thesis
      using Some dp_release_outside [OF False] by (simp add: dp_release_p_def run_simps sh_same)
  qed
qed (simp add: dp_release_p_def run_simps)

lemma run_release_by_uid_impl_p [run_simps]:
  "run (release_by_uid_impl_p L w) sh =
    bindR (release_by_uid_impl L (sh_al sh) w) (\<lambda>(b, al). Inr (b, sh\<lparr>sh_al := al\<rparr>))"
proof (cases "unbind L (al_sessions (sh_al sh)) w")
  case (Inr r)
  obtain h sm where r: "r = (h, sm)" by fastforce
  show ?thesis
  proof (cases h)
    case None
    then show ?thesis using Inr r by (simp add: release_by_uid_impl_p_def release_by_uid_impl_def run_simps)
  next
    case (Some p)
    show ?thesis
    proof (cases "sm_heap sm p")
      case None
      then show ?thesis
        using Inr r Some by (simp add: release_by_uid_impl_p_def release_by_uid_impl_def run_simps store_simps)
    next
      case l: (Some l)
      show ?thesis
        using Inr r Some l
        by (cases "al_dyn (sh_al sh)"; cases "le_fixed l"; cases "le_ip l"; cases "dp_release (the (al_dyn (sh_al sh))) (le_ip l)")
          (auto simp: release_by_uid_impl_p_def release_by_uid_impl_def run_simps store_simps lease_destroy_def al_same_dyn)
    qed
  qed
qed (simp add: release_by_uid_impl_p_def release_by_uid_impl_def run_simps)

lemma run_lookup_fixed_p [run_simps]:
  "run (lookup_fixed_p L m u) sh =
    bindR (if is_anon u then Inr None
           else bindR (pe_lookup_fixed L (sh_pe sh) (Some u)) (\<lambda>fixed_src.
             case fixed_src of
               None \<Rightarrow> Inr None
             | Some b \<Rightarrow> bindR (borrow_clone (sh_pe sh) b) (\<lambda>h. Inr (if ok_fixed_clone m then Some h else None))))
      (\<lambda>ip. Inr (ip, sh))"
proof (cases "is_anon u")
  case False
  show ?thesis
  proof (cases "pe_lookup_fixed L (sh_pe sh) (Some u)")
    case (Inr b)
    then show ?thesis
      using False by (cases b) (simp_all add: lookup_fixed_p_def run_simps bindR_assoc)
  qed (simp add: lookup_fixed_p_def run_simps False)
qed (simp add: lookup_fixed_p_def run_simps)

lemma run_choose_ip_p [run_simps]:
  "run (choose_ip_p L m u) sh =
    bindR (choose_ip L m (sh_pe sh) (sh_al sh) u) (\<lambda>(ip, fixed, al). Inr ((ip, fixed), sh\<lparr>sh_al := al\<rparr>))"
proof -
  let ?X = "if is_anon u then Inr None
           else bindR (pe_lookup_fixed L (sh_pe sh) (Some u)) (\<lambda>fixed_src.
             case fixed_src of
               None \<Rightarrow> Inr None
             | Some b \<Rightarrow> bindR (borrow_clone (sh_pe sh) b) (\<lambda>h. Inr (if ok_fixed_clone m then Some h else None)))"
  have looked: "run (lookup_fixed_p L m u) sh = bindR ?X (\<lambda>ip. Inr (ip, sh))" by (rule run_lookup_fixed_p)
  show ?thesis
  proof (cases ?X)
    case (Inl e)
    show ?thesis unfolding choose_ip_def choose_ip_p_def run_bindP looked Inl by simp
  next
    case (Inr ip)
    then have ip: "run (lookup_fixed_p L m u) sh = Inr (ip, sh)" "?X = Inr ip" unfolding looked by simp_all
    show ?thesis
    proof (cases ip)
      case (Some h)
      then show ?thesis unfolding choose_ip_def ip(2) by (simp add: choose_ip_p_def run_bindP ip(1) run_basic)
    next
      case None
      show ?thesis
      proof (cases "al_dyn (sh_al sh)")
        case no: None
        then show ?thesis unfolding choose_ip_def ip(2) by (simp add: choose_ip_p_def run_bindP ip(1) run_basic None)
      next
        case d: (Some d)
        then show ?thesis
          unfolding choose_ip_def ip(2)
          by (cases "dp_acquire L d") (auto simp: choose_ip_p_def run_bindP ip(1) run_basic run_dp_acquire_p None)
      qed
    qed
  qed
qed

text \<open>The rollback of a failed copy is part of the program.\<close>

definition finish_acquire ::
  "('u, 's, 'f) strongswan \<Rightarrow> u32 \<Rightarrow> host option \<times> bool \<times> ('u, 's) ip_allocator \<Rightarrow> (host option \<times> ('u, 's) ip_allocator) res" where
  "finish_acquire L w = (\<lambda>(result, rollback, al).
     if rollback then bindR (release_by_uid_impl L al w) (\<lambda>(_, al'). Inr (None, al')) else Inr (result, al))"

lemma run_acquire_locked_p [run_simps]:
  "run (acquire_locked_p L m now u w) sh =
    bindR (bindR (acquire_locked L m now (sh_pe sh) (sh_al sh) u w) (finish_acquire L w)) (\<lambda>(r, al). Inr (r, sh\<lparr>sh_al := al\<rparr>))"
proof (cases "lookup_by_user L (al_sessions (sh_al sh)) (Some u)")
  case (Some p)
  show ?thesis
  proof (cases "migrate L now (al_sessions (sh_al sh)) (Some u) w")
    case (Inr r)
    obtain x sm where "r = (x, sm)" by fastforce
    then show ?thesis
      using Some Inr
      by (cases "sm_heap sm p"; cases "nonnull (le_ip (the (sm_heap sm p)))")
        (auto simp: acquire_locked_p_def acquire_locked_def finish_acquire_def run_simps store_simps)
  qed (simp add: acquire_locked_p_def acquire_locked_def run_simps Some)
next
  case None
  show ?thesis
  proof (cases "choose_ip L m (sh_pe sh) (sh_al sh) u")
    case (Inr c)
    obtain ip fixed al where c: "c = (ip, fixed, al)" by (cases c)
    show ?thesis
    proof (cases ip)
      case noip: None
      then show ?thesis
        using None Inr c by (simp add: acquire_locked_p_def acquire_locked_def finish_acquire_def run_simps)
    next
      case (Some h)
      show ?thesis
      proof (cases "bind_lease L (ok_lease_malloc m) (ok_lease_strdup m) now (al_sessions al) (Some u) w ip fixed")
        case b: (Inr b)
        obtain lease sm where "b = (lease, sm)" by fastforce
        then show ?thesis
          using None Inr c Some b
          by (cases lease; cases "sm_heap sm (the lease)"; cases "nonnull (le_ip (the (sm_heap sm (the lease))))";
              cases "release_by_uid_impl L (al\<lparr>al_sessions := sm\<rparr>) w")
            (auto simp: acquire_locked_p_def acquire_locked_def finish_acquire_def run_simps store_simps)
      qed (simp add: acquire_locked_p_def acquire_locked_def run_simps None Inr c Some)
    qed
  qed (simp add: acquire_locked_p_def acquire_locked_def run_simps None)
qed

lemma run_acquire_address_p [run_simps]:
  "run (acquire_address_p L m now pools sa requested) sh =
    bindR (acquire_address L m now (sh_pe sh) (sh_al sh) pools sa requested) (\<lambda>(r, al). Inr (r, sh\<lparr>sh_al := al\<rparr>))"
  by (auto simp: acquire_address_p_def acquire_address_def run_simps finish_acquire_def split: option.split)

lemma run_release_address_p [run_simps]:
  "run (release_address_p L sa) sh =
    bindR (release_address L (sh_al sh) pools address sa) (\<lambda>(b, al). Inr (b, sh\<lparr>sh_al := al\<rparr>))"
  by (cases sa) (simp_all add: release_address_p_def release_address_def run_simps)

lemma run_ike_updown_p:
  "run (ike_updown_p L sa up) sh =
    bindR (ike_updown L [a \<mapsto> sh_al sh] \<lparr>el_allocator = a\<rparr> sa up) (\<lambda>(b, als). Inr (b, sh\<lparr>sh_al := the (als a)\<rparr>))"
proof (cases sa)
  case (Some s)
  then show ?thesis
    by (cases "release_by_uid_impl L (sh_al sh) (sa_unique_id s)")
      (auto simp: ike_updown_p_def ike_updown_def release_by_uid_def run_simps store_simps)
qed (simp add: ike_updown_p_def ike_updown_def run_simps)

lemma run_sweep_cb_p:
  "run (sweep_cb_p L p) sh = bindR (sweep_cb L (sh_alive sh) p (sh_al sh)) (\<lambda>al. Inr ((), sh\<lparr>sh_al := al\<rparr>))"
proof (cases "sm_heap (al_sessions (sh_al sh)) p")
  case (Some l)
  then show ?thesis
    by (cases "release_by_uid_impl L (sh_al sh) (le_unique_id l)")
      (auto simp: sweep_cb_p_def checkout_p_def sweep_cb_def run_simps store_simps)
qed (simp add: sweep_cb_p_def sweep_cb_def run_simps store_simps)

lemma run_forP:
  assumes "\<And>x sh. run (f x) sh = bindR (g (sh_alive sh) x (sh_al sh)) (\<lambda>al. Inr ((), sh\<lparr>sh_al := al\<rparr>))"
  shows "run (forP f xs) sh = bindR (foldR (g (sh_alive sh)) xs (sh_al sh)) (\<lambda>al. Inr ((), sh\<lparr>sh_al := al\<rparr>))"
proof (induction xs arbitrary: sh)
  case (Cons x xs)
  then show ?case by (cases "g (sh_alive sh) x (sh_al sh)") (simp_all add: run_simps assms)
qed (simp add: run_simps)

lemma run_sweep_p [run_simps]:
  "run (sweep_p L now) sh = bindR (sweep L (sh_alive sh) now (sh_al sh)) (\<lambda>al. Inr ((), sh\<lparr>sh_al := al\<rparr>))"
  using run_forP [of "sweep_cb_p L" "sweep_cb L", OF run_sweep_cb_p]
  by (cases "expiring L (al_sessions (sh_al sh)) now (al_lease_timeout (sh_al sh))")
    (simp_all add: sweep_p_def sweep_def foreach_expiring_p_def foreach_expiring_def run_simps)

lemma run_reload_p:
  assumes "snapshot_load L files ok (pe_path (sh_pe sh)) = Some loaded"
  shows "Some (run (reload_p loaded) sh) =
    map_option (\<lambda>r. bindR r (\<lambda>(b, pe). Inr (b, sh\<lparr>sh_pe := pe\<rparr>))) (pe_reload L files ok (sh_pe sh))"
proof (cases loaded)
  case (Some fresh)
  obtain old pe where "pe_swap (sh_pe sh) fresh = (old, pe)" by fastforce
  then show ?thesis
    using assms Some by (cases "snapshot_destroy pe old") (simp_all add: pe_reload_def reload_p_def run_simps)
qed (use assms in \<open>simp add: pe_reload_def reload_p_def run_simps\<close>)

lemma run_plugin_sweep_cb_p:
  assumes "hp_plugin h this = Some p" and "pl_allocator p = Some a" and "hp_alloc h a = Some (sh_al sh)"
    and "pl_terminating p = sh_terminating sh"
  shows "plugin_sweep_cb L (sh_alive sh) now h this =
    bindR (run (plugin_sweep_cb_p L now (pl_sweep_interval p)) sh) (\<lambda>(r, sh').
      Inr (r, if sh_terminating sh then h else h\<lparr>hp_alloc := (hp_alloc h)(a \<mapsto> sh_al sh')\<rparr>))"
  using assms
  by (cases "sweep L (sh_alive sh) now (sh_al sh)")
    (auto simp: plugin_sweep_cb_p_def plugin_sweep_cb_def sweep_check_def sweep_locked_def sweep_requeue_def run_simps store_simps)

section \<open>The discipline of the calls\<close>

text \<open>What a lock protects: the two indexes of the lease table and the leases in it belong to the lock of
  the allocator and to the mutex of the table alike (a lease that is unlinked may be freed without), the
  bitmap to the mutex of the pool, the policy in force to the lock of the reload, the count to its own,
  the flag \<open>terminating\<close> to the lock of the sweep.\<close>

definition same_table :: "('u, 's) session_manager \<Rightarrow> ('u, 's) session_manager \<Rightarrow> bool" where
  "same_table sm sm' \<longleftrightarrow> sm_by_uid sm' = sm_by_uid sm \<and> sm_by_user sm' = sm_by_user sm \<and>
     (\<forall>p l. sm_heap sm' p = Some l \<longrightarrow> sm_heap sm p = Some l)"

definition unchanged :: "lock \<Rightarrow> ('u, 's, 'f) shared \<Rightarrow> ('u, 's, 'f) shared \<Rightarrow> bool" where
  "unchanged l sh sh' =
     (case l of
        Sweep_Lock \<Rightarrow> sh_terminating sh' = sh_terminating sh
      | Ike_Sa w \<Rightarrow> sh_alive sh' w = sh_alive sh w
      | Alloc_Lock \<Rightarrow> same_table (al_sessions (sh_al sh)) (al_sessions (sh_al sh'))
      | Sessions_Mutex \<Rightarrow> same_table (al_sessions (sh_al sh)) (al_sessions (sh_al sh'))
      | Pool_Mutex \<Rightarrow> al_dyn (sh_al sh') = al_dyn (sh_al sh)
      | Reload_Lock \<Rightarrow> pe_active (sh_pe sh') = pe_active (sh_pe sh)
      | Ref_Lock \<Rightarrow> sh_refcnt sh' = sh_refcnt sh)"

definition protects :: "lock set \<Rightarrow> ('u, 's, 'f) shared \<Rightarrow> ('u, 's, 'f) shared \<Rightarrow> bool" where
  "protects H sh sh' \<longleftrightarrow> (\<forall>l. l \<notin> H \<longrightarrow> unchanged l sh sh')"

lemma same_table_refl [simp]: "same_table sm sm"
  by (simp add: same_table_def)

lemma unchanged_refl [simp]: "unchanged l sh sh"
  by (simp add: unchanged_def split: lock.split)

lemma protects_refl [simp]: "protects H sh sh"
  by (simp add: protects_def)

lemma protects_iff:
  "protects H sh sh' \<longleftrightarrow> (Sweep_Lock \<in> H \<or> sh_terminating sh' = sh_terminating sh) \<and>
     (\<forall>w. Ike_Sa w \<in> H \<or> sh_alive sh' w = sh_alive sh w) \<and>
     (Alloc_Lock \<in> H \<and> Sessions_Mutex \<in> H \<or> same_table (al_sessions (sh_al sh)) (al_sessions (sh_al sh'))) \<and>
     (Pool_Mutex \<in> H \<or> al_dyn (sh_al sh') = al_dyn (sh_al sh)) \<and>
     (Reload_Lock \<in> H \<or> pe_active (sh_pe sh') = pe_active (sh_pe sh)) \<and>
     (Ref_Lock \<in> H \<or> sh_refcnt sh' = sh_refcnt sh)"
proof -
  have all: "(\<forall>l. Q l) \<longleftrightarrow> Q Sweep_Lock \<and> (\<forall>w. Q (Ike_Sa w)) \<and> Q Alloc_Lock \<and> Q Sessions_Mutex \<and> Q Pool_Mutex \<and>
      Q Reload_Lock \<and> Q Ref_Lock" for Q :: "lock \<Rightarrow> bool"
    by (metis lock.exhaust)
  show ?thesis by (auto simp: protects_def all unchanged_def)
qed

definition below :: "nat \<Rightarrow> lock set \<Rightarrow> bool" where
  "below r H \<longleftrightarrow> (\<forall>k \<in> H. lock_rank k < r)"

lemma below_insert [simp]: "below r (insert l H) \<longleftrightarrow> lock_rank l < r \<and> below r H"
  by (simp add: below_def)

lemma below_empty [simp]: "below r {}"
  by (simp add: below_def)

lemma below_mono: "below r H \<Longrightarrow> r \<le> r' \<Longrightarrow> below r' H"
  unfolding below_def using less_le_trans by blast

lemma below_fresh: "below (lock_rank l) H \<Longrightarrow> insert l H - {l} = H"
  by (auto simp: below_def)

text \<open>Taking a lock, giving it back on one of the ways out, and what leaves the locks alone.\<close>

lemma locked_then [locks]:
  "below (lock_rank l) H \<Longrightarrow> disciplined protects (insert l H) p H' \<Longrightarrow> disciplined protects H (bindP (lockP l) (\<lambda>_. p)) H'"
  by (rule disciplined_bindP [OF disciplined_lockP]) (auto simp: below_def)

lemma unlocked_then [locks]:
  "below (lock_rank l) H \<Longrightarrow> disciplined protects H p H' \<Longrightarrow> disciplined protects (insert l H) (bindP (unlockP l) (\<lambda>_. p)) H'"
  using disciplined_bindP [OF disciplined_unlockP [of l "insert l H"], where k = "\<lambda>_. p" and H'' = H'] below_fresh [of l H] by simp

lemma unlocked_last [locks]: "below (lock_rank l) H \<Longrightarrow> disciplined protects (insert l H) (unlockP l) H"
  using disciplined_unlockP [of l "insert l H"] below_fresh [of l H] by simp

lemma return_disciplined [locks]: "disciplined protects H (Return x) H"
  by (rule disciplined.ret)

text \<open>A step on the shared state: it reads, or it has the locks of what it changes.\<close>

lemma step_disciplined:
  "(\<And>sh x sh'. f sh = Inr (x, sh') \<Longrightarrow> protects H sh sh') \<Longrightarrow> disciplined protects H (doP f) H"
  "disciplined protects H (getP g) H"
  "disciplined protects H (doP (\<lambda>sh. bindR (q sh) (\<lambda>y. Inr (k sh y, sh)))) H"
  by (rule disciplined_doP, blast) (rule disciplined_getP disciplined_doP; auto simp: res_iff)+

lemma sessions_disciplined:
  assumes "Alloc_Lock \<in> H \<and> Sessions_Mutex \<in> H \<or> (\<forall>sm x sm'. i sm = Inr (x, sm') \<longrightarrow> same_table sm sm')"
  shows "disciplined protects H (on_sessions i) H"
  unfolding on_sessions_def on_al_def using assms
  by (intro step_disciplined(1)) (auto simp: res_iff protects_iff)

lemma read_disciplined: "disciplined protects H (read_lease p) H"
  unfolding read_lease_def by (rule sessions_disciplined) (auto simp: res_iff)

lemma destroy_disciplined:
  "disciplined protects H (on_sessions (\<lambda>sm. bindR (lease_destroy sm (Some p)) (\<lambda>sm'. Inr ((), sm')))) H"
  by (rule sessions_disciplined) (auto simp: res_iff lease_destroy_def same_table_def free_obj_def split: option.splits if_splits)

lemma expiring_disciplined:
  "disciplined protects H (on_sessions (\<lambda>sm. bindR (expiring L sm now t) (\<lambda>ps. Inr (ps, sm)))) H"
  by (rule sessions_disciplined) (auto simp: res_iff)

lemma table_disciplined:
  "Alloc_Lock \<in> H \<Longrightarrow> Sessions_Mutex \<in> H \<Longrightarrow> disciplined protects H (on_sessions i) H"
  by (rule sessions_disciplined) simp

lemma pool_disciplined: "Pool_Mutex \<in> H \<Longrightarrow> disciplined protects H (on_pool x j) H"
  unfolding on_pool_def on_al_def
  by (intro step_disciplined(1)) (auto simp: res_iff protects_iff split: option.splits)

lemmas neutral_then [locks] = step_disciplined(2,3) [THEN disciplined_bindP] read_disciplined [THEN disciplined_bindP]
  pool_disciplined [THEN disciplined_bindP]

lemmas table_then = table_disciplined [THEN disciplined_bindP]
lemmas lease_then = destroy_disciplined [THEN disciplined_bindP] expiring_disciplined [THEN disciplined_bindP]
lemmas write_then = step_disciplined(1) [THEN disciplined_bindP]

lemma if_then [locks]:
  "(c \<Longrightarrow> disciplined protects H (bindP p k) H') \<Longrightarrow> (\<not> c \<Longrightarrow> disciplined protects H (bindP q k) H') \<Longrightarrow>
    disciplined protects H (bindP (if c then p else q) k) H'"
  by simp

text \<open>The methods that take a mutex of rank 3.\<close>

lemma table_methods_disciplined:
  assumes "below 3 H" and "Alloc_Lock \<in> H"
  shows bind_lease_disciplined: "disciplined protects H (bind_lease_p L m now u w ip fixed) H"
    and migrate_disciplined: "disciplined protects H (migrate_p L now u w) H"
    and unbind_disciplined: "disciplined protects H (unbind_p L w) H"
  using assms
  by (auto intro!: locks table_then split: option.split simp: bind_lease_p_def migrate_p_def unbind_p_def)

lemma leaf_disciplined:
  assumes "below 3 H"
  shows lookup_disciplined: "disciplined protects H (lookup_by_user_p L u) H"
    and dp_acquire_disciplined: "disciplined protects H (dp_acquire_p L) H"
    and dp_release_disciplined: "disciplined protects H (dp_release_p ip) H"
    and reload_disciplined: "disciplined protects H (reload_p loaded) H"
    and plugin_ref_disciplined: "disciplined protects H plugin_ref_p H"
    and plugin_unref_disciplined: "disciplined protects H plugin_unref_p H"
  using assms
  by (auto intro!: locks write_then split: option.split option.splits simp: lookup_by_user_p_def dp_acquire_p_def dp_release_p_def
      reload_p_def plugin_ref_p_def plugin_unref_p_def protects_iff pe_swap_def snapshot_destroy_def res_iff)

lemma lookup_fixed_disciplined: "disciplined protects H (lookup_fixed_p L m u) H"
  by (auto intro!: locks split: option.split simp: lookup_fixed_p_def)

text \<open>Such a method inside a longer program.\<close>

lemmas leaf_then [locks] = table_methods_disciplined [THEN disciplined_bindP] leaf_disciplined [THEN disciplined_bindP]
  lookup_fixed_disciplined [THEN disciplined_bindP]

lemma below_3 [simp]: "below 2 H \<Longrightarrow> below 3 H" "below 1 H \<Longrightarrow> below 2 H" "below 1 H \<Longrightarrow> below 3 H"
  by (erule below_mono, simp)+

lemma release_disciplined: "below 2 H \<Longrightarrow> disciplined protects H (release_by_uid_impl_p L w) H"
  by (auto intro!: locks lease_then split: option.split simp: release_by_uid_impl_p_def)

lemma choose_disciplined: "below 3 H \<Longrightarrow> disciplined protects H (choose_ip_p L m u) H"
  by (auto intro!: locks split: option.split simp: choose_ip_p_def)

lemmas allocator_then [locks] = release_disciplined [THEN disciplined_bindP] choose_disciplined [THEN disciplined_bindP]

lemma acquire_disciplined: "below 2 H \<Longrightarrow> disciplined protects H (acquire_address_p L m now pools sa requested) H"
  by (auto intro!: locks split: option.split prod.split simp: acquire_address_p_def acquire_locked_p_def)

lemma release_address_disciplined: "below 2 H \<Longrightarrow> disciplined protects H (release_address_p L sa) H"
  by (auto intro!: locks release_disciplined split: option.split simp: release_address_p_def)

lemma updown_disciplined: "below 2 H \<Longrightarrow> disciplined protects H (ike_updown_p L sa up) H"
  by (auto intro!: locks split: option.split simp: ike_updown_p_def)

lemma checkout_disciplined: "below 1 H \<Longrightarrow> disciplined protects H (checkout_p w) H"
  by (auto intro!: locks simp: checkout_p_def)

lemmas checkout_then [locks] = checkout_disciplined [THEN disciplined_bindP]

lemma sweep_disciplined: "below 1 H \<Longrightarrow> disciplined protects H (sweep_p L now) H"
  by (auto intro!: locks lease_then disciplined_forP split: option.split simp: sweep_p_def foreach_expiring_p_def sweep_cb_p_def)

lemmas sweep_then [locks] = sweep_disciplined [THEN disciplined_bindP]

lemma sweep_job_disciplined: "disciplined protects {} (plugin_sweep_cb_p L now interval) {}"
  by (auto intro!: locks simp: plugin_sweep_cb_p_def)

lemma unregister_disciplined: "disciplined protects {} unregister_p {}"
  by (auto intro!: locks write_then simp: unregister_p_def protects_iff)

end
