(* ===== verification/Address_Service.thy ===== *)
theory Address_Service
  imports Ip_Allocator
begin

text \<open>
  What the allocator promises under concurrent calls, without threads, locks, tables or bitmaps: the
  leases of the users, the index of the ids, the addresses of the pool and those that are on their way
  back.  Each call takes effect in one step.  \<open>Allocator_Race\<close> shows that every phase of the code is a
  step of this service or none.
\<close>

record service =
  sv_leases :: "string \<Rightarrow> lease option"
  sv_index :: "u32 \<Rightarrow> string option"
  sv_returning :: "u32 set"
  sv_pool :: "u32 set"

text \<open>The addresses nobody has: not leased and not on their way back.\<close>

definition sv_free :: "service \<Rightarrow> u32 set" where
  "sv_free v = sv_pool v - ran (dynamic (sv_leases v)) - sv_returning v"

definition sv_table :: "service \<Rightarrow> lease_spec" where
  "sv_table v = (sv_leases v, sv_index v)"

definition sv_put :: "service \<Rightarrow> lease_spec \<Rightarrow> service" where
  "sv_put v a = v\<lparr>sv_leases := fst a, sv_index := snd a\<rparr>"

text \<open>\<open>policies\<close> are the functions that say which fixed address a user has.  A user without a lease gets
  the address of such a policy, or the lowest free address of the pool, which may also happen to a user
  with a fixed address when memory is short.\<close>

inductive service_step :: "(string \<Rightarrow> host option) set \<Rightarrow> service \<Rightarrow> service \<Rightarrow> bool" for policies where
  idle: "service_step policies v v"
| renew: "sv_leases v u = Some l \<Longrightarrow>
    service_step policies v (sv_put v (snd (spec_migrate u w now (sv_table v))))"
| grant_fixed: "sv_leases v u = None \<Longrightarrow> P \<in> policies \<Longrightarrow> P u = Some h \<Longrightarrow>
    service_step policies v (sv_put v (snd (spec_bind u w (Some h) True now (sv_table v))))"
| grant_dynamic: "sv_leases v u = None \<Longrightarrow> h_family h = AF_INET \<Longrightarrow> host_to_u32 h \<in> sv_free v \<Longrightarrow>
    (\<And>b. b \<in> sv_free v \<Longrightarrow> host_to_u32 h \<le> b) \<Longrightarrow>
    service_step policies v (sv_put v (snd (spec_bind u w (Some h) False now (sv_table v))))"
| release: "sv_index v w = Some u \<Longrightarrow> sv_leases v u = Some l \<Longrightarrow>
    service_step policies v
      ((sv_put v (snd (spec_unbind w (sv_table v))))\<lparr>sv_returning := sv_returning v \<union> set_option (dyn_addr l)\<rparr>)"
| settle: "a \<in> sv_returning v \<Longrightarrow> service_step policies v (v\<lparr>sv_returning := sv_returning v - {a}\<rparr>)"

inductive service_reach :: "(string \<Rightarrow> host option) set \<Rightarrow> service \<Rightarrow> service \<Rightarrow> bool" for policies v where
  start: "service_reach policies v v"
| step: "service_reach policies v v' \<Longrightarrow> service_step policies v' v'' \<Longrightarrow> service_reach policies v v''"

text \<open>The promise: no address is leased twice or leased while it is on its way back, and the leases are of
  the pool.\<close>

definition service_ok :: "service \<Rightarrow> bool" where
  "service_ok v \<longleftrightarrow>
     inj_on (dynamic (sv_leases v)) (dom (dynamic (sv_leases v))) \<and>
     ran (dynamic (sv_leases v)) \<inter> sv_returning v = {} \<and> ran (dynamic (sv_leases v)) \<union> sv_returning v \<subseteq> sv_pool v"

lemma sv_put_simps [simp]:
  "sv_leases (sv_put v a) = fst a" "sv_index (sv_put v a) = snd a"
  "sv_returning (sv_put v a) = sv_returning v" "sv_pool (sv_put v a) = sv_pool v"
  "fst (sv_table v) = sv_leases v" "snd (sv_table v) = sv_index v"
  by (simp_all add: sv_put_def sv_table_def)

lemma service_pool_step: "service_step policies v v' \<Longrightarrow> sv_pool v' = sv_pool v"
  by (induction rule: service_step.induct) simp_all

lemma service_ok_step:
  assumes "service_step policies v v'" and ok: "service_ok v"
  shows "service_ok v'"
  using assms(1)
proof cases
  case idle
  then show ?thesis using ok by simp
next
  case (renew u l w now)
  then have "dynamic (sv_leases v') = dynamic (sv_leases v)"
    by (auto simp: spec_migrate_def Let_def dynamic_def fun_eq_iff)
  then show ?thesis using ok renew(1) by (simp add: service_ok_def)
next
  case (grant_fixed u P h w now)
  then have "dynamic (sv_leases v') = dynamic (sv_leases v)"
    by (auto simp: spec_bind_def Let_def dynamic_def dyn_addr_def fun_eq_iff)
  then show ?thesis using ok grant_fixed(1) by (simp add: service_ok_def)
next
  case (grant_dynamic u h w now)
  have none: "dynamic (sv_leases v) u = None" using grant_dynamic(2) by (simp add: dynamic_def)
  have "dynamic (sv_leases v') = (dynamic (sv_leases v))(u \<mapsto> host_to_u32 h)"
    by (simp add: grant_dynamic(1) spec_bind_def Let_def dynamic_upd dyn_addr_def)
  then show ?thesis
    using ok grant_dynamic(1,4) ran_insert [of "dynamic (sv_leases v)" u, OF none] inj_on_insert [of "dynamic (sv_leases v)" "host_to_u32 h" u]
    by (auto simp: service_ok_def sv_free_def)
next
  case (release w u l)
  have d: "dynamic (sv_leases v) u = dyn_addr l" using release(3) by (simp add: dynamic_def)
  have inj: "inj_on (dynamic (sv_leases v)) (dom (dynamic (sv_leases v)))" using ok by (simp add: service_ok_def)
  have leases: "dynamic (sv_leases v') = (dynamic (sv_leases v))(u := None)"
    using release(2) by (simp add: release(1) spec_unbind_def dynamic_upd)
  have "ran (dynamic (sv_leases v')) = ran (dynamic (sv_leases v)) - set_option (dyn_addr l)"
    unfolding leases using ran_delete [OF inj, of u] d by (cases "dyn_addr l") auto
  moreover have "set_option (dyn_addr l) \<subseteq> ran (dynamic (sv_leases v))"
    using d ranI [of "dynamic (sv_leases v)" u] by (cases "dyn_addr l") auto
  ultimately show ?thesis
    using ok inj_on_delete [OF inj, of u] unfolding service_ok_def leases by (auto simp: release(1))
next
  case (settle a)
  then show ?thesis using ok by (auto simp: service_ok_def)
qed

lemma service_reach_ok:
  assumes "service_reach policies v v'" and "service_ok v"
  shows "service_ok v' \<and> sv_pool v' = sv_pool v"
  using assms(1) by induction (use assms(2) service_ok_step service_pool_step in \<open>auto\<close>)

end
