(* ===== verification/Allocator_Race.thy ===== *)
theory Allocator_Race
  imports Address_Service
begin

text \<open>
  The allocator under concurrent calls.  \<open>release_by_uid_impl\<close> holds the allocator's lock only while it
  unbinds the lease; clearing the bit of the pool and destroying the lease come after it.  The sweep
  holds no lock between taking its snapshot of pointers and using them.  A thread is therefore a
  sequence of phases, and between two phases of one thread any phase of another may run.  The part of
  \<open>acquire_address\<close> under the lock is one phase: it is atomic against everything that takes the lock,
  and what other threads do outside the lock, clearing bits and freeing detached leases, commutes with
  it.  Threads are numbered; one that does nothing is \<open>Running []\<close>.
\<close>

section \<open>The phases of a release\<close>

definition unlink_phase ::
  "('u, 's, 'f) strongswan \<Rightarrow> ('u, 's) ip_allocator \<Rightarrow> u32 \<Rightarrow> (nat option \<times> ('u, 's) ip_allocator) res" where
  "unlink_phase L al uid = bindR (unbind L (al_sessions al) uid) (\<lambda>(lease, sm). Inr (lease, al\<lparr>al_sessions := sm\<rparr>))"

definition clear_phase :: "('u, 's) ip_allocator \<Rightarrow> nat \<Rightarrow> ('u, 's) ip_allocator res" where
  "clear_phase al p =
     bindR (deref (sm_heap (al_sessions al)) p) (\<lambda>l.
     case al_dyn al of
       None \<Rightarrow> Inr al
     | Some d \<Rightarrow>
         if \<not> le_fixed l \<and> le_ip l \<noteq> None
         then bindR (dp_release d (le_ip l)) (\<lambda>d'. Inr (al\<lparr>al_dyn := Some d'\<rparr>))
         else Inr al)"

definition destroy_phase :: "('u, 's) ip_allocator \<Rightarrow> nat \<Rightarrow> ('u, 's) ip_allocator res" where
  "destroy_phase al p = bindR (lease_destroy (al_sessions al) (Some p)) (\<lambda>sm. Inr (al\<lparr>al_sessions := sm\<rparr>))"

text \<open>Run one after the other, they are the release.\<close>

lemma release_phases:
  "release_by_uid_impl L al uid =
     bindR (unlink_phase L al uid) (\<lambda>(lease, al1).
     case lease of
       None \<Rightarrow> Inr (False, al1)
     | Some p \<Rightarrow> bindR (clear_phase al1 p) (\<lambda>al2. bindR (destroy_phase al2 p) (\<lambda>al3. Inr (True, al3))))"
proof (cases "unbind L (al_sessions al) uid")
  case (Inr r)
  obtain h sm where r: "r = (h, sm)" by fastforce
  have rest: "bindR (deref (sm_heap sm) p) (\<lambda>l.
         bindR (case al_dyn al of
                  None \<Rightarrow> Inr None
                | Some d \<Rightarrow>
                    if \<not> le_fixed l \<and> le_ip l \<noteq> None
                    then bindR (dp_release d (le_ip l)) (\<lambda>d'. Inr (Some d'))
                    else Inr (Some d)) (\<lambda>dyn.
         bindR (lease_destroy sm (Some p)) (\<lambda>sm'.
         Inr (True, al\<lparr>al_dyn := dyn, al_sessions := sm'\<rparr>)))) =
       bindR (clear_phase (al\<lparr>al_sessions := sm\<rparr>) p) (\<lambda>al2. bindR (destroy_phase al2 p) (\<lambda>al3. Inr (True, al3)))" for p
    by (cases "deref (sm_heap sm) p"; cases "al_dyn al")
      (simp_all add: clear_phase_def destroy_phase_def bindR_assoc al_same_dyn)
  show ?thesis
    by (cases h) (simp_all add: Inr r release_by_uid_impl_def unlink_phase_def rest)
qed (simp add: release_by_uid_impl_def unlink_phase_def)

section \<open>Threads\<close>

text \<open>
  The list is what is left of the snapshot of a sweep.  \<open>Checked\<close>: \<open>sweep_cb\<close> found no IKE_SA for the
  lease.  \<open>Calling\<close>: about to unbind an id.  \<open>Unlinked\<close>, \<open>Cleared\<close>: the lease is taken out, its bit is
  still set, or no longer.
\<close>

datatype thread =
    Running "nat list"
  | Checked nat "nat list"
  | Calling u32 "nat list"
  | Unlinked nat "nat list"
  | Cleared nat "nat list"

record ('u, 's) system =
  sy_al :: "('u, 's) ip_allocator"
  sy_threads :: "nat \<Rightarrow> thread"

definition set_thread :: "nat \<Rightarrow> thread \<Rightarrow> ('u, 's) system \<Rightarrow> ('u, 's) system" where
  "set_thread i t s = s\<lparr>sy_threads := (sy_threads s)(i := t)\<rparr>"

definition all_idle :: "nat \<Rightarrow> thread" where
  "all_idle = (\<lambda>_. Running [])"

text \<open>One phase of a thread.  \<open>alive\<close> is what \<open>checkout_by_id\<close> finds at that moment.\<close>

definition advance ::
  "('u, 's, 'f) strongswan \<Rightarrow> (u32 \<Rightarrow> bool) \<Rightarrow> nat \<Rightarrow> ('u, 's) system \<Rightarrow> ('u, 's) system res" where
  "advance L alive i s =
     (let al = sy_al s; h = sm_heap (al_sessions al) in
      case sy_threads s i of
        Running [] \<Rightarrow> Inr s
      | Running (p # ps) \<Rightarrow>
          bindR (deref h p) (\<lambda>l.
            Inr (set_thread i (if alive (le_unique_id l) then Running ps else Checked p ps) s))
      | Checked p ps \<Rightarrow> bindR (deref h p) (\<lambda>l. Inr (set_thread i (Calling (le_unique_id l) ps) s))
      | Calling w ps \<Rightarrow>
          bindR (unlink_phase L al w) (\<lambda>(lease, al').
            Inr (set_thread i (case lease of None \<Rightarrow> Running ps | Some p \<Rightarrow> Unlinked p ps) (s\<lparr>sy_al := al'\<rparr>)))
      | Unlinked p ps \<Rightarrow> bindR (clear_phase al p) (\<lambda>al'. Inr (set_thread i (Cleared p ps) (s\<lparr>sy_al := al'\<rparr>)))
      | Cleared p ps \<Rightarrow> bindR (destroy_phase al p) (\<lambda>al'. Inr (set_thread i (Running ps) (s\<lparr>sy_al := al'\<rparr>))))"

inductive thread_step :: "('u, 's, 'f) strongswan \<Rightarrow> ('u, 's) system \<Rightarrow> ('u, 's) system res \<Rightarrow> bool" for L where
  phase: "thread_step L s (advance L alive i s)"

text \<open>New calls: an acquire runs its locked part, and is a release afterwards if it has to roll back; a
  release and a sweep start on an idle thread.  \<open>sweeps\<close> says whether sweeps are considered.\<close>

inductive system_step ::
  "('u, 's, 'f) strongswan \<Rightarrow> bool \<Rightarrow> ('u, 's) system \<Rightarrow> ('u, 's) system res \<Rightarrow> bool" for L sweeps where
  progress: "thread_step L s r \<Longrightarrow> system_step L sweeps s r"
| acquire: "pe_inv L pe \<Longrightarrow> lease_memory_ok m \<Longrightarrow> sy_threads s i = Running [] \<Longrightarrow>
    system_step L sweeps s (bindR (acquire_locked L m now pe (sy_al s) u w) (\<lambda>(result, rollback, al').
      Inr (set_thread i (if rollback then Calling w [] else Running []) (s\<lparr>sy_al := al'\<rparr>))))"
| release: "sy_threads s i = Running [] \<Longrightarrow> system_step L sweeps s (Inr (set_thread i (Calling w []) s))"
| sweep: "sweeps \<Longrightarrow> sy_threads s i = Running [] \<Longrightarrow>
    system_step L sweeps s (bindR (expiring L (al_sessions (sy_al s)) now (al_lease_timeout (sy_al s))) (\<lambda>ps.
      Inr (set_thread i (Running ps) s)))"

inductive system_reach ::
  "('u, 's, 'f) strongswan \<Rightarrow> bool \<Rightarrow> ('u, 's) system \<Rightarrow> ('u, 's) system res \<Rightarrow> bool" for L sweeps s where
  start: "system_reach L sweeps s (Inr s)"
| step: "system_reach L sweeps s (Inr s') \<Longrightarrow> system_step L sweeps s' r \<Longrightarrow> system_reach L sweeps s r"

inductive thread_reach ::
  "('u, 's, 'f) strongswan \<Rightarrow> ('u, 's) system \<Rightarrow> ('u, 's) system res \<Rightarrow> bool" for L s where
  start: "thread_reach L s (Inr s)"
| step: "thread_reach L s (Inr s') \<Longrightarrow> thread_step L s' r \<Longrightarrow> thread_reach L s r"

inductive_simps thread_step_iff: "thread_step L s r"
inductive_cases system_stepE: "system_step L sweeps s r"

section \<open>The invariant\<close>

text \<open>The lease a thread owns, and the address it has still to give back.\<close>

definition owns :: "('u, 's) system \<Rightarrow> nat \<Rightarrow> nat option" where
  "owns s i = (case sy_threads s i of Unlinked p ps \<Rightarrow> Some p | Cleared p ps \<Rightarrow> Some p | _ \<Rightarrow> None)"

definition pending :: "('u, 's) system \<Rightarrow> nat \<Rightarrow> u32 option" where
  "pending s i =
     (case sy_threads s i of
        Unlinked p ps \<Rightarrow> Option.bind (sm_heap (al_sessions (sy_al s)) p) dyn_addr
      | _ \<Rightarrow> None)"

definition detached :: "('u, 's, 'f) strongswan \<Rightarrow> ('u, 's) ip_allocator \<Rightarrow> nat \<Rightarrow> bool" where
  "detached L al p \<longleftrightarrow>
     (\<exists>l. sm_heap (al_sessions al) p = Some l \<and> lease_ok l) \<and> (\<forall>u. user_get L (al_sessions al) u \<noteq> Some p)"

definition system_inv :: "('u, 's, 'f) strongswan \<Rightarrow> ('u, 's) system \<Rightarrow> bool" where
  "system_inv L s \<longleftrightarrow>
     al_invx L (ran (pending s)) (sy_al s) \<and> inj_on (pending s) (dom (pending s)) \<and>
     inj_on (owns s) (dom (owns s)) \<and> (\<forall>i p. owns s i = Some p \<longrightarrow> detached L (sy_al s) p)"

text \<open>The service the system implements: an address is on its way back while it is pending.\<close>

definition service_of :: "('u, 's, 'f) strongswan \<Rightarrow> ('u, 's) system \<Rightarrow> service" where
  "service_of L s =
     \<lparr>sv_leases = al_users L (sy_al s), sv_index = al_uids L (sy_al s), sv_returning = ran (pending s),
      sv_pool = (case al_dyn (sy_al s) of None \<Rightarrow> {} | Some d \<Rightarrow> dp_universe d)\<rparr>"

text \<open>The policies an engine can have.\<close>

definition engine_policies :: "('u, 's, 'f) strongswan \<Rightarrow> (string \<Rightarrow> host option) set" where
  "engine_policies L = {P. \<exists>pe. pe_inv L pe \<and> P = policy_address L pe}"

abbreviation "simulates L s s' \<equiv> service_step (engine_policies L) (service_of L s) (service_of L s')"

text \<open>A system no sweep is under way in.\<close>

definition no_sweep :: "('u, 's) system \<Rightarrow> bool" where
  "no_sweep s \<longleftrightarrow>
     (\<forall>i. case sy_threads s i of
        Running ps \<Rightarrow> ps = [] | Checked p ps \<Rightarrow> False | Calling w ps \<Rightarrow> ps = []
      | Unlinked p ps \<Rightarrow> ps = [] | Cleared p ps \<Rightarrow> ps = [])"

section \<open>Each phase keeps the invariant\<close>

lemma choose_sessions:
  "choose_ip L m pe al u = Inr (ip, fixed, al1) \<Longrightarrow> al_sessions al1 = al_sessions al"
  by (auto simp: choose_ip_def res_iff split: option.splits)

lemma acquire_keeps_detached:
  assumes inv: "al_invx L X al" and run: "acquire_locked L m now pe al u w = Inr (r, b, al')" and d: "detached L al p"
  shows "detached L al' p \<and> sm_heap (al_sessions al') p = sm_heap (al_sessions al) p"
proof -
  let ?sm = "al_sessions al"
  note sm = al_sm [OF inv]
  obtain l where l: "sm_heap ?sm p = Some l" "lease_ok l" "\<forall>v. user_get L ?sm v \<noteq> Some p"
    using d by (auto simp: detached_def)
  show ?thesis
  proof (cases "user_get L ?sm u")
    case (Some q)
    obtain k where k: "sm_heap ?sm q = Some k" using sm_users_user_get(2) [OF sm Some] by blast
    obtain sm' where sm': "migrate L now ?sm (Some u) w = Inr (Some q, sm')" "user_get L sm' = user_get L ?sm"
        "sm_heap sm' = (sm_heap ?sm)(q \<mapsto> k\<lparr>le_unique_id := w, le_acquired := now\<rparr>)"
      using migrate_effect(2) [OF sm Some k] by blast
    have "al_sessions al' = sm'"
      using run Some sm'(1) by (auto simp: acquire_locked_def lookup_by_user_def res_iff)
    moreover have "q \<noteq> p" using l(3) Some by auto
    ultimately show ?thesis using l sm'(2,3) by (simp add: detached_def)
  next
    case None
    obtain ip fixed al1 where c: "choose_ip L m pe al u = Inr (ip, fixed, al1)"
      using run None by (auto simp: acquire_locked_def lookup_by_user_def res_iff)
    note same = choose_sessions [OF c]
    show ?thesis
    proof (cases ip)
      case None
      then have "al' = al1" using run c \<open>user_get L ?sm u = None\<close>
        by (simp add: acquire_locked_def lookup_by_user_def)
      then show ?thesis using d same by (simp add: detached_def)
    next
      case (Some h)
      obtain g sm' where g: "bind_lease L (ok_lease_malloc m) (ok_lease_strdup m) now ?sm (Some u) w (Some h) fixed = Inr (g, sm')"
          "al_sessions al' = sm'"
        using run c same Some None
        by (auto simp: acquire_locked_def lookup_by_user_def res_iff Let_def split: option.splits if_splits)
      show ?thesis
        using bind_pointers [OF sm None g(1)] l g(2) by (auto simp: detached_def split: if_splits)
    qed
  qed
qed

text \<open>Changing one thread.\<close>

lemma owns_set: "owns (set_thread i t s) = (owns s)(i := owns (set_thread i t s) i)"
  and pending_set: "pending (set_thread i t s) = (pending s)(i := pending (set_thread i t s) i)"
  by (auto simp: owns_def pending_def set_thread_def fun_eq_iff split: thread.split)

lemma sy_al_set [simp]: "sy_al (set_thread i t s) = sy_al s"
  by (simp add: set_thread_def)

lemma owns_at [simp]:
  "owns (set_thread i (Running ps) s) i = None"
  "owns (set_thread i (Checked p ps) s) i = None"
  "owns (set_thread i (Calling w ps) s) i = None"
  "owns (set_thread i (Unlinked p ps) s) i = Some p"
  "owns (set_thread i (Cleared p ps) s) i = Some p"
  by (simp_all add: owns_def set_thread_def)

lemma pending_at [simp]:
  "pending (set_thread i (Running ps) s) i = None"
  "pending (set_thread i (Checked p ps) s) i = None"
  "pending (set_thread i (Calling w ps) s) i = None"
  "pending (set_thread i (Unlinked p ps) s) i = Option.bind (sm_heap (al_sessions (sy_al s)) p) dyn_addr"
  "pending (set_thread i (Cleared p ps) s) i = None"
  by (simp_all add: pending_def set_thread_def)

text \<open>A thread that owns nothing and has nothing to give back moves on without effect.\<close>

lemma quiet_thread:
  assumes inv: "system_inv L s" and "owns s i = None" and "owns (set_thread i t s) i = None"
    and "pending s i = None" and "pending (set_thread i t s) i = None"
  shows "system_inv L (set_thread i t s)" and "service_of L (set_thread i t s) = service_of L s"
proof -
  have same: "owns (set_thread i t s) = owns s" "pending (set_thread i t s) = pending s"
    using assms(2-5) owns_set [of i t s] pending_set [of i t s] by (auto simp: fun_upd_idem)
  then show "system_inv L (set_thread i t s)" using inv by (simp add: system_inv_def)
  show "service_of L (set_thread i t s) = service_of L s" by (simp add: service_of_def same)
qed

text \<open>The allocator changes, but no detached lease does.\<close>

lemma new_allocator:
  assumes inv: "system_inv L s" and al': "al_invx L (ran (pending s)) al'"
    and keeps: "\<And>p. detached L (sy_al s) p \<Longrightarrow>
      detached L al' p \<and> sm_heap (al_sessions al') p = sm_heap (al_sessions (sy_al s)) p"
  shows "system_inv L (s\<lparr>sy_al := al'\<rparr>)" and "pending (s\<lparr>sy_al := al'\<rparr>) = pending s"
proof -
  have owns: "owns (s\<lparr>sy_al := al'\<rparr>) = owns s" by (simp add: owns_def fun_eq_iff)
  have "pending (s\<lparr>sy_al := al'\<rparr>) i = pending s i" for i
  proof (cases "sy_threads s i")
    case (Unlinked p ps)
    then have "owns s i = Some p" by (simp add: owns_def)
    then have "detached L (sy_al s) p" using inv by (simp add: system_inv_def)
    then show ?thesis using keeps [of p] Unlinked by (simp add: pending_def)
  qed (simp_all add: pending_def)
  then show pending: "pending (s\<lparr>sy_al := al'\<rparr>) = pending s" by blast
  then show "system_inv L (s\<lparr>sy_al := al'\<rparr>)" using inv al' keeps by (auto simp: system_inv_def owns)
qed

text \<open>The pool, when a lease is taken out before its bit is cleared, and when the bit is cleared.\<close>

lemma pool_ok_take_out:
  assumes ok: "pool_ok X dyn users" and u: "users u = Some l"
  shows "pool_ok (X \<union> set_option (dyn_addr l)) dyn (users(u := None))"
    and "set_option (dyn_addr l) \<inter> X = {}"
proof -
  have l: "dynamic users u = dyn_addr l" using u by (simp add: dynamic_def)
  show disj: "set_option (dyn_addr l) \<inter> X = {}"
  proof (cases "dyn_addr l")
    case (Some a)
    then have "a \<in> ran (dynamic users)" using l ranI [of "dynamic users" u a] by simp
    then show ?thesis using ok Some by (cases dyn) (auto simp: pool_ok_def)
  qed simp
  have inj: "inj_on (dynamic users) (dom (dynamic users))" using ok by (simp add: pool_ok_def)
  have ran: "ran ((dynamic users)(u := None)) = ran (dynamic users) - set_option (dyn_addr l)"
    using ran_delete [OF inj, of u] l by (cases "dyn_addr l") auto
  have sub: "set_option (dyn_addr l) \<subseteq> ran (dynamic users)"
    using l ranI [of "dynamic users" u] by (cases "dyn_addr l") auto
  show "pool_ok (X \<union> set_option (dyn_addr l)) dyn (users(u := None))"
  proof (cases dyn)
    case None
    then have "dynamic users = Map.empty" "X = {}" using ok by (simp_all add: pool_ok_def)
    then show ?thesis using l None by (simp add: pool_ok_def dynamic_upd)
  next
    case (Some d)
    then have d: "dp_inv d" "dp_allocated d = ran (dynamic users) \<union> X" "ran (dynamic users) \<inter> X = {}"
      using ok by (simp_all add: pool_ok_def)
    have "dp_allocated d = ran ((dynamic users)(u := None)) \<union> (X \<union> set_option (dyn_addr l))"
      using d(2) sub unfolding ran by auto
    moreover have "ran ((dynamic users)(u := None)) \<inter> (X \<union> set_option (dyn_addr l)) = {}"
      using d(3) unfolding ran by auto
    ultimately show ?thesis using Some d(1) inj_on_delete [OF inj, of u] by (simp add: pool_ok_def dynamic_upd)
  qed
qed

lemma ran_set: "f i = None \<Longrightarrow> ran (f(i := x)) = ran f \<union> set_option x"
  by (cases x) (auto simp: fun_upd_idem ran_insert)

lemma coherent_detached:
  assumes "sm_inv L (al_sessions al)" and "detached L al p"
  shows "uid_get L (al_sessions al) k \<noteq> Some p"
  using assms coherent_uid [of L "al_sessions al" k p] by (auto simp: sm_inv_def detached_def)

text \<open>Unlinking an id no lease has, and one a lease has.\<close>

lemma advance_unlink_nothing:
  assumes inv: "system_inv L s" and t: "sy_threads s i = Calling w ps"
    and None: "uid_get L (al_sessions (sy_al s)) (uid_key w) = None"
  shows "\<exists>s'. advance L alive i s = Inr s' \<and> system_inv L s' \<and> simulates L s s'"
proof -
  let ?al = "sy_al s" and ?X = "ran (pending s)"
  have ax: "al_invx L ?X ?al" using inv by (simp add: system_inv_def)
  note sm = al_sm [OF ax]
  obtain sm' where sm': "unbind L (al_sessions ?al) w = Inr (None, sm')" "sm_inv L sm'"
      "sm_abs L sm' = sm_abs L (al_sessions ?al)" "sm_heap sm' = sm_heap (al_sessions ?al)"
      "user_get L sm' = user_get L (al_sessions ?al)"
    using unbind_effect(1) [OF sm None] by blast
  let ?al' = "?al\<lparr>al_sessions := sm'\<rparr>"
  have "sm_users L sm' = al_users L ?al" using sm'(3) by (simp add: sm_abs_def)
  then have "al_invx L ?X ?al'" using ax sm'(2) by (simp add: al_invx_def)
  note new = new_allocator [OF inv this]
  have s1: "system_inv L (s\<lparr>sy_al := ?al'\<rparr>)" "pending (s\<lparr>sy_al := ?al'\<rparr>) = pending s"
    by (rule new, use sm'(4,5) in \<open>auto simp: detached_def\<close>)+
  let ?s = "set_thread i (Running ps) (s\<lparr>sy_al := ?al'\<rparr>)"
  have s2: "system_inv L ?s" "service_of L ?s = service_of L (s\<lparr>sy_al := ?al'\<rparr>)"
    by (rule quiet_thread [OF s1(1)],
      use t in \<open>simp_all add: owns_def [of "s\<lparr>sy_al := ?al'\<rparr>"] pending_def [of "s\<lparr>sy_al := ?al'\<rparr>"]\<close>)+
  have "service_of L (s\<lparr>sy_al := ?al'\<rparr>) = service_of L s"
    using sm'(3) by (simp add: service_of_def s1(2) sm_abs_def)
  then have "simulates L s ?s" by (simp add: s2(2) service_step.idle)
  with s2(1) show ?thesis using t sm'(1) by (simp add: advance_def unlink_phase_def)
qed

lemma unlink_simulates:
  assumes l: "al_users L (sy_al s) u = Some l" "al_uids L (sy_al s) w = Some u"
    and pending: "ran (pending s') = ran (pending s) \<union> set_option (dyn_addr l)"
    and users: "al_users L (sy_al s') = (al_users L (sy_al s))(u := None)"
    and uids: "al_uids L (sy_al s') = (al_uids L (sy_al s))(w := None)"
    and dyn: "al_dyn (sy_al s') = al_dyn (sy_al s)"
  shows "simulates L s s'"
proof -
  have "service_of L s' = (sv_put (service_of L s) (snd (spec_unbind w (sv_table (service_of L s)))))
      \<lparr>sv_returning := sv_returning (service_of L s) \<union> set_option (dyn_addr l)\<rparr>"
    unfolding service_of_def pending using l(2) by (simp add: users uids dyn spec_unbind_def sv_put_def sv_table_def)
  then show ?thesis using service_step.release [of "service_of L s" w u l] l by (simp add: service_of_def)
qed

lemma advance_unlink_lease:
  assumes inv: "system_inv L s" and t: "sy_threads s i = Calling w ps"
    and Some: "uid_get L (al_sessions (sy_al s)) (uid_key w) = Some p"
  shows "\<exists>s'. advance L alive i s = Inr s' \<and> system_inv L s' \<and> simulates L s s'"
proof -
  let ?al = "sy_al s" and ?X = "ran (pending s)"
  have ax: "al_invx L ?X ?al" using inv by (simp add: system_inv_def)
  note sm = al_sm [OF ax]
  have idle: "owns s i = None" "pending s i = None" using t by (simp_all add: owns_def pending_def)
  obtain l u where l: "al_users L ?al u = Some l" "user_get L (al_sessions ?al) u = Some p"
      "sm_heap (al_sessions ?al) p = Some l" "al_uids L ?al w = Some u" "le_unique_id l = w"
    using sm_uids_uid_get(2) [OF sm Some] by blast
  obtain sm' where sm': "unbind L (al_sessions ?al) w = Inr (Some p, sm')" "sm_detach L (al_sessions ?al) p sm'"
    using unbind_effect(2) [OF sm Some] by blast
  note dc = detach_coherent [OF sm l(2) sm'(2)]
  have heap: "sm_heap sm' = sm_heap (al_sessions ?al)"
    and fewer: "\<And>v q. user_get L sm' v = Some q \<Longrightarrow> user_get L (al_sessions ?al) v = Some q"
    using sm'(2) by (auto simp: sm_detach_def split: if_splits)
  let ?al' = "?al\<lparr>al_sessions := sm'\<rparr>"
  let ?s = "set_thread i (Unlinked p ps) (s\<lparr>sy_al := ?al'\<rparr>)"
  have same: "pending (s\<lparr>sy_al := ?al'\<rparr>) = pending s" "owns (s\<lparr>sy_al := ?al'\<rparr>) = owns s"
    using heap by (simp_all add: pending_def owns_def fun_eq_iff split: thread.split)
  have pending: "pending ?s = (pending s)(i := dyn_addr l)" and owns: "owns ?s = (owns s)(i \<mapsto> p)"
    using pending_set [of i "Unlinked p ps" "s\<lparr>sy_al := ?al'\<rparr>"] owns_set [of i "Unlinked p ps" "s\<lparr>sy_al := ?al'\<rparr>"]
      heap l(3) by (simp_all add: same)
  note out = pool_ok_take_out [OF al_pool [OF ax] l(1)]
  have X: "ran (pending ?s) = ?X \<union> set_option (dyn_addr l)" unfolding pending by (rule ran_set [of "pending s" i]) (rule idle)
  have "al_invx L (ran (pending ?s)) ?al'"
    using ax dc(1,2) out(1) unfolding X by (simp add: al_invx_def)
  moreover have "inj_on (pending ?s) (dom (pending ?s))"
    using inj_on_insert [of "pending s" _ i] out(2) inv idle(2)
    by (cases "dyn_addr l") (auto simp: system_inv_def pending fun_upd_idem)
  moreover have "detached L ?al j" if "owns s k = Some j" for k j using inv that by (simp add: system_inv_def)
  then have others: "detached L ?al' j \<and> j \<noteq> p" if "owns s k = Some j" for k j
    using that fewer l(2) heap by (fastforce simp: detached_def)
  moreover have "p \<notin> ran (owns s)" using others by (auto simp: ran_def)
  then have "inj_on (owns ?s) (dom (owns ?s))"
    using inj_on_insert [of "owns s" p i] inv unfolding owns by (simp add: system_inv_def)
  moreover have "detached L ?al' p"
    using al_lease [OF ax l(1)] l(3) heap dc(4) by (simp add: detached_def)
  ultimately have "system_inv L ?s"
    unfolding system_inv_def by (auto simp: owns split: if_splits)
  moreover have "simulates L s ?s"
    using unlink_simulates [OF l(1,4), of ?s] X l(3,5) dc(2,3) by simp
  ultimately show ?thesis using t sm'(1) by (simp add: advance_def unlink_phase_def)
qed

lemma advance_unlink:
  assumes "system_inv L s" and "sy_threads s i = Calling w ps"
  shows "\<exists>s'. advance L alive i s = Inr s' \<and> system_inv L s' \<and> simulates L s s'"
  using advance_unlink_nothing [OF assms] advance_unlink_lease [OF assms]
  by (cases "uid_get L (al_sessions (sy_al s)) (uid_key w)") blast+

lemma pool_ok_clear:
  assumes "pool_ok X (Some d) users" and "a \<in> X" and "dp_inv d'" and "dp_allocated d' = dp_allocated d - {a}"
  shows "pool_ok (X - {a}) (Some d') users"
  using assms by (auto simp: pool_ok_def)

text \<open>Clearing the address of an unlinked lease takes it out of the addresses that are pending.\<close>

lemma clear_phase_effect:
  assumes pool: "pool_ok X (al_dyn al) users" and l: "sm_heap (al_sessions al) p = Some l" "lease_ok l"
    and pend: "\<And>a. dyn_addr l = Some a \<Longrightarrow> a \<in> X"
  shows "\<exists>dyn. clear_phase al p = Inr (al\<lparr>al_dyn := dyn\<rparr>) \<and> pool_ok (X - set_option (dyn_addr l)) dyn users \<and>
    map_option dp_universe dyn = map_option dp_universe (al_dyn al)"
proof (cases "dyn_addr l")
  case None
  then have "le_fixed l" using l(2) by (auto simp: dyn_addr_def lease_ok_def split: if_splits)
  then have "clear_phase al p = Inr (al\<lparr>al_dyn := al_dyn al\<rparr>)"
    using l by (simp add: clear_phase_def store_simps split: option.split)
  then show ?thesis by (intro exI [of _ "al_dyn al"]) (use None pool in simp)
next
  case (Some a)
  then have a: "a \<in> X" by (rule pend)
  then obtain d where d: "al_dyn al = Some d" using pool by (cases "al_dyn al") (auto simp: pool_ok_def)
  have "dp_inv d" using pool d by (simp add: pool_ok_def)
  then obtain d' where d': "dp_release d (le_ip l) = Inr d'" "dp_allocated d' = dp_allocated d - ip_addrs (le_ip l)"
      "dp_inv d'" "dp_universe d' = dp_universe d"
    using dp_release_law by blast
  have ip: "\<not> le_fixed l" "le_ip l \<noteq> None" "ip_addrs (le_ip l) = {a}"
    using Some l(2) by (auto simp: dyn_addr_def lease_ok_def split: if_splits)
  have "clear_phase al p = Inr (al\<lparr>al_dyn := Some d'\<rparr>)"
    using l d d'(1) ip(1,2) by (simp add: clear_phase_def store_simps del: not_None_eq)
  moreover have "pool_ok (X - {a}) (Some d') users"
    by (rule pool_ok_clear [of _ d]) (use pool d a d' ip in simp_all)
  ultimately show ?thesis using Some d d'(4) by auto
qed

lemma advance_clear:
  assumes inv: "system_inv L s" and t: "sy_threads s i = Unlinked p ps"
  shows "\<exists>s'. advance L alive i s = Inr s' \<and> system_inv L s' \<and> simulates L s s'"
proof -
  let ?al = "sy_al s" and ?X = "ran (pending s)"
  have ax: "al_invx L ?X ?al" and injp: "inj_on (pending s) (dom (pending s))" using inv by (simp_all add: system_inv_def)
  have own: "owns s i = Some p" using t by (simp add: owns_def)
  then have "detached L ?al p" using inv by (simp add: system_inv_def)
  then obtain l where l: "sm_heap (al_sessions ?al) p = Some l" "lease_ok l" by (auto simp: detached_def)
  have pend: "pending s i = dyn_addr l" using t l by (simp add: pending_def)
  have X: "ran ((pending s)(i := None)) = ?X - set_option (dyn_addr l)"
    using ran_delete [OF injp, of i] pend by (cases "dyn_addr l") auto
  obtain dyn where dyn: "clear_phase ?al p = Inr (?al\<lparr>al_dyn := dyn\<rparr>)"
      "pool_ok (?X - set_option (dyn_addr l)) dyn (al_users L ?al)" "map_option dp_universe dyn = map_option dp_universe (al_dyn ?al)"
    using clear_phase_effect [OF al_pool [OF ax] l] pend by (metis ranI)
  let ?s = "set_thread i (Cleared p ps) (s\<lparr>sy_al := ?al\<lparr>al_dyn := dyn\<rparr>\<rparr>)"
  have same: "pending (s\<lparr>sy_al := ?al\<lparr>al_dyn := dyn\<rparr>\<rparr>) = pending s" "owns (s\<lparr>sy_al := ?al\<lparr>al_dyn := dyn\<rparr>\<rparr>) = owns s"
    by (simp_all add: pending_def owns_def fun_eq_iff split: thread.split)
  have pending: "pending ?s = (pending s)(i := None)" and owns: "owns ?s = owns s"
    using pending_set [of i "Cleared p ps" "s\<lparr>sy_al := ?al\<lparr>al_dyn := dyn\<rparr>\<rparr>"]
      owns_set [of i "Cleared p ps" "s\<lparr>sy_al := ?al\<lparr>al_dyn := dyn\<rparr>\<rparr>"] own
    by (simp_all add: same fun_upd_idem)
  have "al_invx L (ran (pending ?s)) (?al\<lparr>al_dyn := dyn\<rparr>)"
    using ax dyn(2) unfolding pending X by (simp add: al_invx_def)
  moreover have "inj_on (pending ?s) (dom (pending ?s))" using inj_on_delete [OF injp, of i] by (simp add: pending)
  moreover have "detached L (?al\<lparr>al_dyn := dyn\<rparr>) = detached L ?al" by (simp add: detached_def fun_eq_iff)
  ultimately have "system_inv L ?s" using inv by (simp add: system_inv_def owns)
  moreover have "simulates L s ?s"
  proof (cases "dyn_addr l")
    case None
    then have "service_of L ?s = service_of L s"
      using dyn(3) unfolding service_of_def pending X by (cases dyn; cases "al_dyn ?al") simp_all
    then show ?thesis by (simp add: service_step.idle)
  next
    case (Some a)
    then have "service_of L ?s = (service_of L s)\<lparr>sv_returning := sv_returning (service_of L s) - {a}\<rparr>"
      using dyn(3) unfolding service_of_def pending X by (cases dyn; cases "al_dyn ?al") simp_all
    moreover have "a \<in> sv_returning (service_of L s)"
      using ranI [of "pending s" i a] pend Some by (simp add: service_of_def)
    ultimately show ?thesis by (simp add: service_step.settle)
  qed
  ultimately show ?thesis using t dyn(1) by (simp add: advance_def)
qed

lemma pending_freed:
  assumes t: "sy_threads s i = Cleared p ps"
    and other: "\<And>j q. owns s j = Some q \<Longrightarrow> j \<noteq> i \<Longrightarrow> sm_heap (al_sessions al) q = sm_heap (al_sessions (sy_al s)) q"
  shows "pending (set_thread i (Running qs) (s\<lparr>sy_al := al\<rparr>)) = pending s"
proof
  fix j
  show "pending (set_thread i (Running qs) (s\<lparr>sy_al := al\<rparr>)) j = pending s j"
  proof (cases "j = i")
    case True
    then show ?thesis using t by (simp add: pending_def set_thread_def)
  next
    case False
    show ?thesis
    proof (cases "sy_threads s j")
      case (Unlinked q qs)
      then show ?thesis using other [of j q] False by (simp add: owns_def pending_def set_thread_def)
    qed (use False in \<open>simp_all add: pending_def set_thread_def\<close>)
  qed
qed

lemma advance_destroy:
  assumes inv: "system_inv L s" and t: "sy_threads s i = Cleared p ps"
  shows "\<exists>s'. advance L alive i s = Inr s' \<and> system_inv L s' \<and> simulates L s s'"
proof -
  let ?al = "sy_al s"
  have ax: "al_invx L (ran (pending s)) ?al" and injo: "inj_on (owns s) (dom (owns s))" using inv by (simp_all add: system_inv_def)
  note sm = al_sm [OF ax]
  have own: "owns s i = Some p" using t by (simp add: owns_def)
  then have d: "detached L ?al p" using inv by (simp add: system_inv_def)
  then obtain l where l: "sm_heap (al_sessions ?al) p = Some l" "\<forall>u. user_get L (al_sessions ?al) u \<noteq> Some p"
    by (auto simp: detached_def)
  have no: "\<forall>k. uid_get L (al_sessions ?al) k \<noteq> Some p" using coherent_detached [OF sm d] by blast
  define sm' where "sm' = (al_sessions ?al)\<lparr>sm_heap := (sm_heap (al_sessions ?al))(p := None)\<rparr>"
  have sm': "lease_destroy (al_sessions ?al) (Some p) = Inr sm'" "sm' = (al_sessions ?al)\<lparr>sm_heap := (sm_heap (al_sessions ?al))(p := None)\<rparr>"
      "sm_inv L sm'" "sm_users L sm' = al_users L ?al" "sm_uids L sm' = al_uids L ?al"
    using free_detached [OF sm l no] by (simp_all add: sm'_def)
  let ?al' = "?al\<lparr>al_sessions := sm'\<rparr>"
  let ?s = "set_thread i (Running ps) (s\<lparr>sy_al := ?al'\<rparr>)"
  have other: "q \<noteq> p" if "owns s j = Some q" "j \<noteq> i" for j q
    using inj_onD [OF injo, of j i] that own by auto
  have same: "owns (s\<lparr>sy_al := ?al'\<rparr>) = owns s" by (simp add: owns_def fun_eq_iff)
  have owns: "owns ?s = (owns s)(i := None)"
    using owns_set [of i "Running ps" "s\<lparr>sy_al := ?al'\<rparr>"] by (simp add: same)
  have pending: "pending ?s = pending s"
    by (rule pending_freed [OF t]) (use other in \<open>auto simp: sm'(2)\<close>)
  have "al_invx L (ran (pending ?s)) ?al'" using ax sm'(3,4) unfolding pending by (simp add: al_invx_def)
  moreover have "detached L ?al' q" if "owns s j = Some q" "j \<noteq> i" for j q
    using other [OF that] inv that(1) by (auto simp: system_inv_def detached_def sm'(2))
  ultimately have "system_inv L ?s"
    using inv injo inj_on_delete [OF injo, of i]
    unfolding system_inv_def pending by (auto simp: owns split: if_splits)
  moreover have "service_of L ?s = service_of L s" unfolding service_of_def pending by (simp add: sm'(4,5))
  then have "simulates L s ?s" by (simp add: service_step.idle)
  ultimately show ?thesis using t sm'(1) by (simp add: advance_def destroy_phase_def)
qed

lemma advance_inv:
  assumes inv: "system_inv L s"
  shows "(\<exists>s'. advance L alive i s = Inr s' \<and> system_inv L s' \<and> simulates L s s') \<or>
    (advance L alive i s = Inl Use_After_Free \<and> \<not> no_sweep s)"
proof (cases "sy_threads s i")
  case (Running ps)
  then have idle: "owns s i = None" "pending s i = None" by (simp_all add: owns_def pending_def)
  show ?thesis
  proof (cases ps)
    case Nil
    then show ?thesis using Running inv by (simp add: advance_def service_step.idle)
  next
    case (Cons p qs)
    then have busy: "\<not> no_sweep s" using Running by (auto simp: no_sweep_def intro!: exI [of _ i])
    show ?thesis
    proof (cases "sm_heap (al_sessions (sy_al s)) p")
      case None
      then show ?thesis using Running Cons busy by (simp add: advance_def store_simps)
    next
      case (Some l)
      then have "advance L alive i s = Inr (set_thread i (if alive (le_unique_id l) then Running qs else Checked p qs) s)"
        using Running Cons by (simp add: advance_def store_simps)
      moreover let ?s = "set_thread i (if alive (le_unique_id l) then Running qs else Checked p qs) s"
      have "system_inv L ?s \<and> service_of L ?s = service_of L s"
        by (intro conjI; rule quiet_thread [OF inv]; simp add: idle)
      ultimately show ?thesis by (simp add: service_step.idle)
    qed
  qed
next
  case (Checked p ps)
  then have idle: "owns s i = None" "pending s i = None" by (simp_all add: owns_def pending_def)
  have busy: "\<not> no_sweep s" using Checked by (auto simp: no_sweep_def intro!: exI [of _ i])
  show ?thesis
  proof (cases "sm_heap (al_sessions (sy_al s)) p")
    case None
    then show ?thesis using Checked busy by (simp add: advance_def store_simps)
  next
    case (Some l)
    then have "advance L alive i s = Inr (set_thread i (Calling (le_unique_id l) ps) s)"
      using Checked by (simp add: advance_def store_simps)
    moreover let ?s = "set_thread i (Calling (le_unique_id l) ps) s"
    have "system_inv L ?s" "service_of L ?s = service_of L s" by (rule quiet_thread [OF inv], simp_all add: idle)+
    ultimately show ?thesis by (simp add: service_step.idle)
  qed
qed (use advance_unlink [OF inv] advance_clear [OF inv] advance_destroy [OF inv] in blast)+

text \<open>The locked part of an acquire is one step of the service.\<close>

text \<open>What the allocator grants a user without a lease, the service may grant.\<close>

lemma grant_simulates:
  assumes ax: "al_invx L (ran (pending s)) (sy_al s)" and pe: "pe_inv L pe" and none: "al_users L (sy_al s) u = None"
    and fixed: "fixed \<longrightarrow> policy_address L pe u = Some h"
    and dynamic: "\<not> fixed \<longrightarrow> h_family h = AF_INET \<and> (\<exists>d. al_dyn (sy_al s) = Some d \<and> least_free d = {host_to_u32 h})"
  shows "service_step (engine_policies L) (service_of L s)
    (sv_put (service_of L s) (snd (spec_bind u w (Some h) fixed now (sv_table (service_of L s)))))"
proof (cases fixed)
  case True
  have "sv_leases (service_of L s) u = None" using none by (simp add: service_of_def)
  moreover have "policy_address L pe \<in> engine_policies L" using pe by (auto simp: engine_policies_def)
  ultimately show ?thesis using service_step.grant_fixed fixed True by simp
next
  case False
  then obtain d where d: "al_dyn (sy_al s) = Some d" "least_free d = {host_to_u32 h}" "h_family h = AF_INET"
    using dynamic by blast
  have "sv_free (service_of L s) = dp_universe d - dp_allocated d"
    using al_pool [OF ax] by (auto simp: sv_free_def service_of_def d(1) pool_ok_def)
  then have "host_to_u32 h \<in> sv_free (service_of L s)" "\<And>b. b \<in> sv_free (service_of L s) \<Longrightarrow> host_to_u32 h \<le> b"
    using d(2) by (auto simp: least_free_def)
  moreover have "sv_leases (service_of L s) u = None" using none by (simp add: service_of_def)
  ultimately show ?thesis using False service_step.grant_dynamic [OF _ d(3)] by simp
qed

lemma acquire_simulates:
  assumes inv: "system_inv L s" and pe: "pe_inv L pe" and mem: "lease_memory_ok m"
    and run: "acquire_locked L m now pe (sy_al s) u w = Inr (r, b, al')"
  shows "system_inv L (s\<lparr>sy_al := al'\<rparr>)" and "simulates L s (s\<lparr>sy_al := al'\<rparr>)"
proof -
  let ?al = "sy_al s" and ?v = "service_of L s" and ?s = "s\<lparr>sy_al := al'\<rparr>"
  have ax: "al_invx L (ran (pending s)) ?al" using inv by (simp add: system_inv_def)
  have al': "al_invx L (ran (pending s)) al'" "al_frame ?al al'"
    using acquire_locked_inv [OF ax pe mem, of now u w] run by auto
  note new = new_allocator [OF inv al'(1) acquire_keeps_detached [OF ax run]]
  show "system_inv L ?s" by (rule new(1))
  have table: "sv_table ?v = sm_abs L (al_sessions ?al)" by (simp add: sv_table_def service_of_def sm_abs_def)
  have pool: "(case al_dyn al' of None \<Rightarrow> {} | Some d \<Rightarrow> dp_universe d) = sv_pool ?v"
    using al'(2) by (cases "al_dyn ?al"; cases "al_dyn al'") (simp_all add: al_frame_def service_of_def)
  have after: "service_of L ?s = sv_put ?v a" if "sm_abs L (al_sessions al') = a" for a
    using that new(2) by (auto simp: service_of_def sv_put_def sm_abs_def pool [unfolded service_of_def])
  show "simulates L s ?s"
  proof (cases "al_users L ?al u")
    case (Some l)
    then have "sm_abs L (al_sessions al') = snd (spec_migrate u w now (sv_table ?v))"
      using acquire_reuse [OF ax Some, of m now pe w] run by (auto simp: table)
    then show ?thesis using service_step.renew [of ?v u l "engine_policies L" w now] Some
      by (simp add: after) (simp add: service_of_def)
  next
    case None
    show ?thesis
    proof (rule acquire_new_cases [OF ax pe mem None, of now w])
      assume "acquire_locked L m now pe ?al u w = Inr (None, False, ?al)"
      then have "?s = s" using run by simp
      then show ?thesis by (simp add: service_step.idle)
    next
      fix h fixed al2
      assume al2: "acquire_locked L m now pe ?al u w =
            Inr (if ok_result_clone m then (Some h, False, al2) else (None, True, al2))"
          "fixed \<longrightarrow> policy_address L pe u = Some h"
          "sm_abs L (al_sessions al2) = snd (spec_bind u w (Some h) fixed now (sm_abs L (al_sessions ?al)))"
          "\<not> fixed \<longrightarrow> h_family h = AF_INET \<and> (\<exists>d. al_dyn ?al = Some d \<and> least_free d = {host_to_u32 h})"
      have "al' = al2" using run al2(1) by (simp split: if_splits)
      then have s': "service_of L ?s = sv_put ?v (snd (spec_bind u w (Some h) fixed now (sv_table ?v)))"
        using al2(3) after unfolding table by blast
      show ?thesis unfolding s' by (rule grant_simulates [OF ax pe None al2(2,4)])
    qed
  qed
qed

lemma step_inv:
  assumes inv: "system_inv L s" and step: "system_step L sweeps s r"
  shows "(\<exists>s'. r = Inr s' \<and> system_inv L s' \<and> simulates L s s') \<or> (r = Inl Use_After_Free \<and> \<not> no_sweep s)"
  using step
proof cases
  case progress
  then show ?thesis using advance_inv [OF inv] by (auto simp: thread_step_iff)
next
  case (acquire pe m i now u w)
  have ax: "al_invx L (ran (pending s)) (sy_al s)" using inv by (simp add: system_inv_def)
  obtain b r' al' where a: "acquire_locked L m now pe (sy_al s) u w = Inr (r', b, al')" "al_invx L (ran (pending s)) al'"
    using acquire_locked_inv [OF ax acquire(2,3)] by blast
  note new = acquire_simulates [OF inv acquire(2,3) a(1)]
  let ?s = "set_thread i (if b then Calling w [] else Running []) (s\<lparr>sy_al := al'\<rparr>)"
  have "system_inv L ?s \<and> service_of L ?s = service_of L (s\<lparr>sy_al := al'\<rparr>)"
    by (intro conjI; rule quiet_thread [OF new(1)];
      use acquire(4) in \<open>simp add: owns_def [of "s\<lparr>sy_al := al'\<rparr>"] pending_def [of "s\<lparr>sy_al := al'\<rparr>"]\<close>)
  then show ?thesis using acquire(1) a(1) new(2) by simp
next
  case (release i w)
  have "system_inv L (set_thread i (Calling w []) s)" "service_of L (set_thread i (Calling w []) s) = service_of L s"
    by (rule quiet_thread [OF inv], use release(2) in \<open>simp_all add: owns_def [of s] pending_def [of s]\<close>)+
  then show ?thesis using release(1) by (simp add: service_step.idle)
next
  case (sweep i now)
  have sm: "sm_inv L (al_sessions (sy_al s))" using inv by (simp add: system_inv_def al_invx_def)
  obtain ps where ps: "expiring L (al_sessions (sy_al s)) now (al_lease_timeout (sy_al s)) = Inr ps"
    using expiring_effect [OF sm] by blast
  have "system_inv L (set_thread i (Running ps) s)" "service_of L (set_thread i (Running ps) s) = service_of L s"
    by (rule quiet_thread [OF inv], use sweep(3) in \<open>simp_all add: owns_def [of s] pending_def [of s]\<close>)+
  then show ?thesis using sweep(1) ps by (simp add: service_step.idle)
qed

lemma no_sweep_set:
  "no_sweep s \<Longrightarrow> (case t of
        Running ps \<Rightarrow> ps = [] | Checked p ps \<Rightarrow> False | Calling w ps \<Rightarrow> ps = []
      | Unlinked p ps \<Rightarrow> ps = [] | Cleared p ps \<Rightarrow> ps = []) \<Longrightarrow> no_sweep (set_thread i t (s\<lparr>sy_al := al\<rparr>))"
  by (simp add: no_sweep_def set_thread_def)

lemma no_sweep_advance:
  assumes "no_sweep s" and "advance L alive i s = Inr s'"
  shows "no_sweep s'"
proof -
  have t: "case sy_threads s i of
        Running ps \<Rightarrow> ps = [] | Checked p ps \<Rightarrow> False | Calling w ps \<Rightarrow> ps = []
      | Unlinked p ps \<Rightarrow> ps = [] | Cleared p ps \<Rightarrow> ps = []" using assms(1) by (simp add: no_sweep_def)
  show ?thesis
    using assms(2) t no_sweep_set [OF assms(1)] assms(1)
    by (cases "sy_threads s i") (auto simp: advance_def res_iff split: option.splits)
qed

lemma no_sweep_step:
  assumes "no_sweep s" and "system_step L False s (Inr s')"
  shows "no_sweep s'"
  using assms(2)
proof cases
  case progress
  then show ?thesis using no_sweep_advance [OF assms(1)] by (force simp: thread_step_iff)
next
  case (acquire pe m i now u w)
  then obtain b al' where "s' = set_thread i (if b then Calling w [] else Running []) (s\<lparr>sy_al := al'\<rparr>)"
    by (cases "acquire_locked L m now pe (sy_al s) u w") auto
  then show ?thesis using no_sweep_set [OF assms(1), of "if b then Calling w [] else Running []" i al'] by simp
next
  case (release i w)
  then show ?thesis using no_sweep_set [OF assms(1), of "Calling w []" i "sy_al s"] by simp
qed simp

definition init_system :: "('u, 's) ip_allocator \<Rightarrow> ('u, 's) system" where
  "init_system al = \<lparr>sy_al = al, sy_threads = all_idle\<rparr>"

lemma init_system_inv: "al_inv L al \<Longrightarrow> system_inv L (init_system al)"
  and init_no_sweep: "no_sweep (init_system al)"
proof -
  have "owns (init_system al) = Map.empty" "pending (init_system al) = Map.empty"
    by (simp_all add: owns_def pending_def init_system_def all_idle_def fun_eq_iff)
  then show "al_inv L al \<Longrightarrow> system_inv L (init_system al)"
    by (simp add: system_inv_def) (simp add: init_system_def)
  show "no_sweep (init_system al)" by (simp add: no_sweep_def init_system_def all_idle_def)
qed

lemma reach_inv:
  assumes "system_reach L sweeps s r" and "system_inv L s"
  shows "(\<exists>s'. r = Inr s' \<and> system_inv L s') \<or> r = Inl Use_After_Free"
  using assms(1)
proof (induction rule: system_reach.induct)
  case (step s' r)
  then show ?case using step_inv [of L s' sweeps r] by blast
qed (simp add: assms(2))

lemma service_of_ok:
  assumes "system_inv L s"
  shows "service_ok (service_of L s)"
proof -
  have pool: "pool_ok (ran (pending s)) (al_dyn (sy_al s)) (al_users L (sy_al s))"
    using assms by (simp add: system_inv_def al_invx_def)
  then show ?thesis
    by (cases "al_dyn (sy_al s)") (auto simp: service_ok_def service_of_def pool_ok_def dp_allocated_def)
qed

lemma reach_simulates:
  assumes "system_reach L sweeps s r" and "system_inv L s" and "r = Inr s'"
  shows "service_reach (engine_policies L) (service_of L s) (service_of L s') \<and> system_inv L s'"
  using assms(1,3)
proof (induction arbitrary: s' rule: system_reach.induct)
  case start
  then show ?case using assms(2) by (auto intro: service_reach.start)
next
  case (step s1 r)
  then have s1: "service_reach (engine_policies L) (service_of L s) (service_of L s1)" "system_inv L s1" by blast+
  then have "system_inv L s'" "simulates L s1 s'" using step_inv [OF s1(2) step.hyps(2)] step.prems by auto
  then show ?case using service_reach.step [OF s1(1)] by blast
qed

lemma reach_no_sweep:
  assumes "system_reach L False s r" and "system_inv L s" and "no_sweep s"
  shows "\<exists>s'. r = Inr s' \<and> system_inv L s' \<and> no_sweep s'"
  using assms(1)
proof (induction rule: system_reach.induct)
  case (step s' r)
  then show ?case using step_inv [of L s' False r] no_sweep_step [of s' L] by blast
qed (simp add: assms(2,3))

end
