(* ===== verification/Ownership.thy ===== *)
theory Ownership
  imports Lock_Logic Locked_Calls Allocator_Race
begin

text \<open>
  Who owns what while calls are under way: the invariant of the allocator and the policy engine with the
  leases, addresses and snapshots that single threads own, and what the steps on the lease table and
  the pool do to it.
\<close>

section \<open>What threads own, and the invariant\<close>

text \<open>A thread may own a lease that no index points to, an address that is marked and in no lease, and a
  snapshot that is no longer in force.\<close>

record owned =
  ow_lease :: "nat option"
  ow_due :: "u32 option"
  ow_old :: "nat option"

definition nothing :: owned where
  "nothing = \<lparr>ow_lease = None, ow_due = None, ow_old = None\<rparr>"

lemma nothing_simps [simp]: "ow_lease nothing = None" "ow_due nothing = None" "ow_old nothing = None"
  by (simp_all add: nothing_def)

definition apart :: "(nat \<Rightarrow> 'x option) \<Rightarrow> bool" where
  "apart f \<longleftrightarrow> (\<forall>i j x. f i = Some x \<longrightarrow> f j = Some x \<longrightarrow> i = j)"

definition dues :: "(nat \<Rightarrow> owned) \<Rightarrow> u32 set" where
  "dues G = {a. \<exists>i. ow_due (G i) = Some a}"

definition table_ok :: "('u, 's, 'f) strongswan \<Rightarrow> (nat \<Rightarrow> owned) \<Rightarrow> ('u, 's) ip_allocator \<Rightarrow> bool" where
  "table_ok L G al \<longleftrightarrow>
     al_invx L (dues G) al \<and> apart (\<lambda>i. ow_due (G i)) \<and> apart (\<lambda>i. ow_lease (G i)) \<and>
     (\<forall>i p. ow_lease (G i) = Some p \<longrightarrow> detached L al p)"

definition engine_ok :: "('u, 's, 'f) strongswan \<Rightarrow> (nat \<Rightarrow> owned) \<Rightarrow> 'f policy_engine \<Rightarrow> bool" where
  "engine_ok L G pe \<longleftrightarrow>
     (\<exists>a. pe_active pe = Some a \<and> pe_store pe a \<noteq> None) \<and>
     (\<forall>a sn. pe_store pe a = Some sn \<longrightarrow> a < pe_next pe \<and> sn_inv L sn) \<and>
     apart (\<lambda>i. ow_old (G i)) \<and>
     (\<forall>i a. ow_old (G i) = Some a \<longrightarrow> pe_store pe a \<noteq> None \<and> pe_active pe \<noteq> Some a)"

text \<open>\<open>races\<close>: sweeps or reloads may be under way; otherwise the policy never changes.\<close>

definition calls_inv ::
  "('u, 's, 'f) strongswan \<Rightarrow> ('u, 's) ip_allocator \<Rightarrow> 'f policy_engine \<Rightarrow> bool \<Rightarrow>
   ('u, 's, 'f) shared \<Rightarrow> (nat \<Rightarrow> owned) \<Rightarrow> bool" where
  "calls_inv L al0 pe0 races sh G \<longleftrightarrow>
     al_frame al0 (sh_al sh) \<and> table_ok L G (sh_al sh) \<and> engine_ok L G (sh_pe sh) \<and>
     (\<not> races \<longrightarrow> sh_pe sh = pe0 \<and> pe_inv L pe0)"

definition keeps_lease :: "owned \<Rightarrow> ('u, 's) ip_allocator \<Rightarrow> ('u, 's) ip_allocator \<Rightarrow> bool" where
  "keeps_lease g al al' \<longleftrightarrow>
     (\<forall>p. ow_lease g = Some p \<longrightarrow> sm_heap (al_sessions al') p = sm_heap (al_sessions al) p)"

definition calls ::
  "('u, 's, 'f) strongswan \<Rightarrow> ('u, 's) ip_allocator \<Rightarrow> 'f policy_engine \<Rightarrow> bool \<Rightarrow> (('u, 's, 'f) shared, owned) protocol" where
  "calls L al0 pe0 races =
     \<lparr>pr_inv = calls_inv L al0 pe0 races, pr_same = unchanged,
      pr_keeps = (\<lambda>g sh sh'. keeps_lease g (sh_al sh) (sh_al sh')), pr_idle = nothing, pr_faults = races\<rparr>"

lemma calls_simps [simp]:
  "pr_inv (calls L al0 pe0 races) = calls_inv L al0 pe0 races"
  "pr_same (calls L al0 pe0 races) = unchanged"
  "pr_keeps (calls L al0 pe0 races) = (\<lambda>g sh sh'. keeps_lease g (sh_al sh) (sh_al sh'))"
  "pr_idle (calls L al0 pe0 races) = nothing"
  "pr_faults (calls L al0 pe0 races) = races"
  by (simp_all add: calls_def)

lemma keeps_lease_refl [simp]: "keeps_lease g al al"
  by (simp add: keeps_lease_def)

text \<open>One thread takes or gives away.\<close>

lemma apart_upd:
  "apart f \<Longrightarrow> x = f i \<or> (\<forall>y. x = Some y \<longrightarrow> (\<forall>j. f j \<noteq> Some y)) \<Longrightarrow> apart (f(i := x))"
  unfolding apart_def by auto

lemma dues_upd:
  "apart (\<lambda>i. ow_due (G i)) \<Longrightarrow> dues (G(i := g)) = (dues G - set_option (ow_due (G i))) \<union> set_option (ow_due g)"
  unfolding apart_def dues_def by (auto split: if_splits)

lemma table_upd:
  assumes ok: "table_ok L G al" and al': "al_invx L (dues (G(i := g))) al'"
    and due: "ow_due g = ow_due (G i) \<or> (\<forall>a. ow_due g = Some a \<longrightarrow> a \<notin> dues G)"
    and lease: "ow_lease g = ow_lease (G i) \<or> (\<forall>p. ow_lease g = Some p \<longrightarrow> (\<forall>j. ow_lease (G j) \<noteq> Some p))"
    and own: "\<And>p. ow_lease g = Some p \<Longrightarrow> detached L al' p"
    and others: "\<And>p. detached L al p \<Longrightarrow> ow_lease (G i) \<noteq> Some p \<Longrightarrow> detached L al' p"
  shows "table_ok L (G(i := g)) al'"
proof -
  have ap: "apart (\<lambda>i. ow_due (G i))" "apart (\<lambda>i. ow_lease (G i))" using ok by (simp_all add: table_ok_def)
  have f: "(\<lambda>j. ow_due ((G(i := g)) j)) = (\<lambda>j. ow_due (G j))(i := ow_due g)"
    "(\<lambda>j. ow_lease ((G(i := g)) j)) = (\<lambda>j. ow_lease (G j))(i := ow_lease g)"
    by (simp_all add: fun_eq_iff)
  have "apart (\<lambda>j. ow_due ((G(i := g)) j))" unfolding f using due by (intro apart_upd [OF ap(1)]) (auto simp: dues_def)
  moreover have "apart (\<lambda>j. ow_lease ((G(i := g)) j))" unfolding f using lease by (intro apart_upd [OF ap(2)])
  moreover have "detached L al' p" if "ow_lease ((G(i := g)) j) = Some p" for j p
  proof (cases "j = i")
    case False
    then have j: "ow_lease (G j) = Some p" using that by simp
    then have "ow_lease (G i) \<noteq> Some p" using ap(2) False by (auto simp: apart_def)
    then show ?thesis using others ok j by (auto simp: table_ok_def)
  qed (use that own in simp)
  ultimately show ?thesis using al' by (simp add: table_ok_def)
qed


section \<open>What the single steps do\<close>

lemma idle_dues: "apart (\<lambda>i. ow_due (G i)) \<Longrightarrow> ow_due (G i) = None \<Longrightarrow> dues (G(i := g)) = dues G \<union> set_option (ow_due g)"
  by (simp add: dues_upd)

lemma idle_upd: "G i = nothing \<Longrightarrow> G(i := nothing) = G"
  by auto

text \<open>Unlinking a lease: the thread owns it, and its address.\<close>

lemma unbind_nothing:
  assumes ok: "table_ok L G al" and none: "uid_get L (al_sessions al) (uid_key w) = None"
  shows "\<exists>sm'. unbind L (al_sessions al) w = Inr (None, sm') \<and> table_ok L G (al\<lparr>al_sessions := sm'\<rparr>) \<and>
    sm_heap sm' = sm_heap (al_sessions al)"
proof -
  have ax: "al_invx L (dues G) al" using ok by (simp add: table_ok_def)
  obtain sm' where sm': "unbind L (al_sessions al) w = Inr (None, sm')" "sm_inv L sm'"
      "sm_abs L sm' = sm_abs L (al_sessions al)" "sm_heap sm' = sm_heap (al_sessions al)"
      "user_get L sm' = user_get L (al_sessions al)"
    using unbind_effect(1) [OF al_sm [OF ax] none] by blast
  have "sm_users L sm' = al_users L al" using sm'(3) by (simp add: sm_abs_def)
  then have "al_invx L (dues G) (al\<lparr>al_sessions := sm'\<rparr>)" using ax sm'(2) by (simp add: al_invx_def)
  moreover have "detached L (al\<lparr>al_sessions := sm'\<rparr>) = detached L al"
    using sm'(4,5) by (simp add: detached_def fun_eq_iff)
  ultimately have "table_ok L G (al\<lparr>al_sessions := sm'\<rparr>)" using ok by (simp add: table_ok_def)
  then show ?thesis using sm'(1,4) by blast
qed

lemma unbind_owned:
  assumes ok: "table_ok L G al" and i: "G i = nothing"
  shows "\<exists>r sm' g. unbind L (al_sessions al) w = Inr (r, sm') \<and> table_ok L (G(i := g)) (al\<lparr>al_sessions := sm'\<rparr>) \<and>
    sm_heap sm' = sm_heap (al_sessions al) \<and>
    (case r of None \<Rightarrow> g = nothing
     | Some p \<Rightarrow> \<exists>l. g = \<lparr>ow_lease = Some p, ow_due = dyn_addr l, ow_old = None\<rparr> \<and> sm_heap sm' p = Some l \<and> lease_ok l)"
proof -
  have ax: "al_invx L (dues G) al" and ap: "apart (\<lambda>i. ow_due (G i))" using ok by (simp_all add: table_ok_def)
  note sm = al_sm [OF ax]
  show ?thesis
  proof (cases "uid_get L (al_sessions al) (uid_key w)")
    case None
    then show ?thesis
      using unbind_nothing [OF ok None] idle_upd [of G i] i by (intro exI [of _ None]) fastforce
  next
    case (Some p)
    obtain l u where l: "al_users L al u = Some l" "user_get L (al_sessions al) u = Some p" "sm_heap (al_sessions al) p = Some l"
      using sm_uids_uid_get(2) [OF sm Some] by blast
    obtain sm' where sm': "unbind L (al_sessions al) w = Inr (Some p, sm')" "sm_detach L (al_sessions al) p sm'"
      using unbind_effect(2) [OF sm Some] by blast
    note dc = detach_coherent [OF sm l(2) sm'(2)]
    have heap: "sm_heap sm' = sm_heap (al_sessions al)"
      and fewer: "\<And>v q. user_get L sm' v = Some q \<Longrightarrow> user_get L (al_sessions al) v = Some q"
      using sm'(2) by (auto simp: sm_detach_def split: if_splits)
    let ?g = "\<lparr>ow_lease = Some p, ow_due = dyn_addr l, ow_old = None\<rparr>" and ?al = "al\<lparr>al_sessions := sm'\<rparr>"
    note out = pool_ok_take_out [OF al_pool [OF ax] l(1)]
    have "table_ok L (G(i := ?g)) ?al"
    proof (rule table_upd [OF ok])
      show "al_invx L (dues (G(i := ?g))) ?al"
        using ax dc(1,2) out(1) idle_dues [OF ap, of i ?g] i by (simp add: al_invx_def)
      show "ow_due ?g = ow_due (G i) \<or> (\<forall>a. ow_due ?g = Some a \<longrightarrow> a \<notin> dues G)" using out(2) by auto
      show "ow_lease ?g = ow_lease (G i) \<or> (\<forall>q. ow_lease ?g = Some q \<longrightarrow> (\<forall>j. ow_lease (G j) \<noteq> Some q))"
        using ok l(2) by (auto simp: table_ok_def detached_def)
      show "detached L ?al q" if "ow_lease ?g = Some q" for q
        using that al_lease [OF ax l(1)] l(3) heap dc(4) by (simp add: detached_def)
      show "detached L ?al q" if "detached L al q" for q
        using that fewer heap by (auto simp: detached_def)
    qed
    moreover have "lease_ok l" by (rule al_lease [OF ax l(1)])
    ultimately show ?thesis
      using sm'(1) heap l(3) by (intro exI [of _ "Some p"] exI [of _ sm'] exI [of _ ?g]) auto
  qed
qed

text \<open>Moving a lease to another id.\<close>

lemma migrate_owned:
  assumes ok: "table_ok L G al" and p: "user_get L (al_sessions al) u = Some p"
  shows "\<exists>sm'. migrate L now (al_sessions al) (Some u) w = Inr (Some p, sm') \<and> table_ok L G (al\<lparr>al_sessions := sm'\<rparr>) \<and>
    user_get L sm' = user_get L (al_sessions al) \<and>
    (\<forall>q. detached L al q \<longrightarrow> sm_heap sm' q = sm_heap (al_sessions al) q)"
proof -
  have ax: "al_invx L (dues G) al" using ok by (simp add: table_ok_def)
  note sm = al_sm [OF ax]
  obtain l where l: "al_users L al u = Some l" "sm_heap (al_sessions al) p = Some l"
    using sm_users_user_get(2) [OF sm p] by blast
  let ?l = "l\<lparr>le_unique_id := w, le_acquired := now\<rparr>"
  obtain sm' where sm': "migrate L now (al_sessions al) (Some u) w = Inr (Some p, sm')" "sm_inv L sm'"
      "user_get L sm' = user_get L (al_sessions al)" "sm_heap sm' = (sm_heap (al_sessions al))(p \<mapsto> ?l)"
      "(Some ?l, sm_abs L sm') = spec_migrate u w now (sm_abs L (al_sessions al))"
    using migrate_effect(2) [OF sm p l(2)] by blast
  have users: "sm_users L sm' = (al_users L al)(u \<mapsto> ?l)"
    using sm'(5) l(1) by (simp add: sm_abs_def spec_migrate_def Let_def)
  have inv: "al_invx L (dues G) (al\<lparr>al_sessions := sm'\<rparr>)"
    using ax sm'(2) al_lease [OF ax l(1)] pool_ok_migrate [where w = w and now = now, OF al_pool [OF ax] l(1)]
    by (auto simp: al_invx_def users lease_ok_def)
  have other: "q \<noteq> p" if "detached L al q" for q using that p by (auto simp: detached_def)
  then have "detached L (al\<lparr>al_sessions := sm'\<rparr>) q" if "detached L al q" for q
    using that sm'(3,4) by (auto simp: detached_def)
  then have "table_ok L G (al\<lparr>al_sessions := sm'\<rparr>)" using ok inv by (simp add: table_ok_def)
  then show ?thesis using sm'(1,3,4) other by (intro exI [of _ sm']) simp
qed


text \<open>A new lease, before it is entered.\<close>

lemma fresh_object:
  assumes inv: "sm_inv L sm"
  shows "sm_heap sm (sm_next sm) = None"
    and "sm_inv L (sm\<lparr>sm_heap := (sm_heap sm)(sm_next sm \<mapsto> l), sm_next := Suc (sm_next sm)\<rparr>)"
    and "sm_users L (sm\<lparr>sm_heap := (sm_heap sm)(sm_next sm \<mapsto> l), sm_next := Suc (sm_next sm)\<rparr>) = sm_users L sm"
proof -
  let ?p = "sm_next sm" and ?sm = "sm\<lparr>sm_heap := (sm_heap sm)(sm_next sm \<mapsto> l), sm_next := Suc (sm_next sm)\<rparr>"
  have c: "sm_coherent L sm" and t: "sm_tables L ?sm" using inv by (simp_all add: sm_inv_def sm_tables_def)
  show none: "sm_heap sm ?p = None" by (rule coherent_next [OF c]) simp
  have "sm_coherent L ?sm"
    unfolding sm_coherent_def
  proof (intro conjI allI impI)
    fix k q assume "uid_get L ?sm k = Some q"
    then have "uid_get L sm k = Some q" by simp
    from coherent_uid [OF c this] none
    show "\<exists>l u. sm_heap ?sm q = Some l \<and> k = uid_key (le_unique_id l) \<and> le_username l = Some u \<and> user_get L ?sm u = Some q"
      by (cases "q = ?p") auto
  next
    fix u q assume "user_get L ?sm u = Some q"
    then have "user_get L sm u = Some q" by simp
    from coherent_user [OF c this] none show "\<exists>l. sm_heap ?sm q = Some l \<and> le_username l = Some u"
      by (cases "q = ?p") auto
  qed (simp add: coherent_next [OF c])
  then show "sm_inv L ?sm" using t by (simp add: sm_inv_def)
  have "sm_users L ?sm u = sm_users L sm u" for u
    using coherent_user [OF c, of u] none by (cases "user_get L sm u") (fastforce simp: sm_users_def)+
  then show "sm_users L ?sm = sm_users L sm" by blast
qed

lemma create_owned:
  fixes al l
  defines "sm' \<equiv> (al_sessions al)\<lparr>sm_heap := (sm_heap (al_sessions al))(sm_next (al_sessions al) \<mapsto> l),
    sm_next := Suc (sm_next (al_sessions al))\<rparr>"
  assumes ok: "table_ok L G al" and i: "ow_lease (G i) = None" and l: "lease_ok l"
  shows "table_ok L (G(i := (G i)\<lparr>ow_lease := Some (sm_next (al_sessions al))\<rparr>)) (al\<lparr>al_sessions := sm'\<rparr>)"
    and "sm_heap (al_sessions al) (sm_next (al_sessions al)) = None"
proof -
  let ?p = "sm_next (al_sessions al)" and ?al = "al\<lparr>al_sessions := sm'\<rparr>"
  let ?g = "(G i)\<lparr>ow_lease := Some ?p\<rparr>"
  have ax: "al_invx L (dues G) al" and ap: "apart (\<lambda>i. ow_due (G i))" using ok by (simp_all add: table_ok_def)
  note fresh = fresh_object(1) [OF al_sm [OF ax]] fresh_object(2,3) [OF al_sm [OF ax], of l, folded sm'_def]
  show none: "sm_heap (al_sessions al) ?p = None" by (rule fresh(1))
  have same: "user_get L sm' = user_get L (al_sessions al)" by (simp add: sm'_def)
  have unused: "user_get L (al_sessions al) u \<noteq> Some ?p" for u
    using sm_users_user_get(2) [OF al_sm [OF ax], of u ?p] none by auto
  have "dues (G(i := ?g)) = dues G" by (auto simp: dues_def)
  show "table_ok L (G(i := ?g)) ?al"
  proof (rule table_upd [OF ok])
    show "al_invx L (dues (G(i := ?g))) ?al"
      using ax fresh(2,3) \<open>dues (G(i := ?g)) = dues G\<close> by (simp add: al_invx_def)
    show "ow_lease ?g = ow_lease (G i) \<or> (\<forall>q. ow_lease ?g = Some q \<longrightarrow> (\<forall>j. ow_lease (G j) \<noteq> Some q))"
    proof (intro disjI2 allI impI notI)
      fix q j assume "ow_lease ?g = Some q" "ow_lease (G j) = Some q"
      then have "detached L al ?p" using ok by (auto simp: table_ok_def)
      then show False using none by (simp add: detached_def)
    qed
    show "detached L ?al q" if "ow_lease ?g = Some q" for q
      using that l unused by (simp add: detached_def same) (simp add: sm'_def)
    show "detached L ?al q" if "detached L al q" for q
      using that none by (auto simp: detached_def sm'_def)
  qed simp
qed

text \<open>Entering it: the table owns the lease and its address.\<close>

lemma pool_ok_enter:
  assumes ok: "pool_ok X dyn users" and u: "users u = None" and l: "set_option (dyn_addr l) \<subseteq> X"
  shows "pool_ok (X - set_option (dyn_addr l)) dyn (users(u \<mapsto> l))"
proof (cases "dyn_addr l")
  case None
  have "dynamic (users(u \<mapsto> l)) = dynamic users" using None u by (auto simp: dynamic_def fun_eq_iff)
  from pool_ok_cong [OF this, of X dyn] show ?thesis using ok None by simp
next
  case (Some a)
  then obtain d where d: "dyn = Some d" using ok l by (cases dyn) (auto simp: pool_ok_def)
  have "dynamic users u = None" using u by (simp add: dynamic_def)
  then show ?thesis
    using ok l Some d ran_insert [of "dynamic users" u a] inj_on_insert [of "dynamic users" a u]
    by (auto simp: pool_ok_def dynamic_upd)
qed

lemma attach_owned:
  fixes L al p u w
  defines "sm' \<equiv> (al_sessions al)\<lparr>sm_by_uid := fst (ht_put (uid_ht L) (sm_by_uid (al_sessions al)) (uid_key w) p),
    sm_by_user := fst (ht_put (user_ht L) (sm_by_user (al_sessions al)) u p)\<rparr>"
  assumes ok: "table_ok L G al" and i: "ow_lease (G i) = Some p" "ow_due (G i) = dyn_addr l"
    and l: "sm_heap (al_sessions al) p = Some l" "le_username l = Some u" "le_unique_id l = w"
    and none: "user_get L (al_sessions al) u = None"
  shows "table_ok L (G(i := nothing)) (al\<lparr>al_sessions := sm'\<rparr>)" and "user_get L sm' u = Some p"
proof -
  let ?sm = "al_sessions al" and ?al = "al\<lparr>al_sessions := sm'\<rparr>"
  have ax: "al_invx L (dues G) al" and ap: "apart (\<lambda>i. ow_due (G i))" "apart (\<lambda>i. ow_lease (G i))"
    and d: "detached L al p" using ok i by (simp_all add: table_ok_def)
  note sm = al_sm [OF ax]
  have t: "sm_tables L ?sm" using sm by (simp add: sm_inv_def)
  have no: "\<forall>v. user_get L ?sm v \<noteq> Some p" "\<forall>k. uid_get L ?sm k \<noteq> Some p"
    using d coherent_detached [OF sm d] by (simp_all add: detached_def)
  let ?out = "?sm\<lparr>sm_heap := (sm_heap ?sm)(p := None)\<rparr>"
  have sm0: "sm_inv L ?out" "sm_users L ?out = sm_users L ?sm" using free_detached [OF sm l(1) no] by auto
  have t': "sm_tables L sm'" using sm_tables_upd(3) [OF sm_tables_upd(1) [OF t]] by (simp add: sm'_def)
  have "sm_coherent L ?sm" using sm by (simp add: sm_inv_def)
  then have "\<not> sm_next ?sm \<le> p" using coherent_next [of L ?sm p] l(1) by auto
  then have lt: "p < sm_next sm'" by (simp add: sm'_def)
  have tabs: "uid_get L sm' = (uid_get L ?out)(uid_key w \<mapsto> p)" "user_get L sm' = (user_get L ?out)(u \<mapsto> p)"
    by (simp_all add: sm'_def sm_table_ops [OF t])
  have at: "sm_inv L sm'" "sm_abs L sm' = ((sm_users L ?out)(u \<mapsto> l), (sm_uids L ?out)(w \<mapsto> u))"
    using attach_coherent [OF sm0(1) _ _ lt t' _ _ tabs l(2,3)] none l(1) by (simp_all add: sm'_def fun_upd_idem)
  then have users: "sm_users L sm' = (al_users L al)(u \<mapsto> l)" by (simp add: sm_abs_def sm0(2))
  show "user_get L sm' u = Some p" by (simp add: tabs)
  have "lease_ok l" using d l(1) by (simp add: detached_def)
  moreover have X: "dues (G(i := nothing)) = dues G - set_option (dyn_addr l)" using dues_upd [OF ap(1)] i by simp
  have "set_option (dyn_addr l) \<subseteq> dues G" using i(2) by (auto simp: dues_def intro!: exI [of _ i])
  then have "pool_ok (dues (G(i := nothing))) (al_dyn al) ((al_users L al)(u \<mapsto> l))"
    unfolding X using pool_ok_enter [OF al_pool [OF ax]] sm_users_user_get(1) [OF sm none] by blast
  ultimately have "al_invx L (dues (G(i := nothing))) ?al" using ax at(1) by (auto simp: al_invx_def users)
  then show "table_ok L (G(i := nothing)) ?al"
  proof (rule table_upd [OF ok])
    show "detached L ?al q" if "detached L al q" "ow_lease (G i) \<noteq> Some q" for q
      using that i(1) by (auto simp: detached_def tabs) (auto simp: sm'_def)
  qed simp_all
qed


text \<open>Marking an address of the pool, and clearing one.\<close>

lemma take_owned:
  assumes ok: "table_ok L G al" and i: "ow_due (G i) = None" and d: "al_dyn al = Some d"
  shows "\<exists>r d'. dp_acquire L d = Inr (r, d') \<and> dp_universe d' = dp_universe d \<and> (\<forall>h. r = Some h \<longrightarrow> h_family h = AF_INET) \<and>
    table_ok L (G(i := (G i)\<lparr>ow_due := map_option host_to_u32 r\<rparr>)) (al\<lparr>al_dyn := Some d'\<rparr>)"
proof -
  have ax: "al_invx L (dues G) al" and ap: "apart (\<lambda>i. ow_due (G i))" using ok by (simp_all add: table_ok_def)
  have pool: "dp_inv d" "dp_allocated d = ran (dynamic (al_users L al)) \<union> dues G"
      "ran (dynamic (al_users L al)) \<inter> dues G = {}" "inj_on (dynamic (al_users L al)) (dom (dynamic (al_users L al)))"
    using al_pool [OF ax] d by (simp_all add: pool_ok_def)
  obtain r d' where r: "dp_acquire L d = Inr (r, d')" "dp_inv d'" "dp_universe d' = dp_universe d" "ip_addrs r = least_free d"
      "\<forall>h. r = Some h \<longrightarrow> h_family h = AF_INET" "dp_allocated d' = dp_allocated d \<union> least_free d"
    using dp_take [OF al_lib [OF ax] pool(1)] by blast
  have new: "set_option (map_option host_to_u32 r) = least_free d" using r(4,5) by (cases r) (auto simp: ip_addrs_def)
  have free: "least_free d \<inter> dp_allocated d = {}" by (auto simp: least_free_def)
  let ?g = "(G i)\<lparr>ow_due := map_option host_to_u32 r\<rparr>" and ?al = "al\<lparr>al_dyn := Some d'\<rparr>"
  have dues: "dues (G(i := ?g)) = dues G \<union> least_free d" using idle_dues [OF ap i, of ?g] new by simp
  have "pool_ok (dues (G(i := ?g))) (Some d') (al_users L al)"
    using pool r(2,6) free unfolding dues by (auto simp: pool_ok_def)
  then have "al_invx L (dues (G(i := ?g))) ?al" using ax by (simp add: al_invx_def)
  moreover have "a \<notin> dues G" if "ow_due ?g = Some a" for a
  proof -
    have "a \<in> least_free d" using that by (simp flip: new)
    then show ?thesis using free pool(2) by blast
  qed
  moreover have "detached L ?al = detached L al" by (simp add: detached_def fun_eq_iff)
  ultimately have "table_ok L (G(i := ?g)) ?al"
    using ok by (intro table_upd [OF ok]) (auto simp: table_ok_def)
  then show ?thesis using r(1,3,5) by blast
qed

lemma clear_owned:
  assumes ok: "table_ok L G al" and i: "ow_due (G i) = Some (host_to_u32 h)" "h_family h = AF_INET"
  shows "\<exists>d d'. al_dyn al = Some d \<and> dp_is_in_pool d (Some h) \<and> dp_release d (Some h) = Inr d' \<and>
    dp_universe d' = dp_universe d \<and> table_ok L (G(i := (G i)\<lparr>ow_due := None\<rparr>)) (al\<lparr>al_dyn := Some d'\<rparr>)"
proof -
  have ax: "al_invx L (dues G) al" and ap: "apart (\<lambda>i. ow_due (G i))" using ok by (simp_all add: table_ok_def)
  have a: "host_to_u32 h \<in> dues G" using i(1) by (auto simp: dues_def)
  then obtain d where d: "al_dyn al = Some d" using al_pool [OF ax] by (cases "al_dyn al") (auto simp: pool_ok_def)
  have pool: "dp_inv d" "dp_allocated d = ran (dynamic (al_users L al)) \<union> dues G"
    using al_pool [OF ax] d by (simp_all add: pool_ok_def)
  then have "host_to_u32 h \<in> dp_universe d" using a by (auto simp: dp_allocated_def)
  then have inside: "dp_is_in_pool d (Some h)" using i(2) by (simp add: dp_is_in_pool_def dp_universe_def Let_def)
  obtain d' where d': "dp_release d (Some h) = Inr d'" "dp_allocated d' = dp_allocated d - ip_addrs (Some h)"
      "dp_universe d' = dp_universe d" "dp_inv d'" using dp_release_law [OF pool(1)] by blast
  let ?g = "(G i)\<lparr>ow_due := None\<rparr>" and ?al = "al\<lparr>al_dyn := Some d'\<rparr>"
  have dues: "dues (G(i := ?g)) = dues G - {host_to_u32 h}" using dues_upd [OF ap] i(1) by simp
  have "pool_ok (dues (G(i := ?g))) (Some d') (al_users L al)"
    unfolding dues by (rule pool_ok_clear [of _ d]) (use al_pool [OF ax] d a d' i(2) in simp_all)
  then have "al_invx L (dues (G(i := ?g))) ?al" using ax by (simp add: al_invx_def)
  moreover have "detached L ?al = detached L al" by (simp add: detached_def fun_eq_iff)
  ultimately have "table_ok L (G(i := ?g)) ?al"
    using ok by (intro table_upd [OF ok]) (auto simp: table_ok_def)
  then show ?thesis using d inside d'(1,3) by blast
qed

text \<open>Freeing the lease.\<close>

lemma destroy_owned:
  fixes al p
  defines "sm' \<equiv> (al_sessions al)\<lparr>sm_heap := (sm_heap (al_sessions al))(p := None)\<rparr>"
  assumes ok: "table_ok L G al" and i: "ow_lease (G i) = Some p"
  shows "lease_destroy (al_sessions al) (Some p) = Inr sm'"
    and "table_ok L (G(i := (G i)\<lparr>ow_lease := None\<rparr>)) (al\<lparr>al_sessions := sm'\<rparr>)"
proof -
  let ?al = "al\<lparr>al_sessions := sm'\<rparr>" and ?g = "(G i)\<lparr>ow_lease := None\<rparr>"
  have ax: "al_invx L (dues G) al" and d: "detached L al p" using ok i by (simp_all add: table_ok_def)
  note sm = al_sm [OF ax]
  obtain l where l: "sm_heap (al_sessions al) p = Some l" "\<forall>u. user_get L (al_sessions al) u \<noteq> Some p"
    using d by (auto simp: detached_def)
  have free: "lease_destroy (al_sessions al) (Some p) = Inr sm'" "sm_inv L sm'" "sm_users L sm' = al_users L al"
    using free_detached [OF sm l] coherent_detached [OF sm d] by (auto simp: sm'_def)
  then show "lease_destroy (al_sessions al) (Some p) = Inr sm'" by simp
  have "dues (G(i := ?g)) = dues G" by (auto simp: dues_def)
  then have "al_invx L (dues (G(i := ?g))) ?al" using ax free(2,3) by (simp add: al_invx_def)
  then show "table_ok L (G(i := ?g)) ?al"
  proof (rule table_upd [OF ok])
    show "detached L ?al q" if "detached L al q" "ow_lease (G i) \<noteq> Some q" for q
      using that i by (auto simp: detached_def sm'_def)
  qed simp_all
qed

end
