(* ===== verification/Locked_Safety.thy ===== *)
theory Locked_Safety
  imports Ownership
begin

text \<open>
  The programs of \<open>Locked_Calls\<close> are safe: whatever the other threads do between any two of their steps,
  none of them faults, the lease table stays coherent, and every marked address belongs to a lease or to
  exactly one thread.  The only exceptions are those of the code: the sweep with its plain pointers, and
  lookups while the policy is exchanged.
\<close>

section \<open>Steps of the programs\<close>

text \<open>What is known between two steps is said of the allocator and of what the thread owns.\<close>

definition knows :: "(('u, 's) ip_allocator \<Rightarrow> owned \<Rightarrow> bool) \<Rightarrow> ('u, 's, 'f) shared \<Rightarrow> owned \<Rightarrow> bool" where
  "knows A sh g \<longleftrightarrow> A (sh_al sh) g"

abbreviation idle :: "('u, 's) ip_allocator \<Rightarrow> owned \<Rightarrow> bool" where
  "idle \<equiv> \<lambda>al g. g = nothing"

definition finds :: "('u, 's, 'f) strongswan \<Rightarrow> string \<Rightarrow> nat option \<Rightarrow> ('u, 's) ip_allocator \<Rightarrow> owned \<Rightarrow> bool" where
  "finds L u r al g \<longleftrightarrow> user_get L (al_sessions al) u = r"

definition has_lease :: "nat \<Rightarrow> lease \<Rightarrow> ('u, 's) ip_allocator \<Rightarrow> owned \<Rightarrow> bool" where
  "has_lease p l al g \<longleftrightarrow> ow_lease g = Some p \<and> sm_heap (al_sessions al) p = Some l"

named_theorems stables "what the steps of other threads leave true"

lemma stable_knows [stables]: "stable P H (knows (\<lambda>al g. A g))"
  by (simp add: stable_def knows_def)

lemma stable_and [stables]:
  "stable P H (knows A) \<Longrightarrow> stable P H (knows B) \<Longrightarrow> stable P H (knows (\<lambda>al g. A al g \<and> B al g))"
  unfolding stable_def knows_def by blast

lemma stable_finds [stables]:
  assumes "Alloc_Lock \<in> H"
  shows "stable (calls L al0 pe0 races) H (knows (finds L u r))"
  unfolding stable_def knows_def
proof (intro allI impI)
  fix s s' :: "('a, 'b, 'c) shared" and G :: "nat \<Rightarrow> owned" and i
  assume "finds L u r (sh_al s) (G i)" and "\<forall>l\<in>H. pr_same (calls L al0 pe0 races) l s s'"
  then have "unchanged Alloc_Lock s s'" "finds L u r (sh_al s) (G i)" using assms by simp_all
  then show "finds L u r (sh_al s') (G i)" by (simp add: finds_def unchanged_def same_table_def)
qed

lemma stable_has_lease [stables]: "stable (calls L al0 pe0 races) H (knows (has_lease p l))"
  by (simp add: stable_def knows_def has_lease_def keeps_lease_def)

lemma table_frame:
  assumes "calls_inv L al0 pe0 races sh G" and "table_ok L (G(i := g)) al'" and "al_frame (sh_al sh) al'" and "ow_old g = ow_old (G i)"
  shows "calls_inv L al0 pe0 races (sh\<lparr>sh_al := al'\<rparr>) (G(i := g))"
proof -
  have old: "ow_old ((G(i := g)) j) = ow_old (G j)" for j using assms(4) by simp
  have "engine_ok L (G(i := g)) pe = engine_ok L G pe" for pe unfolding engine_ok_def old ..
  then show ?thesis using assms(1-3) al_frame_trans by (auto simp: calls_inv_def)
qed

lemma safe_on_al:
  assumes step: "\<And>al G i. table_ok L G al \<Longrightarrow> A al (G i) \<Longrightarrow>
      (f al = Inl Use_After_Free \<and> races) \<or>
      (\<exists>x al' g. f al = Inr (x, al') \<and> table_ok L (G(i := g)) al' \<and> al_frame al al' \<and> ow_old g = ow_old (G i) \<and>
        (\<forall>q. detached L al q \<longrightarrow> ow_lease (G i) \<noteq> Some q \<longrightarrow> sm_heap (al_sessions al') q = sm_heap (al_sessions al) q) \<and>
        B x al' g)"
    and stable: "\<And>x. stable (calls L al0 pe0 races) H (knows (B x))"
  shows "safe (calls L al0 pe0 races) H (knows A) (on_al f) H (\<lambda>x. knows (B x))"
  unfolding on_al_def
proof (rule safe_doP [OF _ stable])
  fix sh :: "('a, 'b, 'c) shared" and G :: "nat \<Rightarrow> owned" and i
  assume "pr_inv (calls L al0 pe0 races) sh G" and A: "knows A sh (G i)"
  then have inv: "calls_inv L al0 pe0 races sh G" and ok: "table_ok L G (sh_al sh)" by (simp_all add: calls_inv_def)
  from step [OF ok A [unfolded knows_def]]
  show "(bindR (f (sh_al sh)) (\<lambda>(x, al). Inr (x, sh\<lparr>sh_al := al\<rparr>)) = Inl Use_After_Free \<and> pr_faults (calls L al0 pe0 races)) \<or>
    (\<exists>x s' g. bindR (f (sh_al sh)) (\<lambda>(x, al). Inr (x, sh\<lparr>sh_al := al\<rparr>)) = Inr (x, s') \<and>
      pr_inv (calls L al0 pe0 races) s' (G(i := g)) \<and>
      (\<forall>j. j \<noteq> i \<longrightarrow> pr_keeps (calls L al0 pe0 races) (G j) sh s') \<and> knows (B x) s' g)"
  proof (elim disjE exE conjE)
    fix x al' g
    assume r: "f (sh_al sh) = Inr (x, al')" "table_ok L (G(i := g)) al'" "al_frame (sh_al sh) al'" "ow_old g = ow_old (G i)"
        "\<forall>q. detached L (sh_al sh) q \<longrightarrow> ow_lease (G i) \<noteq> Some q \<longrightarrow>
          sm_heap (al_sessions al') q = sm_heap (al_sessions (sh_al sh)) q" "B x al' g"
    have "keeps_lease (G j) (sh_al sh) al'" if "j \<noteq> i" for j
      using that ok r(5) unfolding keeps_lease_def table_ok_def apart_def by metis
    then show ?thesis using r table_frame [OF inv r(2-4)] by (auto simp: knows_def)
  qed simp
qed

text \<open>Reading.\<close>

lemma safe_getP:
  assumes "\<And>sh G i. calls_inv L al0 pe0 races sh G \<Longrightarrow> A (sh_al sh) (G i) \<Longrightarrow> B (f sh) (sh_al sh) (G i)"
    and "\<And>x. stable (calls L al0 pe0 races) H (knows (B x))"
  shows "safe (calls L al0 pe0 races) H (knows A) (getP f) H (\<lambda>x. knows (B x))"
  unfolding getP_def
proof (rule safe_doP [OF _ assms(2)])
  fix sh :: "('a, 'b, 'c) shared" and G :: "nat \<Rightarrow> owned" and i
  assume "pr_inv (calls L al0 pe0 races) sh G" "knows A sh (G i)"
  then show "(Inr (f sh, sh) = Inl Use_After_Free \<and> pr_faults (calls L al0 pe0 races)) \<or>
    (\<exists>x s' g. Inr (f sh, sh) = Inr (x, s') \<and> pr_inv (calls L al0 pe0 races) s' (G(i := g)) \<and>
      (\<forall>j. j \<noteq> i \<longrightarrow> pr_keeps (calls L al0 pe0 races) (G j) sh s') \<and> knows (B x) s' g)"
    using assms(1) by (intro disjI2 exI [of _ "f sh"] exI [of _ sh] exI [of _ "G i"]) (simp add: knows_def)
qed


abbreviation sound ::
  "('u, 's, 'f) strongswan \<Rightarrow> ('u, 's) ip_allocator \<Rightarrow> 'f policy_engine \<Rightarrow> bool \<Rightarrow> lock set \<Rightarrow>
   (('u, 's) ip_allocator \<Rightarrow> owned \<Rightarrow> bool) \<Rightarrow> (('u, 's, 'f) shared, 'a) prog \<Rightarrow> lock set \<Rightarrow>
   ('a \<Rightarrow> ('u, 's) ip_allocator \<Rightarrow> owned \<Rightarrow> bool) \<Rightarrow> bool" where
  "sound L al0 pe0 races H A p H' B \<equiv> safe (calls L al0 pe0 races) H (knows A) p H' (\<lambda>x. knows (B x))"

lemma sound_sessions:
  assumes "\<And>al G i. table_ok L G al \<Longrightarrow> A al (G i) \<Longrightarrow>
      (f (al_sessions al) = Inl Use_After_Free \<and> races) \<or>
      (\<exists>x sm' g. f (al_sessions al) = Inr (x, sm') \<and> table_ok L (G(i := g)) (al\<lparr>al_sessions := sm'\<rparr>) \<and>
        ow_old g = ow_old (G i) \<and>
        (\<forall>q. detached L al q \<longrightarrow> ow_lease (G i) \<noteq> Some q \<longrightarrow> sm_heap sm' q = sm_heap (al_sessions al) q) \<and>
        B x (al\<lparr>al_sessions := sm'\<rparr>) g)"
    and "\<And>x. stable (calls L al0 pe0 races) H (knows (B x))"
  shows "sound L al0 pe0 races H A (on_sessions f) H B"
  unfolding on_sessions_def
proof (rule safe_on_al [OF _ assms(2)])
  fix al G i assume "table_ok L G al" "A al (G i)"
  from assms(1) [OF this]
  show "(bindR (f (al_sessions al)) (\<lambda>(x, sm). Inr (x, al\<lparr>al_sessions := sm\<rparr>)) = Inl Use_After_Free \<and> races) \<or>
    (\<exists>x al' g. bindR (f (al_sessions al)) (\<lambda>(x, sm). Inr (x, al\<lparr>al_sessions := sm\<rparr>)) = Inr (x, al') \<and>
      table_ok L (G(i := g)) al' \<and> al_frame al al' \<and> ow_old g = ow_old (G i) \<and>
      (\<forall>q. detached L al q \<longrightarrow> ow_lease (G i) \<noteq> Some q \<longrightarrow> sm_heap (al_sessions al') q = sm_heap (al_sessions al) q) \<and>
      B x al' g)"
  proof (elim disjE exE conjE)
    fix x sm' g
    assume "f (al_sessions al) = Inr (x, sm')" "table_ok L (G(i := g)) (al\<lparr>al_sessions := sm'\<rparr>)" "ow_old g = ow_old (G i)"
      "\<forall>q. detached L al q \<longrightarrow> ow_lease (G i) \<noteq> Some q \<longrightarrow> sm_heap sm' q = sm_heap (al_sessions al) q"
      "B x (al\<lparr>al_sessions := sm'\<rparr>) g"
    then show ?thesis
      by (intro disjI2 exI [of _ x] exI [of _ "al\<lparr>al_sessions := sm'\<rparr>"] exI [of _ g]) (simp add: al_frame_def)
  qed simp
qed

lemma sound_sessions_read:
  assumes "\<And>al G i. table_ok L G al \<Longrightarrow> A al (G i) \<Longrightarrow>
      (q (al_sessions al) = Inl Use_After_Free \<and> races) \<or> (\<exists>y. q (al_sessions al) = Inr y \<and> B y al (G i))"
    and "\<And>x. stable (calls L al0 pe0 races) H (knows (B x))"
  shows "sound L al0 pe0 races H A (on_sessions (\<lambda>sm. bindR (q sm) (\<lambda>y. Inr (y, sm)))) H B"
proof (rule sound_sessions [OF _ assms(2)])
  fix al G i assume ok: "table_ok L G al" and A: "A al (G i)"
  from assms(1) [OF ok A]
  show "(bindR (q (al_sessions al)) (\<lambda>y. Inr (y, al_sessions al)) = Inl Use_After_Free \<and> races) \<or>
    (\<exists>x sm' g. bindR (q (al_sessions al)) (\<lambda>y. Inr (y, al_sessions al)) = Inr (x, sm') \<and>
      table_ok L (G(i := g)) (al\<lparr>al_sessions := sm'\<rparr>) \<and> ow_old g = ow_old (G i) \<and>
      (\<forall>q. detached L al q \<longrightarrow> ow_lease (G i) \<noteq> Some q \<longrightarrow> sm_heap sm' q = sm_heap (al_sessions al) q) \<and>
      B x (al\<lparr>al_sessions := sm'\<rparr>) g)"
  proof (elim disjE exE conjE)
    fix y assume "q (al_sessions al) = Inr y" "B y al (G i)"
    then show ?thesis using ok
      by (intro disjI2 exI [of _ y] exI [of _ "al_sessions al"] exI [of _ "G i"]) simp
  qed simp
qed

section \<open>The lease table under its locks\<close>

text \<open>A critical section of the form lock, one step, unlock.\<close>

lemma sound_section:
  assumes "l \<notin> H" and "sound L al0 pe0 races (insert l H) A p (insert l H) B"
    and "\<And>x. stable (calls L al0 pe0 races) H (knows (B x))"
  shows "sound L al0 pe0 races H A (bindP (lockP l) (\<lambda>_. bindP p (\<lambda>x. bindP (unlockP l) (\<lambda>_. Return x)))) H B"
  by (rule safe_lock, rule safe_bindP [OF assms(2)], rule safe_unlock [OF assms(1,3)], rule safe.ret)

lemma sound_lookup:
  assumes "Alloc_Lock \<in> H" and "Sessions_Mutex \<notin> H"
  shows "sound L al0 pe0 races H idle (lookup_by_user_p L (Some u)) H (\<lambda>r al g. g = nothing \<and> finds L u r al g)"
  unfolding lookup_by_user_p_def option.case
  by (rule sound_section [OF assms(2)], rule safe_getP)
    (auto simp: finds_def lookup_by_user_def assms intro!: stables [unfolded finds_def])

lemma sound_migrate:
  assumes "Alloc_Lock \<in> H" and "Sessions_Mutex \<notin> H"
  shows "sound L al0 pe0 races H (\<lambda>al g. g = nothing \<and> finds L u (Some p) al g) (migrate_p L now (Some u) w) H
    (\<lambda>_ al g. g = nothing \<and> finds L u (Some p) al g)"
  unfolding migrate_p_def option.case
proof (rule sound_section [OF assms(2) sound_sessions])
  fix al G i assume ok: "table_ok L G al" and A: "G i = nothing \<and> finds L u (Some p) al (G i)"
  then have "user_get L (al_sessions al) u = Some p" by (simp add: finds_def)
  from migrate_owned [OF ok this, of now w]
  obtain sm' where "migrate L now (al_sessions al) (Some u) w = Inr (Some p, sm')" "table_ok L G (al\<lparr>al_sessions := sm'\<rparr>)"
      "user_get L sm' = user_get L (al_sessions al)" "\<forall>q. detached L al q \<longrightarrow> sm_heap sm' q = sm_heap (al_sessions al) q"
    by blast
  then show "(migrate L now (al_sessions al) (Some u) w = Inl Use_After_Free \<and> races) \<or>
    (\<exists>x sm' g. migrate L now (al_sessions al) (Some u) w = Inr (x, sm') \<and> table_ok L (G(i := g)) (al\<lparr>al_sessions := sm'\<rparr>) \<and>
      ow_old g = ow_old (G i) \<and>
      (\<forall>q. detached L al q \<longrightarrow> ow_lease (G i) \<noteq> Some q \<longrightarrow> sm_heap sm' q = sm_heap (al_sessions al) q) \<and>
      (g = nothing \<and> finds L u (Some p) (al\<lparr>al_sessions := sm'\<rparr>) g))"
    using A idle_upd [of G i] by (intro disjI2 exI [of _ "Some p"] exI [of _ sm'] exI [of _ nothing]) (simp add: finds_def)
qed (intro stables; simp add: assms)+

lemma sound_read_found:
  assumes "Alloc_Lock \<in> H"
  shows "sound L al0 pe0 races H (\<lambda>al g. g = nothing \<and> finds L u (Some p) al g) (read_lease p) H
    (\<lambda>l al g. (g = nothing \<and> finds L u (Some p) al g) \<and> lease_ok l)"
  unfolding read_lease_def
proof (rule sound_sessions_read)
  fix al G i assume ok: "table_ok L G al" and A: "G i = nothing \<and> finds L u (Some p) al (G i)"
  have ax: "al_invx L (dues G) al" using ok by (simp add: table_ok_def)
  obtain l where "al_users L al u = Some l" "sm_heap (al_sessions al) p = Some l"
    using sm_users_user_get(2) [OF al_sm [OF ax]] A by (auto simp: finds_def)
  then show "(deref (sm_heap (al_sessions al)) p = Inl Use_After_Free \<and> races) \<or>
      (\<exists>y. deref (sm_heap (al_sessions al)) p = Inr y \<and> ((G i = nothing \<and> finds L u (Some p) al (G i)) \<and> lease_ok y))"
    using A al_lease [OF ax] by (intro disjI2 exI [of _ l]) (simp add: store_simps finds_def)
qed (intro stables; simp add: assms)

text \<open>The copy for charon.\<close>

lemma sound_result:
  assumes "stable (calls L al0 pe0 races) H (knows A)"
  shows "sound L al0 pe0 races H (\<lambda>al g. A al g \<and> lease_ok l)
    (doP (\<lambda>sh. bindR (nonnull (le_ip l)) (\<lambda>h. Inr (if c then Some h else None, sh)))) H (\<lambda>_. A)"
proof (rule safe_doP [OF _ assms])
  fix sh :: "('a, 'b, 'c) shared" and G :: "nat \<Rightarrow> owned" and i
  assume "pr_inv (calls L al0 pe0 races) sh G" and A: "knows (\<lambda>al g. A al g \<and> lease_ok l) sh (G i)"
  then obtain h where "le_ip l = Some h" by (auto simp: knows_def lease_ok_def)
  then show "(bindR (nonnull (le_ip l)) (\<lambda>h. Inr (if c then Some h else None, sh)) = Inl Use_After_Free \<and> pr_faults (calls L al0 pe0 races)) \<or>
    (\<exists>x s' g. bindR (nonnull (le_ip l)) (\<lambda>h. Inr (if c then Some h else None, sh)) = Inr (x, s') \<and>
      pr_inv (calls L al0 pe0 races) s' (G(i := g)) \<and>
      (\<forall>j. j \<noteq> i \<longrightarrow> pr_keeps (calls L al0 pe0 races) (G j) sh s') \<and> knows A s' g)"
    using A \<open>pr_inv (calls L al0 pe0 races) sh G\<close>
    by (intro disjI2 exI [of _ "if c then Some h else None"] exI [of _ sh] exI [of _ "G i"]) (simp add: knows_def store_simps)
qed


text \<open>\<open>bind_lease\<close> for a user without a lease and an address that is fixed, or marked and due to the thread.\<close>

definition fresh_lease :: "string \<Rightarrow> u32 \<Rightarrow> host \<Rightarrow> bool \<Rightarrow> int \<Rightarrow> lease" where
  "fresh_lease u w h fixed now =
     \<lparr>le_username = Some u, le_unique_id = w, le_ip = Some h, le_fixed = fixed, le_acquired = now\<rparr>"

lemma fresh_lease_simps [simp]:
  "le_username (fresh_lease u w h fixed now) = Some u" "le_unique_id (fresh_lease u w h fixed now) = w"
  "dyn_addr (fresh_lease u w h fixed now) = (if fixed then None else Some (host_to_u32 h))"
  "lease_ok (fresh_lease u w h fixed now) \<longleftrightarrow> fixed \<or> h_family h = AF_INET"
  by (simp_all add: fresh_lease_def dyn_addr_def lease_ok_def)

definition holding :: "host \<Rightarrow> bool \<Rightarrow> owned \<Rightarrow> bool" where
  "holding h fixed g \<longleftrightarrow>
     g = nothing\<lparr>ow_due := (if fixed then None else Some (host_to_u32 h))\<rparr> \<and> (fixed \<or> h_family h = AF_INET)"

lemma sound_evict:
  assumes "Alloc_Lock \<in> H"
  shows "sound L al0 pe0 races H (\<lambda>al g. finds L u None al g \<and> holding h fixed g)
    (on_sessions (\<lambda>sm. bindR (evict L sm u) (\<lambda>sm'. Inr ((), sm')))) H (\<lambda>_ al g. finds L u None al g \<and> holding h fixed g)"
proof (rule sound_sessions)
  fix al G i assume ok: "table_ok L G al" and A: "finds L u None al (G i) \<and> holding h fixed (G i)"
  then have "evict L (al_sessions al) u = Inr (al_sessions al)" by (simp add: evict_def finds_def)
  then show "(bindR (evict L (al_sessions al) u) (\<lambda>sm'. Inr ((), sm')) = Inl Use_After_Free \<and> races) \<or>
    (\<exists>x sm' g. bindR (evict L (al_sessions al) u) (\<lambda>sm'. Inr ((), sm')) = Inr (x, sm') \<and>
      table_ok L (G(i := g)) (al\<lparr>al_sessions := sm'\<rparr>) \<and> ow_old g = ow_old (G i) \<and>
      (\<forall>q. detached L al q \<longrightarrow> ow_lease (G i) \<noteq> Some q \<longrightarrow> sm_heap sm' q = sm_heap (al_sessions al) q) \<and>
      (finds L u None (al\<lparr>al_sessions := sm'\<rparr>) g \<and> holding h fixed g))"
    using ok A by (intro disjI2 exI [of _ "()"] exI [of _ "al_sessions al"] exI [of _ "G i"]) simp
qed (intro stables; simp add: assms)

lemma sound_create:
  assumes "Alloc_Lock \<in> H" and "lease_memory_ok m"
  shows "sound L al0 pe0 races H (\<lambda>al g. finds L u None al g \<and> holding h fixed g)
    (on_sessions (\<lambda>sm. Inr (lease_create (ok_lease_malloc m) (ok_lease_strdup m) now sm u w (Some h) fixed))) H
    (\<lambda>r al g. finds L u None al g \<and> r = ow_lease g \<and> has_lease (the r) (fresh_lease u w h fixed now) al g \<and>
      ow_due g = dyn_addr (fresh_lease u w h fixed now) \<and> ow_old g = None)"
proof (rule sound_sessions)
  fix al G i assume ok: "table_ok L G al" and A: "finds L u None al (G i) \<and> holding h fixed (G i)"
  let ?l = "fresh_lease u w h fixed now" and ?sm = "al_sessions al"
  let ?new = "?sm\<lparr>sm_heap := (sm_heap ?sm)(sm_next ?sm \<mapsto> ?l), sm_next := Suc (sm_next ?sm)\<rparr>"
  let ?g = "(G i)\<lparr>ow_lease := Some (sm_next ?sm)\<rparr>"
  have i: "ow_lease (G i) = None" "lease_ok ?l" using A by (auto simp: holding_def)
  note new = create_owned [OF ok i]
  have "lease_create (ok_lease_malloc m) (ok_lease_strdup m) now ?sm u w (Some h) fixed = (Some (sm_next ?sm), ?new)"
    using assms(2) by (simp add: lease_create_def lease_memory_ok_def fresh_lease_def)
  then show "(Inr (lease_create (ok_lease_malloc m) (ok_lease_strdup m) now ?sm u w (Some h) fixed) = Inl Use_After_Free \<and> races) \<or>
    (\<exists>x sm' g. Inr (lease_create (ok_lease_malloc m) (ok_lease_strdup m) now ?sm u w (Some h) fixed) = Inr (x, sm') \<and>
      table_ok L (G(i := g)) (al\<lparr>al_sessions := sm'\<rparr>) \<and> ow_old g = ow_old (G i) \<and>
      (\<forall>q. detached L al q \<longrightarrow> ow_lease (G i) \<noteq> Some q \<longrightarrow> sm_heap sm' q = sm_heap ?sm q) \<and>
      (finds L u None (al\<lparr>al_sessions := sm'\<rparr>) g \<and> x = ow_lease g \<and> has_lease (the x) ?l (al\<lparr>al_sessions := sm'\<rparr>) g \<and>
       ow_due g = dyn_addr ?l \<and> ow_old g = None))"
    using new A
    by (intro disjI2 exI [of _ "Some (sm_next ?sm)"] exI [of _ ?new] exI [of _ ?g])
      (auto simp: finds_def has_lease_def holding_def detached_def)
qed (intro stables; simp add: assms)

lemma sound_attach:
  assumes "Alloc_Lock \<in> H" and that: "le_username l = Some u" "le_unique_id l = w"
  shows "sound L al0 pe0 races H
    (\<lambda>al g. finds L u None al g \<and> Some p = ow_lease g \<and> has_lease p l al g \<and> ow_due g = dyn_addr l \<and> ow_old g = None)
    (on_sessions (\<lambda>sm.
      bindR (deref (sm_heap sm) p) (\<lambda>l.
      bindR (nonnull (le_username l)) (\<lambda>name.
      Inr ((), sm\<lparr>sm_by_uid := fst (ht_put (uid_ht L) (sm_by_uid sm) (uid_key w) p),
                  sm_by_user := fst (ht_put (user_ht L) (sm_by_user sm) name p)\<rparr>))))) H
    (\<lambda>_ al g. g = nothing \<and> finds L u (Some p) al g)"
proof (rule sound_sessions)
  fix al G i assume ok: "table_ok L G al"
    and A: "finds L u None al (G i) \<and> Some p = ow_lease (G i) \<and> has_lease p l al (G i) \<and> ow_due (G i) = dyn_addr l \<and> ow_old (G i) = None"
  let ?sm = "al_sessions al"
  let ?new = "?sm\<lparr>sm_by_uid := fst (ht_put (uid_ht L) (sm_by_uid ?sm) (uid_key w) p),
    sm_by_user := fst (ht_put (user_ht L) (sm_by_user ?sm) u p)\<rparr>"
  have l: "sm_heap ?sm p = Some l" using A by (simp add: has_lease_def)
  note new = attach_owned [OF ok _ _ l that]
  have "table_ok L (G(i := nothing)) (al\<lparr>al_sessions := ?new\<rparr>)" "user_get L ?new u = Some p"
    using new A by (simp_all add: finds_def)
  then show "(bindR (deref (sm_heap ?sm) p) (\<lambda>l. bindR (nonnull (le_username l)) (\<lambda>name.
      Inr ((), ?sm\<lparr>sm_by_uid := fst (ht_put (uid_ht L) (sm_by_uid ?sm) (uid_key w) p),
                  sm_by_user := fst (ht_put (user_ht L) (sm_by_user ?sm) name p)\<rparr>))) = Inl Use_After_Free \<and> races) \<or>
    (\<exists>x sm' g. bindR (deref (sm_heap ?sm) p) (\<lambda>l. bindR (nonnull (le_username l)) (\<lambda>name.
      Inr ((), ?sm\<lparr>sm_by_uid := fst (ht_put (uid_ht L) (sm_by_uid ?sm) (uid_key w) p),
                  sm_by_user := fst (ht_put (user_ht L) (sm_by_user ?sm) name p)\<rparr>))) = Inr (x, sm') \<and>
      table_ok L (G(i := g)) (al\<lparr>al_sessions := sm'\<rparr>) \<and> ow_old g = ow_old (G i) \<and>
      (\<forall>q. detached L al q \<longrightarrow> ow_lease (G i) \<noteq> Some q \<longrightarrow> sm_heap sm' q = sm_heap ?sm q) \<and>
      (g = nothing \<and> finds L u (Some p) (al\<lparr>al_sessions := sm'\<rparr>) g))"
    using that(1) l A
    by (intro disjI2 exI [of _ "()"] exI [of _ ?new] exI [of _ nothing]) (simp add: store_simps finds_def)
qed (intro stables; simp add: assms)

lemma sound_bind:
  assumes "Alloc_Lock \<in> H" and "Sessions_Mutex \<notin> H" and "lease_memory_ok m"
  shows "sound L al0 pe0 races H (\<lambda>al g. finds L u None al g \<and> holding h fixed g)
    (bind_lease_p L m now (Some u) w (Some h) fixed) H (\<lambda>r al g. r \<noteq> None \<and> g = nothing \<and> finds L u r al g)"
proof -
  let ?l = "fresh_lease u w h fixed now" and ?K = "insert Sessions_Mutex H"
  have K: "Alloc_Lock \<in> ?K" using assms(1) by simp
  have rest: "sound L al0 pe0 races ?K
      (\<lambda>al g. finds L u None al g \<and> lease = ow_lease g \<and> has_lease (the lease) ?l al g \<and> ow_due g = dyn_addr ?l \<and> ow_old g = None)
      (case lease of
         None \<Rightarrow> bindP (unlockP Sessions_Mutex) (\<lambda>_. Return None)
       | Some p \<Rightarrow>
           bindP (on_sessions (\<lambda>sm.
             bindR (deref (sm_heap sm) p) (\<lambda>l.
             bindR (nonnull (le_username l)) (\<lambda>name.
             Inr ((), sm\<lparr>sm_by_uid := fst (ht_put (uid_ht L) (sm_by_uid sm) (uid_key w) p),
                         sm_by_user := fst (ht_put (user_ht L) (sm_by_user sm) name p)\<rparr>))))) (\<lambda>_.
           bindP (unlockP Sessions_Mutex) (\<lambda>_. Return (Some p)))) H
      (\<lambda>r al g. r \<noteq> None \<and> g = nothing \<and> finds L u r al g)" for lease
  proof (cases lease)
    case None
    have "sound L al0 pe0 races ?K (\<lambda>al g. False) (bindP (unlockP Sessions_Mutex) (\<lambda>_. Return None)) H
        (\<lambda>r al g. r \<noteq> None \<and> g = nothing \<and> finds L u r al g)"
      by (rule safe_unlock [OF assms(2) stable_knows], rule safe.ret) (simp add: knows_def)
    then show ?thesis unfolding None option.case
      by (rule safe_weaken) (auto simp: knows_def has_lease_def)
  next
    case (Some p)
    show ?thesis
      unfolding Some option.case option.sel
      by (rule safe_bindP [OF sound_attach [OF K]], simp, simp, rule safe_unlock [OF assms(2)], intro stables, rule assms(1), rule safe.ret)
        (simp add: knows_def)
  qed
  show ?thesis
    unfolding bind_lease_p_def option.case
    by (rule safe_lock, rule safe_bindP [OF sound_evict [OF K]], rule safe_bindP [OF sound_create [OF K assms(3)]], rule rest)
qed


section \<open>The pool under its mutex\<close>

lemma stable_ex [stables]:
  "(\<And>x. stable P H (knows (A x))) \<Longrightarrow> stable P H (knows (\<lambda>al g. \<exists>x. A x al g))"
  unfolding stable_def knows_def by blast

lemma stable_case [stables]:
  "stable P H (knows A) \<Longrightarrow> (\<And>p. stable P H (knows (B p))) \<Longrightarrow>
    stable P H (knows (\<lambda>al g. case r of None \<Rightarrow> A al g | Some p \<Rightarrow> B p al g))"
  by (cases r) simp_all

definition takes :: "host option \<Rightarrow> owned \<Rightarrow> bool" where
  "takes r g \<longleftrightarrow> (case r of None \<Rightarrow> g = nothing | Some h \<Rightarrow> holding h False g)"

lemma sound_dp_acquire:
  assumes "Alloc_Lock \<in> H" and "Pool_Mutex \<notin> H"
  shows "sound L al0 pe0 races H (\<lambda>al g. g = nothing \<and> finds L u None al g) (dp_acquire_p L) H
    (\<lambda>r al g. finds L u None al g \<and> takes r g)"
  unfolding dp_acquire_p_def on_pool_def
proof (rule sound_section [OF assms(2) safe_on_al])
  fix al G i assume ok: "table_ok L G al" and A: "G i = nothing \<and> finds L u None al (G i)"
  show "((case al_dyn al of None \<Rightarrow> Inr (None, al)
      | Some d \<Rightarrow> bindR (dp_acquire L d) (\<lambda>(y, d'). Inr (y, al\<lparr>al_dyn := Some d'\<rparr>))) = Inl Use_After_Free \<and> races) \<or>
    (\<exists>x al' g. (case al_dyn al of None \<Rightarrow> Inr (None, al)
      | Some d \<Rightarrow> bindR (dp_acquire L d) (\<lambda>(y, d'). Inr (y, al\<lparr>al_dyn := Some d'\<rparr>))) = Inr (x, al') \<and>
      table_ok L (G(i := g)) al' \<and> al_frame al al' \<and> ow_old g = ow_old (G i) \<and>
      (\<forall>q. detached L al q \<longrightarrow> ow_lease (G i) \<noteq> Some q \<longrightarrow> sm_heap (al_sessions al') q = sm_heap (al_sessions al) q) \<and>
      (finds L u None al' g \<and> takes x g))"
  proof (cases "al_dyn al")
    case None
    then show ?thesis using ok A idle_upd [of G i]
      by (intro disjI2 exI [of _ None] exI [of _ al] exI [of _ nothing]) (simp add: takes_def finds_def)
  next
    case (Some d)
    obtain r d' where r: "dp_acquire L d = Inr (r, d')" "dp_universe d' = dp_universe d" "\<forall>h. r = Some h \<longrightarrow> h_family h = AF_INET"
        "table_ok L (G(i := (G i)\<lparr>ow_due := map_option host_to_u32 r\<rparr>)) (al\<lparr>al_dyn := Some d'\<rparr>)"
      using take_owned [OF ok _ Some, of i] A by auto
    then show ?thesis using A Some
      by (intro disjI2 exI [of _ r] exI [of _ "al\<lparr>al_dyn := Some d'\<rparr>"] exI [of _ "(G i)\<lparr>ow_due := map_option host_to_u32 r\<rparr>"])
        (cases r; simp add: takes_def holding_def finds_def al_frame_def nothing_def)
  qed
qed (intro stables; simp add: assms)+

text \<open>A lease taken out of the table by the thread, and the address it has still to clear.\<close>

definition unlinked :: "nat \<Rightarrow> lease \<Rightarrow> u32 option \<Rightarrow> ('u, 's) ip_allocator \<Rightarrow> owned \<Rightarrow> bool" where
  "unlinked p l d al g \<longleftrightarrow> has_lease p l al g \<and> g = \<lparr>ow_lease = Some p, ow_due = d, ow_old = None\<rparr> \<and> lease_ok l"

lemma stable_unlinked [stables]: "stable (calls L al0 pe0 races) H (knows (unlinked p l d))"
  unfolding unlinked_def by (intro stables)

lemma sound_clear:
  assumes "Pool_Mutex \<in> H" and "h_family h = AF_INET"
  shows "sound L al0 pe0 races H (unlinked p l (Some (host_to_u32 h)))
    (on_pool () (\<lambda>d. bindR (dp_release d (Some h)) (\<lambda>d'. Inr ((), d')))) H (\<lambda>_. unlinked p l None)"
  unfolding on_pool_def
proof (rule safe_on_al)
  fix al G i assume ok: "table_ok L G al" and A: "unlinked p l (Some (host_to_u32 h)) al (G i)"
  then have i: "ow_due (G i) = Some (host_to_u32 h)" by (simp add: unlinked_def)
  obtain d d' where d: "al_dyn al = Some d" "dp_release d (Some h) = Inr d'" "dp_universe d' = dp_universe d"
      "table_ok L (G(i := (G i)\<lparr>ow_due := None\<rparr>)) (al\<lparr>al_dyn := Some d'\<rparr>)"
    using clear_owned [OF ok i assms(2)] by blast
  then show "((case al_dyn al of None \<Rightarrow> Inr ((), al)
      | Some d \<Rightarrow> bindR (bindR (dp_release d (Some h)) (\<lambda>d'. Inr ((), d'))) (\<lambda>(y, d'). Inr (y, al\<lparr>al_dyn := Some d'\<rparr>)))
        = Inl Use_After_Free \<and> races) \<or>
    (\<exists>x al' g. (case al_dyn al of None \<Rightarrow> Inr ((), al)
      | Some d \<Rightarrow> bindR (bindR (dp_release d (Some h)) (\<lambda>d'. Inr ((), d'))) (\<lambda>(y, d'). Inr (y, al\<lparr>al_dyn := Some d'\<rparr>)))
        = Inr (x, al') \<and>
      table_ok L (G(i := g)) al' \<and> al_frame al al' \<and> ow_old g = ow_old (G i) \<and>
      (\<forall>q. detached L al q \<longrightarrow> ow_lease (G i) \<noteq> Some q \<longrightarrow> sm_heap (al_sessions al') q = sm_heap (al_sessions al) q) \<and>
      unlinked p l None al' g)"
    using A by (intro disjI2 exI [of _ "()"] exI [of _ "al\<lparr>al_dyn := Some d'\<rparr>"] exI [of _ "(G i)\<lparr>ow_due := None\<rparr>"])
      (simp add: unlinked_def has_lease_def al_frame_def)
qed (rule stable_unlinked)

lemma sound_dp_release:
  assumes "Pool_Mutex \<notin> H" and "h_family h = AF_INET"
  shows "sound L al0 pe0 races H (unlinked p l (Some (host_to_u32 h))) (dp_release_p (Some h)) H (\<lambda>_. unlinked p l None)"
proof -
  have inside: "sound L al0 pe0 races H (unlinked p l (Some (host_to_u32 h)))
      (getP (\<lambda>sh. case al_dyn (sh_al sh) of None \<Rightarrow> False | Some d \<Rightarrow> dp_is_in_pool d (Some h))) H
      (\<lambda>x al g. unlinked p l (Some (host_to_u32 h)) al g \<and> x)"
  proof (rule safe_getP)
    fix sh :: "('a, 'b, 'c) shared" and G i
    assume inv: "calls_inv L al0 pe0 races sh G" and A: "unlinked p l (Some (host_to_u32 h)) (sh_al sh) (G i)"
    have "table_ok L G (sh_al sh)" using inv by (simp add: calls_inv_def)
    moreover have "ow_due (G i) = Some (host_to_u32 h)" using A by (simp add: unlinked_def)
    ultimately obtain d where "al_dyn (sh_al sh) = Some d" "dp_is_in_pool d (Some h)" using clear_owned [OF _ _ assms(2)] by blast
    then show "unlinked p l (Some (host_to_u32 h)) (sh_al sh) (G i) \<and>
      (case al_dyn (sh_al sh) of None \<Rightarrow> False | Some d \<Rightarrow> dp_is_in_pool d (Some h))" using A by simp
  qed (intro stables)
  have "sound L al0 pe0 races H (\<lambda>al g. unlinked p l (Some (host_to_u32 h)) al g \<and> x)
      (if \<not> x then Return ()
       else
         bindP (lockP Pool_Mutex) (\<lambda>_.
         bindP (on_pool () (\<lambda>d. bindR (dp_release d (Some h)) (\<lambda>d'. Inr ((), d')))) (\<lambda>_.
         unlockP Pool_Mutex))) H (\<lambda>_. unlinked p l None)" for x
  proof (cases x)
    case False
    then show ?thesis by simp (rule safe.ret, simp add: knows_def)
  next
    case True
    have "Pool_Mutex \<in> insert Pool_Mutex H" by simp
    note step = sound_clear [OF this assms(2)]
    show ?thesis
      using True
      by simp (rule safe_lock, rule safe_bindP [OF step], rule safe_unlock_last [OF assms(1) stable_unlinked])
  qed
  from safe_bindP [OF inside this] show ?thesis unfolding dp_release_p_def .
qed


section \<open>The release\<close>

lemma sound_unbind:
  assumes "Sessions_Mutex \<notin> H"
  shows "sound L al0 pe0 races H idle (unbind_p L w) H
    (\<lambda>r al g. case r of None \<Rightarrow> g = nothing | Some p \<Rightarrow> \<exists>l. unlinked p l (dyn_addr l) al g)"
  unfolding unbind_p_def
proof (rule sound_section [OF assms sound_sessions])
  fix al G i assume ok: "table_ok L G al" and A: "G i = nothing"
  obtain r sm' g where r: "unbind L (al_sessions al) w = Inr (r, sm')" "table_ok L (G(i := g)) (al\<lparr>al_sessions := sm'\<rparr>)"
      "sm_heap sm' = sm_heap (al_sessions al)"
      "case r of None \<Rightarrow> g = nothing
       | Some p \<Rightarrow> \<exists>l. g = \<lparr>ow_lease = Some p, ow_due = dyn_addr l, ow_old = None\<rparr> \<and> sm_heap sm' p = Some l \<and> lease_ok l"
    using unbind_owned [OF ok A, of w] by blast
  have "ow_old g = None" using r(4) by (auto split: option.splits)
  moreover have "case r of None \<Rightarrow> g = nothing | Some p \<Rightarrow> \<exists>l. unlinked p l (dyn_addr l) (al\<lparr>al_sessions := sm'\<rparr>) g"
    using r(4) by (auto simp: unlinked_def has_lease_def split: option.splits)
  ultimately show "(unbind L (al_sessions al) w = Inl Use_After_Free \<and> races) \<or>
    (\<exists>x sm' g. unbind L (al_sessions al) w = Inr (x, sm') \<and> table_ok L (G(i := g)) (al\<lparr>al_sessions := sm'\<rparr>) \<and>
      ow_old g = ow_old (G i) \<and>
      (\<forall>q. detached L al q \<longrightarrow> ow_lease (G i) \<noteq> Some q \<longrightarrow> sm_heap sm' q = sm_heap (al_sessions al) q) \<and>
      (case x of None \<Rightarrow> g = nothing | Some p \<Rightarrow> \<exists>l. unlinked p l (dyn_addr l) (al\<lparr>al_sessions := sm'\<rparr>) g))"
    using r(1-3) A by (intro disjI2 exI [of _ r] exI [of _ sm'] exI [of _ g]) simp
qed (intro stables)+

lemma sound_read_owned:
  "sound L al0 pe0 races H (\<lambda>al g. \<exists>l. unlinked p l (dyn_addr l) al g) (read_lease p) H (\<lambda>l. unlinked p l (dyn_addr l))"
  unfolding read_lease_def
  by (rule sound_sessions_read) (auto simp: unlinked_def has_lease_def store_simps intro: stable_unlinked)

lemma sound_destroy:
  "sound L al0 pe0 races H (unlinked p l None)
    (on_sessions (\<lambda>sm. bindR (lease_destroy sm (Some p)) (\<lambda>sm'. Inr ((), sm')))) H (\<lambda>_. idle)"
proof (rule sound_sessions)
  fix al G i assume ok: "table_ok L G al" and A: "unlinked p l None al (G i)"
  then have i: "ow_lease (G i) = Some p" and none: "(G i)\<lparr>ow_lease := None\<rparr> = nothing" by (simp_all add: unlinked_def nothing_def)
  let ?sm = "(al_sessions al)\<lparr>sm_heap := (sm_heap (al_sessions al))(p := None)\<rparr>"
  note free = destroy_owned [OF ok i]
  have "ow_old (G i) = None" using A by (simp add: unlinked_def)
  then show "(bindR (lease_destroy (al_sessions al) (Some p)) (\<lambda>sm'. Inr ((), sm')) = Inl Use_After_Free \<and> races) \<or>
    (\<exists>x sm' g. bindR (lease_destroy (al_sessions al) (Some p)) (\<lambda>sm'. Inr ((), sm')) = Inr (x, sm') \<and>
      table_ok L (G(i := g)) (al\<lparr>al_sessions := sm'\<rparr>) \<and> ow_old g = ow_old (G i) \<and>
      (\<forall>q. detached L al q \<longrightarrow> ow_lease (G i) \<noteq> Some q \<longrightarrow> sm_heap sm' q = sm_heap (al_sessions al) q) \<and> g = nothing)"
    using free i none by (intro disjI2 exI [of _ "()"] exI [of _ ?sm] exI [of _ nothing]) auto
qed (rule stable_knows)

text \<open>Clearing the bit, if the lease is a dynamic one.\<close>

lemma sound_give_back:
  assumes "below 3 H"
  shows "sound L al0 pe0 races H (\<lambda>al g. unlinked p l (dyn_addr l) al g \<and> (dyn \<or> dyn_addr l = None))
    (if \<not> le_fixed l \<and> dyn \<and> le_ip l \<noteq> None then dp_release_p (le_ip l) else Return ()) H (\<lambda>_. unlinked p l None)"
proof (cases "\<not> le_fixed l \<and> dyn \<and> le_ip l \<noteq> None")
  case True
  then obtain h where h: "le_ip l = Some h" by auto
  then have d: "dyn_addr l = Some (host_to_u32 h)" using True by (simp add: dyn_addr_def)
  have "Pool_Mutex \<notin> H" using assms by (auto simp: below_def)
  have "sound L al0 pe0 races H (unlinked p l (Some (host_to_u32 h))) (dp_release_p (Some h)) H (\<lambda>_. unlinked p l None)"
  proof (cases "h_family h = AF_INET")
    case True
    show ?thesis by (rule sound_dp_release [OF \<open>Pool_Mutex \<notin> H\<close> True])
  next
    case False
    show ?thesis
      by (rule safe_never [OF dp_release_disciplined [OF assms]])
        (use False True h in \<open>auto simp: knows_def unlinked_def lease_ok_def\<close>)
  qed
  then have "sound L al0 pe0 races H (\<lambda>al g. unlinked p l (dyn_addr l) al g \<and> (dyn \<or> dyn_addr l = None))
      (dp_release_p (le_ip l)) H (\<lambda>_. unlinked p l None)"
    unfolding h by (rule safe_weaken) (auto simp: knows_def d)
  then show ?thesis using True by simp
next
  case False
  have "dyn_addr l = None" if "unlinked p l d al g" "dyn \<or> dyn_addr l = None" for d al g
    using that False by (auto simp: unlinked_def lease_ok_def dyn_addr_def)
  then have "unlinked p l None al g" if "unlinked p l (dyn_addr l) al g" "dyn \<or> dyn_addr l = None" for al g
    using that by metis
  then show ?thesis using False by (simp only: if_False) (rule safe.ret, auto simp: knows_def)
qed

lemma sound_release:
  assumes "below 2 H"
  shows "sound L al0 pe0 races H idle (release_by_uid_impl_p L w) H (\<lambda>_. idle)"
proof -
  have H: "Alloc_Lock \<notin> H" "Sessions_Mutex \<notin> insert Alloc_Lock H" "below 3 H"
    using assms by (auto simp: below_def)
  have dyn: "sound L al0 pe0 races H (unlinked p l (dyn_addr l)) (getP (\<lambda>sh. al_dyn (sh_al sh) \<noteq> None)) H
      (\<lambda>dyn al g. unlinked p l (dyn_addr l) al g \<and> (dyn \<or> dyn_addr l = None))" for p l
  proof (rule safe_getP)
    fix sh :: "('a, 'b, 'c) shared" and G i
    assume inv: "calls_inv L al0 pe0 races sh G" and A: "unlinked p l (dyn_addr l) (sh_al sh) (G i)"
    have "al_invx L (dues G) (sh_al sh)" using inv by (simp add: calls_inv_def table_ok_def)
    from al_pool [OF this] have "dues G = {}" if "al_dyn (sh_al sh) = None" using that by (simp add: pool_ok_def)
    moreover have "a \<in> dues G" if "dyn_addr l = Some a" for a
      using A that by (auto simp: unlinked_def dues_def intro!: exI [of _ i])
    ultimately show "unlinked p l (dyn_addr l) (sh_al sh) (G i) \<and> (al_dyn (sh_al sh) \<noteq> None \<or> dyn_addr l = None)"
      using A by (cases "dyn_addr l") auto
  qed (intro stables)
  have rest: "sound L al0 pe0 races H (\<lambda>al g. case r of None \<Rightarrow> g = nothing | Some p \<Rightarrow> \<exists>l. unlinked p l (dyn_addr l) al g)
      (case r of
         None \<Rightarrow> Return False
       | Some p \<Rightarrow>
           bindP (read_lease p) (\<lambda>l.
           bindP (getP (\<lambda>sh. al_dyn (sh_al sh) \<noteq> None)) (\<lambda>dyn.
           bindP (if \<not> le_fixed l \<and> dyn \<and> le_ip l \<noteq> None then dp_release_p (le_ip l) else Return ()) (\<lambda>_.
           bindP (on_sessions (\<lambda>sm. bindR (lease_destroy sm (Some p)) (\<lambda>sm'. Inr ((), sm')))) (\<lambda>_.
           Return True))))) H (\<lambda>_. idle)" for r
  proof (cases r)
    case (Some p)
    show ?thesis
      unfolding Some option.case
      by (rule safe_bindP [OF sound_read_owned], rule safe_bindP [OF dyn], rule safe_bindP [OF sound_give_back [OF H(3)]],
        rule safe_bindP [OF sound_destroy], rule safe.ret)
  qed (simp add: safe.ret)
  show ?thesis
    unfolding release_by_uid_impl_p_def
    by (rule safe_lock, rule safe_bindP [OF sound_unbind [OF H(2)]], rule safe_unlock [OF H(1) _ rest],
      intro stables)
qed


section \<open>The acquire\<close>

text \<open>A step that only reads; the result is what the thread then knows.\<close>

lemma sound_reading:
  assumes "\<And>sh G i. calls_inv L al0 pe0 races sh G \<Longrightarrow> A (sh_al sh) (G i) \<Longrightarrow>
      (q sh = Inl Use_After_Free \<and> races) \<or> (\<exists>y. q sh = Inr y \<and> B (k y) (sh_al sh) (G i))"
    and "\<And>x. stable (calls L al0 pe0 races) H (knows (B x))"
  shows "sound L al0 pe0 races H A (doP (\<lambda>sh. bindR (q sh) (\<lambda>y. Inr (k y, sh)))) H B"
proof (rule safe_doP [OF _ assms(2)])
  fix sh :: "('a, 'b, 'c) shared" and G :: "nat \<Rightarrow> owned" and i
  assume inv: "pr_inv (calls L al0 pe0 races) sh G" and A: "knows A sh (G i)"
  have "(q sh = Inl Use_After_Free \<and> races) \<or> (\<exists>y. q sh = Inr y \<and> B (k y) (sh_al sh) (G i))"
    using assms(1) [of sh G i] inv A by (simp add: knows_def)
  then show "(bindR (q sh) (\<lambda>y. Inr (k y, sh)) = Inl Use_After_Free \<and> pr_faults (calls L al0 pe0 races)) \<or>
    (\<exists>x s' g. bindR (q sh) (\<lambda>y. Inr (k y, sh)) = Inr (x, s') \<and> pr_inv (calls L al0 pe0 races) s' (G(i := g)) \<and>
      (\<forall>j. j \<noteq> i \<longrightarrow> pr_keeps (calls L al0 pe0 races) (G j) sh s') \<and> knows (B x) s' g)"
  proof (elim disjE exE conjE)
    fix y assume "q sh = Inr y" "B (k y) (sh_al sh) (G i)"
    then show ?thesis using inv
      by (intro disjI2 exI [of _ "k y"] exI [of _ sh] exI [of _ "G i"]) (simp add: knows_def)
  qed simp
qed

definition lendable :: "'f policy_engine \<Rightarrow> bool \<Rightarrow> borrowed option \<Rightarrow> bool" where
  "lendable pe0 races b \<longleftrightarrow> races \<or> (\<forall>c. b = Some c \<longrightarrow> borrow_clone pe0 c \<noteq> Inl Use_After_Free)"

lemma borrow_clone_cases: "borrow_clone pe b = Inl Use_After_Free \<or> borrow_clone pe b = Inr (snd b)"
  by (cases "pe_store pe (fst b)") (simp_all add: borrow_clone_def store_simps)

lemma engine_lookup:
  assumes "calls_inv L al0 pe0 races sh G"
  shows "\<exists>b. pe_lookup_fixed L (sh_pe sh) (Some u) = Inr b \<and> lendable pe0 races b"
proof (cases races)
  case True
  obtain a sn where "pe_active (sh_pe sh) = Some a" "pe_store (sh_pe sh) a = Some sn"
    using assms by (auto simp: calls_inv_def engine_ok_def)
  then show ?thesis using True by (simp add: pe_lookup_fixed_def pe_lookup_in_answer lendable_def)
next
  case False
  then have "sh_pe sh = pe0" "pe_inv L pe0" using assms by (simp_all add: calls_inv_def)
  then show ?thesis using pe_lookup_fixed_law [of L pe0 u] by (cases "pe_fixed L pe0 u") (auto simp: lendable_def)
qed

lemma sound_lookup_fixed:
  assumes "stable (calls L al0 pe0 races) H (knows A)"
  shows "sound L al0 pe0 races H A (lookup_fixed_p L m u) H (\<lambda>_. A)"
proof -
  have lend: "sound L al0 pe0 races H A (doP (\<lambda>sh. bindR (pe_lookup_fixed L (sh_pe sh) (Some u)) (\<lambda>b. Inr (b, sh)))) H
      (\<lambda>b al g. A al g \<and> lendable pe0 races b)"
    by (rule sound_reading) (use engine_lookup in blast, intro stables assms)
  have copy: "sound L al0 pe0 races H (\<lambda>al g. A al g \<and> lendable pe0 races (Some b))
      (doP (\<lambda>sh. bindR (borrow_clone (sh_pe sh) b) (\<lambda>h. Inr (h, sh)))) H (\<lambda>_. A)" for b
  proof (rule sound_reading)
    fix sh :: "('a, 'b, 'c) shared" and G i
    assume inv: "calls_inv L al0 pe0 races sh G" and A: "A (sh_al sh) (G i) \<and> lendable pe0 races (Some b)"
    then have "races \<or> borrow_clone (sh_pe sh) b \<noteq> Inl Use_After_Free" by (auto simp: lendable_def calls_inv_def)
    then show "(borrow_clone (sh_pe sh) b = Inl Use_After_Free \<and> races) \<or>
      (\<exists>y. borrow_clone (sh_pe sh) b = Inr y \<and> A (sh_al sh) (G i))"
      using borrow_clone_cases [of "sh_pe sh" b] A by auto
  qed (rule assms)
  have rest: "sound L al0 pe0 races H (\<lambda>al g. A al g \<and> lendable pe0 races r)
      (case r of None \<Rightarrow> Return None
       | Some b \<Rightarrow> bindP (doP (\<lambda>sh. bindR (borrow_clone (sh_pe sh) b) (\<lambda>h. Inr (h, sh))))
           (\<lambda>h. Return (if ok_fixed_clone m then Some h else None))) H (\<lambda>_. A)" for r
  proof (cases r)
    case None
    then show ?thesis by simp (rule safe.ret, simp add: knows_def)
  next
    case (Some b)
    show ?thesis unfolding Some option.case by (rule safe_bindP [OF copy], rule safe.ret)
  qed
  show ?thesis
  proof (cases "is_anon u")
    case True
    then show ?thesis by (simp add: lookup_fixed_p_def safe.ret)
  next
    case False
    then show ?thesis using safe_bindP [OF lend rest] by (simp add: lookup_fixed_p_def)
  qed
qed

lemma sound_choose:
  assumes "Alloc_Lock \<in> H" and "Pool_Mutex \<notin> H"
  shows "sound L al0 pe0 races H (\<lambda>al g. g = nothing \<and> finds L u None al g) (choose_ip_p L m u) H
    (\<lambda>(ip, fixed) al g. finds L u None al g \<and> (case ip of None \<Rightarrow> g = nothing | Some h \<Rightarrow> holding h fixed g))"
proof -
  have A: "stable (calls L al0 pe0 races) H (knows (\<lambda>al g. g = nothing \<and> finds L u None al g))"
    by (intro stables) (rule assms(1))
  have dyn: "sound L al0 pe0 races H (\<lambda>al g. g = nothing \<and> finds L u None al g) (getP (\<lambda>sh. al_dyn (sh_al sh) \<noteq> None)) H
      (\<lambda>_ al g. g = nothing \<and> finds L u None al g)"
    by (rule safe_getP [OF _ A])
  have pool: "sound L al0 pe0 races H (\<lambda>al g. g = nothing \<and> finds L u None al g)
      (if d then bindP (dp_acquire_p L) (\<lambda>ip. Return (ip, False)) else Return (None, False)) H
      (\<lambda>(ip, fixed) al g. finds L u None al g \<and> (case ip of None \<Rightarrow> g = nothing | Some h \<Rightarrow> holding h fixed g))" for d
  proof (cases d)
    case True
    show ?thesis using True
      by simp (rule safe_bindP [OF sound_dp_acquire [OF assms]], rule safe.ret, simp add: knows_def takes_def)
  qed (simp, rule safe.ret, simp add: knows_def)
  have "sound L al0 pe0 races H (\<lambda>al g. g = nothing \<and> finds L u None al g)
      (case r of
         Some h \<Rightarrow> Return (Some h, True)
       | None \<Rightarrow>
           bindP (getP (\<lambda>sh. al_dyn (sh_al sh) \<noteq> None)) (\<lambda>dyn.
           if dyn then bindP (dp_acquire_p L) (\<lambda>ip. Return (ip, False)) else Return (None, False))) H
      (\<lambda>(ip, fixed) al g. finds L u None al g \<and> (case ip of None \<Rightarrow> g = nothing | Some h \<Rightarrow> holding h fixed g))" for r
  proof (cases r)
    case None
    show ?thesis unfolding None option.case by (rule safe_bindP [OF dyn pool])
  next
    case (Some h)
    then show ?thesis by simp (rule safe.ret, simp add: knows_def holding_def nothing_def finds_def)
  qed
  from safe_bindP [OF sound_lookup_fixed [OF A] this] show ?thesis by (simp add: choose_ip_p_def)
qed


lemma sound_known_user:
  assumes "Alloc_Lock \<notin> H" and "Sessions_Mutex \<notin> H"
  shows "sound L al0 pe0 races (insert Alloc_Lock H) (\<lambda>al g. g = nothing \<and> finds L u (Some p) al g)
    (bindP (migrate_p L now (Some u) w) (\<lambda>_.
     bindP (read_lease p) (\<lambda>l.
     bindP (doP (\<lambda>sh. bindR (nonnull (le_ip l)) (\<lambda>h. Inr (if c then Some h else None, sh)))) (\<lambda>result.
     bindP (unlockP Alloc_Lock) (\<lambda>_. Return result))))) H (\<lambda>_. idle)"
proof -
  let ?K = "insert Alloc_Lock H"
  have K: "Alloc_Lock \<in> ?K" "Sessions_Mutex \<notin> ?K" using assms by simp_all
  have A: "stable (calls L al0 pe0 races) ?K (knows (\<lambda>al g. g = nothing \<and> finds L u (Some p) al g))"
    by (intro stables) simp
  have leave: "sound L al0 pe0 races ?K (\<lambda>al g. g = nothing \<and> finds L u (Some p) al g)
      (bindP (unlockP Alloc_Lock) (\<lambda>_. Return r)) H (\<lambda>_. idle)" for r :: "host option"
    by (rule safe_weaken [OF safe_unlock [OF assms(1) stable_knows [where A = "\<lambda>g. g = nothing"] safe.ret]]) (auto simp: knows_def)
  show ?thesis
    by (rule safe_bindP [OF sound_migrate [OF K]], rule safe_bindP [OF sound_read_found [OF K(1)]],
      rule safe_bindP [OF sound_result [OF A]], rule leave)
qed

lemma sound_new_user:
  assumes "below 2 H" and "lease_memory_ok m"
  shows "sound L al0 pe0 races (insert Alloc_Lock H) (\<lambda>al g. finds L u None al g \<and> holding h fixed g)
    (bindP (bind_lease_p L m now (Some u) w (Some h) fixed) (\<lambda>lease.
     case lease of
       None \<Rightarrow> bindP (unlockP Alloc_Lock) (\<lambda>_. Return None)
     | Some p \<Rightarrow>
         bindP (read_lease p) (\<lambda>l.
         bindP (doP (\<lambda>sh. bindR (nonnull (le_ip l)) (\<lambda>h. Inr (if c then Some h else None, sh)))) (\<lambda>result.
         case result of
           None \<Rightarrow>
             bindP (unlockP Alloc_Lock) (\<lambda>_.
             bindP (release_by_uid_impl_p L w) (\<lambda>_. Return None))
         | Some h \<Rightarrow> bindP (unlockP Alloc_Lock) (\<lambda>_. Return (Some h)))))) H (\<lambda>_. idle)"
proof -
  let ?K = "insert Alloc_Lock H"
  have H: "Alloc_Lock \<notin> H" using assms(1) by (auto simp: below_def)
  have K: "Alloc_Lock \<in> ?K" "Sessions_Mutex \<notin> ?K" using assms(1) by (auto simp: below_def)
  have leave: "sound L al0 pe0 races ?K A (bindP (unlockP Alloc_Lock) (\<lambda>_. Return r)) H (\<lambda>_. idle)"
    if "\<And>al g. A al g \<Longrightarrow> g = nothing" for A and r :: "host option"
    by (rule safe_weaken [OF safe_unlock [OF H stable_knows [where A = "\<lambda>g. g = nothing"] safe.ret]]) (use that in \<open>auto simp: knows_def\<close>)
  have roll: "sound L al0 pe0 races ?K A
      (bindP (unlockP Alloc_Lock) (\<lambda>_. bindP (release_by_uid_impl_p L w) (\<lambda>_. Return None))) H (\<lambda>_. idle)"
    if "\<And>al g. A al g \<Longrightarrow> g = nothing" for A
    by (rule safe_weaken [OF safe_unlock [OF H stable_knows safe_bindP [OF sound_release [OF assms(1)] safe.ret]]])
      (use that in \<open>auto simp: knows_def\<close>)
  have final: "sound L al0 pe0 races ?K A
      (case result of
         None \<Rightarrow>
           bindP (unlockP Alloc_Lock) (\<lambda>_.
           bindP (release_by_uid_impl_p L w) (\<lambda>_. Return None))
       | Some h \<Rightarrow> bindP (unlockP Alloc_Lock) (\<lambda>_. Return (Some h))) H (\<lambda>_. idle)"
    if "\<And>al g. A al g \<Longrightarrow> g = nothing" for A and result :: "host option"
    using leave [of A result, OF that] roll [of A, OF that] by (cases result) simp_all
  have "sound L al0 pe0 races ?K (\<lambda>al g. lease \<noteq> None \<and> g = nothing \<and> finds L u lease al g)
      (case lease of
         None \<Rightarrow> bindP (unlockP Alloc_Lock) (\<lambda>_. Return None)
       | Some p \<Rightarrow>
           bindP (read_lease p) (\<lambda>l.
           bindP (doP (\<lambda>sh. bindR (nonnull (le_ip l)) (\<lambda>h. Inr (if c then Some h else None, sh)))) (\<lambda>result.
           case result of
             None \<Rightarrow>
               bindP (unlockP Alloc_Lock) (\<lambda>_.
               bindP (release_by_uid_impl_p L w) (\<lambda>_. Return None))
           | Some h \<Rightarrow> bindP (unlockP Alloc_Lock) (\<lambda>_. Return (Some h))))) H (\<lambda>_. idle)" for lease
  proof (cases lease)
    case None
    show ?thesis unfolding None option.case by (rule leave) simp
  next
    case (Some p)
    have A: "stable (calls L al0 pe0 races) ?K (knows (\<lambda>al g. g = nothing \<and> finds L u (Some p) al g))"
      by (intro stables) simp
    show ?thesis
      unfolding Some option.case
      by (rule safe_weaken [OF safe_bindP [OF sound_read_found [OF K(1)] safe_bindP [OF sound_result [OF A] final]]])
        (auto simp: knows_def)
  qed
  from safe_bindP [OF sound_bind [OF K assms(2)] this] show ?thesis .
qed

lemma sound_acquire_locked:
  assumes "below 2 H" and "lease_memory_ok m"
  shows "sound L al0 pe0 races H idle (acquire_locked_p L m now u w) H (\<lambda>_. idle)"
proof -
  let ?K = "insert Alloc_Lock H"
  have H: "Alloc_Lock \<notin> H" "Sessions_Mutex \<notin> H" using assms(1) by (auto simp: below_def)
  have K: "Alloc_Lock \<in> ?K" "Sessions_Mutex \<notin> ?K" "Pool_Mutex \<notin> ?K" using assms(1) by (auto simp: below_def)
  have none: "sound L al0 pe0 races ?K (\<lambda>al g. finds L u None al g \<and> g = nothing)
      (bindP (unlockP Alloc_Lock) (\<lambda>_. Return (None :: host option))) H (\<lambda>_. idle)"
    by (rule safe_weaken [OF safe_unlock [OF H(1) stable_knows [where A = "\<lambda>g. g = nothing"] safe.ret]]) (auto simp: knows_def)
  show ?thesis
    unfolding acquire_locked_p_def
  proof (rule safe_lock, rule safe_bindP [OF sound_lookup [OF K(1,2)]], goal_cases)
    case (1 r)
    show ?case
    proof (cases r)
      case (Some p)
      show ?thesis unfolding Some option.case by (rule sound_known_user [OF H])
    next
      case None
      show ?thesis
        unfolding None option.case
      proof (rule safe_bindP [OF sound_choose [OF K(1,3)]], goal_cases)
        case (1 x)
        obtain ip fixed where x: "x = (ip, fixed)" by fastforce
        show ?case
          unfolding x prod.case
          by (cases ip) (simp_all add: none sound_new_user [OF assms])
      qed
    qed
  qed
qed

text \<open>The calls of charon, with the IKE_SA checked out.\<close>

lemma sound_acquire:
  assumes "below 2 H" and "lease_memory_ok m"
  shows "sound L al0 pe0 races H idle (acquire_address_p L m now pools sa requested) H (\<lambda>_. idle)"
proof -
  have read: "sound L al0 pe0 races H idle (getP (\<lambda>sh. pools_include (sh_al sh) pools)) H (\<lambda>_. idle)"
    by (rule safe_getP) (simp_all add: stables)
  show ?thesis
    unfolding acquire_address_p_def
    by (rule safe_bindP [OF read]) (auto intro: safe.ret sound_acquire_locked [OF assms] split: option.split)
qed

lemma sound_release_address:
  "below 2 H \<Longrightarrow> sound L al0 pe0 races H idle (release_address_p L sa) H (\<lambda>_. idle)"
  by (cases sa) (simp_all add: release_address_p_def safe.ret sound_release)

lemma sound_updown:
  "below 2 H \<Longrightarrow> sound L al0 pe0 races H idle (ike_updown_p L sa up) H (\<lambda>_. idle)"
  by (cases sa) (auto simp: ike_updown_p_def intro: safe.ret safe_bindP [OF sound_release])


section \<open>The sweep, the reload and the plugin\<close>

lemma stable_idle [stables]: "stable P H (knows idle)"
  by (rule stable_knows)

text \<open>The pointers of the snapshot are not protected: reading through them may find freed memory.\<close>

lemma sound_read_any: "races \<Longrightarrow> sound L al0 pe0 races H idle (read_lease p) H (\<lambda>_. idle)"
  unfolding read_lease_def
proof (rule sound_sessions_read)
  fix al :: "('a, 'b) ip_allocator" and G :: "nat \<Rightarrow> owned" and i
  assume races "G i = nothing"
  then show "(deref (sm_heap (al_sessions al)) p = Inl Use_After_Free \<and> races) \<or>
      (\<exists>y. deref (sm_heap (al_sessions al)) p = Inr y \<and> G i = nothing)"
    by (cases "sm_heap (al_sessions al) p") (simp_all add: store_simps)
qed (rule stable_idle)

lemma sound_get: "sound L al0 pe0 races H idle (getP f) H (\<lambda>_. idle)"
  by (rule safe_getP) (simp_all add: stables)

lemma sound_return: "sound L al0 pe0 races H A (Return x) H (\<lambda>_. A)"
  by (rule safe.ret)

text \<open>A lock around a step, with nothing owned.\<close>

lemma sound_within:
  "l \<notin> H \<Longrightarrow> sound L al0 pe0 races (insert l H) idle p (insert l H) (\<lambda>_. idle) \<Longrightarrow>
    sound L al0 pe0 races H idle (bindP (lockP l) (\<lambda>_. bindP p (\<lambda>_. unlockP l))) H (\<lambda>_. idle)"
  by (rule safe_lock, rule safe_bindP, assumption, rule safe_unlock_last) (auto intro: stable_idle)

lemma sound_checkout:
  assumes "Ike_Sa w \<notin> H"
  shows "sound L al0 pe0 races H idle (checkout_p w) H (\<lambda>_. idle)"
proof -
  have "sound L al0 pe0 races H idle
      (bindP (lockP (Ike_Sa w)) (\<lambda>_. bindP (getP (\<lambda>sh. sh_alive sh w)) (\<lambda>still.
        bindP (unlockP (Ike_Sa w)) (\<lambda>_. Return still)))) H (\<lambda>_. idle)"
    by (rule sound_section [OF assms sound_get stable_idle])
  then show ?thesis
    unfolding checkout_p_def by (intro safe_bindP [OF sound_get]) (simp add: sound_return)
qed

lemma sound_sweep_cb:
  assumes races and "below 1 H"
  shows "sound L al0 pe0 races H idle (sweep_cb_p L p) H (\<lambda>_. idle)"
proof -
  have sa: "Ike_Sa w \<notin> H" for w using assms(2) by (auto simp: below_def)
  have release: "sound L al0 pe0 races H idle
      (if found then Return () else bindP (read_lease p) (\<lambda>l.
         bindP (release_by_uid_impl_p L (le_unique_id l)) (\<lambda>_. Return ()))) H (\<lambda>_. idle)" for found
  proof (cases found)
    case False
    have "below 2 H" using assms(2) by simp
    then show ?thesis
      using False by simp (rule safe_bindP [OF sound_read_any [OF assms(1)] safe_bindP [OF sound_release sound_return]])
  qed (simp add: sound_return)
  show ?thesis
    unfolding sweep_cb_p_def
    by (rule safe_bindP [OF sound_read_any [OF assms(1)]], rule safe_bindP [OF sound_checkout [OF sa]], rule release)
qed

lemma sound_sweep:
  assumes races and "below 1 H"
  shows "sound L al0 pe0 races H idle (sweep_p L now) H (\<lambda>_. idle)"
proof -
  have H: "Sessions_Mutex \<notin> H" using assms(2) by (auto simp: below_def)
  have expiring: "sound L al0 pe0 races K idle (on_sessions (\<lambda>sm. bindR (expiring L sm now t) (\<lambda>ps. Inr (ps, sm)))) K (\<lambda>_. idle)" for K t
  proof (rule sound_sessions_read)
    fix al :: "('a, 'b) ip_allocator" and G :: "nat \<Rightarrow> owned" and i
    assume ok: "table_ok L G al" and "G i = nothing"
    then have "sm_inv L (al_sessions al)" using al_sm by (auto simp: table_ok_def)
    then obtain ps where "expiring L (al_sessions al) now t = Inr ps" using expiring_effect by blast
    then show "(expiring L (al_sessions al) now t = Inl Use_After_Free \<and> races) \<or>
        (\<exists>y. expiring L (al_sessions al) now t = Inr y \<and> G i = nothing)" using \<open>G i = nothing\<close> by simp
  qed (rule stable_idle)
  have loop: "sound L al0 pe0 races H idle (forP (sweep_cb_p L) ps) H (\<lambda>_. idle)" for ps
    by (rule safe_forP) (rule sound_sweep_cb [OF assms])
  show ?thesis
    unfolding sweep_p_def foreach_expiring_p_def
    by (rule safe_bindP [OF sound_get], rule safe_lock, rule safe_bindP [OF expiring],
      rule safe_unlock [OF H stable_idle loop])
qed

lemma sound_sweep_job:
  assumes races
  shows "sound L al0 pe0 races {} idle (plugin_sweep_cb_p L now interval) {} (\<lambda>_. idle)"
proof -
  have "Sweep_Lock \<notin> {}" "below 1 {Sweep_Lock}" by simp_all
  have body: "sound L al0 pe0 races {Sweep_Lock} idle (if b then sweep_p L now else Return ()) {Sweep_Lock} (\<lambda>_. idle)" for b
    using sound_sweep [OF assms \<open>below 1 {Sweep_Lock}\<close>] by (cases b) (simp_all add: sound_return)
  have "sound L al0 pe0 races {} idle
      (bindP (lockP Sweep_Lock) (\<lambda>_.
       bindP (getP sh_terminating) (\<lambda>terminating.
       bindP (if \<not> terminating then sweep_p L now else Return ()) (\<lambda>_.
       bindP (unlockP Sweep_Lock) (\<lambda>_.
       bindP (getP sh_terminating) (\<lambda>terminating.
       Return (if terminating then JOB_REQUEUE_NONE else JOB_RESCHEDULE_MS (interval * 1000)))))))) {} (\<lambda>_. idle)"
    by (rule safe_lock, rule safe_bindP [OF sound_get], rule safe_bindP [OF body],
      rule safe_unlock [OF \<open>Sweep_Lock \<notin> {}\<close> stable_idle safe_bindP [OF sound_get sound_return]])
  then show ?thesis
    unfolding plugin_sweep_cb_p_def by (intro safe_bindP [OF sound_get]) (simp add: sound_return)
qed

text \<open>Steps that touch neither the allocator nor the policy.\<close>

lemma sound_other:
  assumes "\<And>sh. \<exists>x sh'. f sh = Inr (x, sh') \<and> sh_al sh' = sh_al sh \<and> sh_pe sh' = sh_pe sh"
  shows "sound L al0 pe0 races H idle (doP f) H (\<lambda>_. idle)"
proof (rule safe_doP [OF _ stable_idle])
  fix sh :: "('a, 'b, 'c) shared" and G :: "nat \<Rightarrow> owned" and i
  assume inv: "pr_inv (calls L al0 pe0 races) sh G" and g: "knows idle sh (G i)"
  obtain x sh' where f: "f sh = Inr (x, sh')" "sh_al sh' = sh_al sh" "sh_pe sh' = sh_pe sh" using assms by blast
  then have "calls_inv L al0 pe0 races sh' G" using inv by (simp add: calls_inv_def)
  then show "(f sh = Inl Use_After_Free \<and> pr_faults (calls L al0 pe0 races)) \<or>
    (\<exists>x s' g. f sh = Inr (x, s') \<and> pr_inv (calls L al0 pe0 races) s' (G(i := g)) \<and>
      (\<forall>j. j \<noteq> i \<longrightarrow> pr_keeps (calls L al0 pe0 races) (G j) sh s') \<and> knows idle s' g)"
    using f g idle_upd [of G i] by (intro disjI2 exI [of _ x] exI [of _ sh'] exI [of _ nothing]) (simp add: knows_def)
qed

lemma sound_unregister: "sound L al0 pe0 races {} idle unregister_p {} (\<lambda>_. idle)"
  unfolding unregister_p_def by (rule sound_within [OF _ sound_other]) simp_all

lemma sound_ref: "sound L al0 pe0 races {} idle plugin_ref_p {} (\<lambda>_. idle)"
  unfolding plugin_ref_p_def by (rule sound_within [OF _ sound_other]) simp_all

lemma sound_unref: "sound L al0 pe0 races {} idle plugin_unref_p {} (\<lambda>_. idle)"
  unfolding plugin_unref_p_def
  by (rule sound_section [OF _ sound_other stable_idle]) simp_all


text \<open>The reload: between the exchange and its end the thread owns the old snapshot.\<close>

lemma engine_swap:
  assumes ok: "engine_ok L G pe" and i: "ow_old (G i) = None" and fresh: "sn_inv L fresh"
  shows "engine_ok L (G(i := (G i)\<lparr>ow_old := fst (pe_swap pe fresh)\<rparr>)) (snd (pe_swap pe fresh))"
proof -
  obtain a where a: "pe_active pe = Some a" "pe_store pe a \<noteq> None" using ok by (auto simp: engine_ok_def)
  have below: "b < pe_next pe" if "pe_store pe b \<noteq> None" for b using ok that by (auto simp: engine_ok_def)
  have "b \<noteq> pe_next pe" if "pe_store pe b \<noteq> None" for b using below [OF that] by simp
  moreover have others: "pe_store pe b \<noteq> None \<and> b \<noteq> a" if "ow_old (G j) = Some b" for j b
    using ok that a(1) by (auto simp: engine_ok_def)
  moreover have "ow_old (G j) \<noteq> Some (pe_next pe)" for j using others [of j "pe_next pe"] below [of "pe_next pe"] by auto
  moreover have "apart ((\<lambda>j. ow_old (G j))(i := Some a))"
    using ok others by (intro apart_upd) (auto simp: engine_ok_def)
  moreover have "(\<lambda>j. ow_old ((G(i := (G i)\<lparr>ow_old := Some a\<rparr>)) j)) = (\<lambda>j. ow_old (G j))(i := Some a)" by auto
  ultimately show ?thesis
    using ok a fresh below unfolding engine_ok_def pe_swap_def
    by (auto simp: less_Suc_eq split: if_splits)
qed

lemma engine_drop:
  assumes ok: "engine_ok L G pe" and i: "ow_old (G i) = Some a"
  shows "snapshot_destroy pe (Some a) = Inr (pe\<lparr>pe_store := (pe_store pe)(a := None)\<rparr>)"
    and "engine_ok L (G(i := (G i)\<lparr>ow_old := None\<rparr>)) (pe\<lparr>pe_store := (pe_store pe)(a := None)\<rparr>)"
proof -
  have a: "pe_store pe a \<noteq> None" "pe_active pe \<noteq> Some a" and ap: "apart (\<lambda>j. ow_old (G j))"
    using ok i by (auto simp: engine_ok_def)
  then show "snapshot_destroy pe (Some a) = Inr (pe\<lparr>pe_store := (pe_store pe)(a := None)\<rparr>)"
    by (auto simp: snapshot_destroy_def store_simps)
  have "apart ((\<lambda>j. ow_old (G j))(i := None))" by (rule apart_upd [OF ap]) simp
  moreover have "(\<lambda>j. ow_old ((G(i := (G i)\<lparr>ow_old := None\<rparr>)) j)) = (\<lambda>j. ow_old (G j))(i := None)" by auto
  moreover have "b \<noteq> a" if "ow_old (G j) = Some b" "j \<noteq> i" for j b using ap i that by (auto simp: apart_def)
  ultimately show "engine_ok L (G(i := (G i)\<lparr>ow_old := None\<rparr>)) (pe\<lparr>pe_store := (pe_store pe)(a := None)\<rparr>)"
    using ok a unfolding engine_ok_def by (auto split: if_splits)
qed

lemma table_old: "table_ok L (G(i := (G i)\<lparr>ow_old := x\<rparr>)) al = table_ok L G al"
proof -
  let ?G = "G(i := (G i)\<lparr>ow_old := x\<rparr>)"
  have same: "ow_due (?G j) = ow_due (G j)" "ow_lease (?G j) = ow_lease (G j)" for j by simp_all
  show ?thesis unfolding table_ok_def dues_def same ..
qed

lemma sound_swap:
  fixes L :: "('u, 's, 'f) strongswan"
  assumes races and fresh: "sn_inv L fresh"
  shows "sound L al0 pe0 races H idle (doP (\<lambda>sh. let (old, pe) = pe_swap (sh_pe sh) fresh in Inr (old, sh\<lparr>sh_pe := pe\<rparr>))) H
      (\<lambda>old al g. g = nothing\<lparr>ow_old := old\<rparr>)"
proof (rule safe_doP [OF _ stable_knows])
  fix sh :: "('u, 's, 'f) shared" and G :: "nat \<Rightarrow> owned" and i
  assume "pr_inv (calls L al0 pe0 races) sh G" and g: "knows idle sh (G i)"
  then have inv: "calls_inv L al0 pe0 races sh G" and i: "G i = nothing" by (simp_all add: knows_def)
  let ?old = "fst (pe_swap (sh_pe sh) fresh)" and ?pe = "snd (pe_swap (sh_pe sh) fresh)"
  have "calls_inv L al0 pe0 races (sh\<lparr>sh_pe := ?pe\<rparr>) (G(i := (G i)\<lparr>ow_old := ?old\<rparr>))"
    using inv assms(1) engine_swap [of L G "sh_pe sh" i fresh] fresh table_old [of L G i ?old] unfolding i
    by (simp add: calls_inv_def)
  then show "((let (old, pe) = pe_swap (sh_pe sh) fresh in Inr (old, sh\<lparr>sh_pe := pe\<rparr>)) = Inl Use_After_Free \<and>
      pr_faults (calls L al0 pe0 races)) \<or>
    (\<exists>x s' g. (let (old, pe) = pe_swap (sh_pe sh) fresh in Inr (old, sh\<lparr>sh_pe := pe\<rparr>)) = Inr (x, s') \<and>
      pr_inv (calls L al0 pe0 races) s' (G(i := g)) \<and>
      (\<forall>j. j \<noteq> i \<longrightarrow> pr_keeps (calls L al0 pe0 races) (G j) sh s') \<and> knows (\<lambda>al g. g = nothing\<lparr>ow_old := x\<rparr>) s' g)"
    using i by (intro disjI2 exI [of _ ?old] exI [of _ "sh\<lparr>sh_pe := ?pe\<rparr>"] exI [of _ "(G i)\<lparr>ow_old := ?old\<rparr>"])
      (simp add: knows_def case_prod_unfold Let_def)
qed

lemma sound_drop:
  fixes L :: "('u, 's, 'f) strongswan"
  assumes races
  shows "sound L al0 pe0 races H (\<lambda>al g. g = nothing\<lparr>ow_old := old\<rparr>)
      (doP (\<lambda>sh. bindR (snapshot_destroy (sh_pe sh) old) (\<lambda>pe. Inr ((), sh\<lparr>sh_pe := pe\<rparr>)))) H (\<lambda>_. idle)"
proof (rule safe_doP [OF _ stable_idle])
  fix sh :: "('u, 's, 'f) shared" and G :: "nat \<Rightarrow> owned" and i
  assume "pr_inv (calls L al0 pe0 races) sh G" and "knows (\<lambda>al g. g = nothing\<lparr>ow_old := old\<rparr>) sh (G i)"
  then have inv: "calls_inv L al0 pe0 races sh G" and i: "G i = nothing\<lparr>ow_old := old\<rparr>" by (simp_all add: knows_def)
  have none: "(G i)\<lparr>ow_old := None\<rparr> = nothing" by (simp add: i nothing_def)
  have "\<exists>pe. snapshot_destroy (sh_pe sh) old = Inr pe \<and> calls_inv L al0 pe0 races (sh\<lparr>sh_pe := pe\<rparr>) (G(i := nothing))"
  proof (cases old)
    case None
    then have "G(i := nothing) = G" using i by (auto simp: nothing_def)
    then show ?thesis using inv None by (simp add: snapshot_destroy_def)
  next
    case (Some a)
    then have "ow_old (G i) = Some a" by (simp add: i)
    then show ?thesis
      using inv Some assms table_old [of L G i None] engine_drop [where G = G and i = i and a = a and L = L and pe = "sh_pe sh"]
      by (simp add: calls_inv_def none)
  qed
  then show "(bindR (snapshot_destroy (sh_pe sh) old) (\<lambda>pe. Inr ((), sh\<lparr>sh_pe := pe\<rparr>)) = Inl Use_After_Free \<and>
      pr_faults (calls L al0 pe0 races)) \<or>
    (\<exists>x s' g. bindR (snapshot_destroy (sh_pe sh) old) (\<lambda>pe. Inr ((), sh\<lparr>sh_pe := pe\<rparr>)) = Inr (x, s') \<and>
      pr_inv (calls L al0 pe0 races) s' (G(i := g)) \<and>
      (\<forall>j. j \<noteq> i \<longrightarrow> pr_keeps (calls L al0 pe0 races) (G j) sh s') \<and> knows idle s' g)"
    by (auto simp: knows_def)
qed

lemma sound_reload:
  fixes L :: "('u, 's, 'f) strongswan"
  assumes races and "\<And>fresh. loaded = Some fresh \<Longrightarrow> sn_inv L fresh"
  shows "sound L al0 pe0 races {} idle (reload_p loaded) {} (\<lambda>_. idle)"
proof -
  have free: "Reload_Lock \<notin> {}" by simp
  have rest: "sound L al0 pe0 races {Reload_Lock} idle
     (case loaded of
       None \<Rightarrow> bindP (unlockP Reload_Lock) (\<lambda>_. Return False)
     | Some fresh \<Rightarrow>
         bindP (doP (\<lambda>sh. let (old, pe) = pe_swap (sh_pe sh) fresh in Inr (old, sh\<lparr>sh_pe := pe\<rparr>))) (\<lambda>old.
         bindP (unlockP Reload_Lock) (\<lambda>_.
         bindP (doP (\<lambda>sh. bindR (snapshot_destroy (sh_pe sh) old) (\<lambda>pe. Inr ((), sh\<lparr>sh_pe := pe\<rparr>)))) (\<lambda>_.
         Return True)))) {} (\<lambda>_. idle)"
  proof (cases loaded)
    case None
    then show ?thesis by (simp add: safe_unlock [OF free stable_idle sound_return])
  next
    case (Some fresh)
    show ?thesis
      unfolding Some option.case
      by (rule safe_bindP [OF sound_swap [OF assms(1) assms(2) [OF Some]] safe_unlock [OF free stable_knows safe_bindP [OF sound_drop [OF assms(1)] sound_return]]])
  qed
  then show ?thesis unfolding reload_p_def by (rule safe_lock)
qed

end
