(* ===== verification/Lock_Properties.thy ===== *)
theory Lock_Properties
  imports Locked_Calls Allocator_Properties
begin

text \<open>
  The threads of charon: each makes any calls one after the other, on IKE_SAs it has checked out, and
  runs the sweep job, reloads and unregisters the plugin.  No choice of calls lets them deadlock.
\<close>

section \<open>What the threads run\<close>

text \<open>\<open>Starts\<close> and \<open>Vanishes\<close> are an IKE_SA that charon creates or removes.\<close>

datatype 'f locked_call =
    Connects memory int "string option list option" "ike_sa option" "host option"
  | Disconnects "ike_sa option"
  | Updown "ike_sa option" bool
  | Starts u32
  | Vanishes u32
  | Sweep_Job int u32
  | Unregister
  | Reload "'f snapshot option"
  | Take_Ref
  | Drop_Ref

text \<open>A call with an IKE_SA is made while the IKE_SA is checked out.\<close>

definition with_sa :: "ike_sa option \<Rightarrow> (('u, 's, 'f) shared, 'a) prog \<Rightarrow> (('u, 's, 'f) shared, unit) prog" where
  "with_sa sa p =
     (case sa of
        None \<Rightarrow> bindP p (\<lambda>_. Return ())
      | Some s \<Rightarrow>
          bindP (lockP (Ike_Sa (sa_unique_id s))) (\<lambda>_.
          bindP p (\<lambda>_.
          unlockP (Ike_Sa (sa_unique_id s)))))"

definition set_alive :: "u32 \<Rightarrow> bool \<Rightarrow> (('u, 's, 'f) shared, unit) prog" where
  "set_alive w b =
     bindP (lockP (Ike_Sa w)) (\<lambda>_.
     bindP (doP (\<lambda>sh. Inr ((), sh\<lparr>sh_alive := (sh_alive sh)(w := b)\<rparr>))) (\<lambda>_.
     unlockP (Ike_Sa w)))"

definition call_prog :: "('u, 's, 'f) strongswan \<Rightarrow> 'f locked_call \<Rightarrow> (('u, 's, 'f) shared, unit) prog" where
  "call_prog L c =
     (case c of
        Connects m now pools sa requested \<Rightarrow> with_sa sa (acquire_address_p L m now pools sa requested)
      | Disconnects sa \<Rightarrow> with_sa sa (release_address_p L sa)
      | Updown sa up \<Rightarrow> with_sa sa (ike_updown_p L sa up)
      | Starts w \<Rightarrow> set_alive w True
      | Vanishes w \<Rightarrow> set_alive w False
      | Sweep_Job now interval \<Rightarrow> bindP (plugin_sweep_cb_p L now interval) (\<lambda>_. Return ())
      | Unregister \<Rightarrow> unregister_p
      | Reload loaded \<Rightarrow> bindP (reload_p loaded) (\<lambda>_. Return ())
      | Take_Ref \<Rightarrow> plugin_ref_p
      | Drop_Ref \<Rightarrow> bindP plugin_unref_p (\<lambda>_. Return ()))"

definition start_threads ::
  "('u, 's, 'f) strongswan \<Rightarrow> (nat \<Rightarrow> 'f locked_call list) \<Rightarrow> ('u, 's, 'f) shared \<Rightarrow> ('u, 's, 'f) shared threads" where
  "start_threads L cs sh =
     \<lparr>th_state = sh, th_holder = (\<lambda>_. None), th_prog = (\<lambda>i. forP (call_prog L) (cs i))\<rparr>"

lemma with_sa_disciplined:
  assumes "\<And>H. below 2 H \<Longrightarrow> disciplined protects H p H"
  shows "disciplined protects {} (with_sa sa p) {}"
  by (auto intro!: locks assms disciplined_bindP [OF assms] split: option.split simp: with_sa_def)

lemma call_disciplined: "disciplined protects {} (call_prog L c) {}"
  by (cases c)
    (auto intro!: locks write_then with_sa_disciplined acquire_disciplined release_address_disciplined updown_disciplined
      disciplined_bindP [OF sweep_job_disciplined] unregister_disciplined leaf_disciplined
      simp: call_prog_def set_alive_def protects_iff)

lemma start_orderly: "finite {i. cs i \<noteq> []} \<Longrightarrow> orderly protects (start_threads L cs sh)"
proof -
  assume fin: "finite {i. cs i \<noteq> []}"
  have "{i. \<not> returned (forP (call_prog L) (cs i))} \<subseteq> {i. cs i \<noteq> []}" by (auto simp: returned_def)
  then have "finite {i. \<not> returned (forP (call_prog L) (cs i))}" using fin finite_subset by blast
  moreover have "disciplined protects {} (forP (call_prog L) xs) {}" for xs by (rule disciplined_forP [OF call_disciplined])
  ultimately show ?thesis by (simp add: orderly_def start_threads_def holds_def)
qed

lemma orderly_done:
  assumes "orderly protects t" and "all_returned t"
  shows "th_holder t = (\<lambda>_. None)"
proof -
  have "holds t i = {}" for i
  proof -
    have "disciplined protects (holds t i) (th_prog t i) {}" using assms(1) by (simp add: orderly_def)
    moreover have "returned (th_prog t i)" using assms(2) by (simp add: all_returned_def)
    ultimately show ?thesis by (cases "th_prog t i") (auto simp: returned_def elim: disciplined_ReturnE)
  qed
  then show ?thesis by (auto simp: holds_def fun_eq_iff) (metis not_None_eq)
qed

section \<open>What the locks protect\<close>

lemma unchanged_trans: "unchanged l sh sh' \<Longrightarrow> unchanged l sh' sh'' \<Longrightarrow> unchanged l sh sh''"
  by (cases l) (auto simp: unchanged_def same_table_def)

lemma other_threads_protect:
  assumes ord: "orderly protects t" and step: "locked_step t (Inr t')" and i: "th_holder t l = Some i" "th_prog t' i = th_prog t i"
  shows "unchanged l (th_state t) (th_state t')"
proof -
  consider "th_state t' = th_state t"
    | j where "th_prog t' j \<noteq> th_prog t j" "protects (holds t j) (th_state t) (th_state t')"
    using orderly_guarantee [OF ord step] by blast
  then show ?thesis
  proof cases
    case 1
    then show ?thesis by simp
  next
    case (2 j)
    then have "l \<notin> holds t j" using i by (auto simp: holds_def)
    then show ?thesis using 2(2) by (simp add: protects_def)
  qed
qed

lemma waiting_protected:
  assumes "orderly protects t" and "th_holder t l = Some i" and "locked_reach t t'" and "th_prog t' i = th_prog t i"
  shows "th_holder t' l = Some i \<and> unchanged l (th_state t) (th_state t')"
  using assms(3,4)
proof (induction rule: locked_reach.induct)
  case start
  then show ?case using assms(2) by simp
next
  case (step t' t'')
  have here: "th_prog t' i = th_prog t i" using reach_waiting [OF step(1,2)] step(4) by simp
  then have "th_holder t' l = Some i" "unchanged l (th_state t) (th_state t')" using step.IH by simp_all
  moreover have "th_holder t'' l = Some i" using waiting_keeps_lock [OF step(2)] here step(4) calculation(1) by simp
  moreover have "unchanged l (th_state t') (th_state t'')"
    using other_threads_protect [OF orderly_reach [OF step(1) assms(1)] step(2)] here step(4) calculation(1) by simp
  ultimately show ?case using unchanged_trans [of l "th_state t" "th_state t'" "th_state t''"] by simp
qed

section \<open>The properties\<close>

text \<open>C6: whatever calls the threads of charon make at the same time, with every way through each function
  and every interleaving of their steps, they never deadlock: as long as a call is under way some thread
  can go on (or its step is a fault), every run comes to an end, and when all calls have returned all
  locks have been given back.\<close>

theorem calls_never_deadlock:
  assumes "finite {i. cs i \<noteq> []}" and "locked_reach (start_threads L cs sh) t"
  shows "(all_returned t \<or> (\<exists>r. locked_step t r)) \<and> (all_returned t \<longrightarrow> th_holder t = (\<lambda>_. None)) \<and>
    (\<nexists>f. f 0 = t \<and> (\<forall>n. locked_step (f n) (Inr (f (Suc n)))))"
proof -
  have ord: "orderly protects t" using orderly_reach [OF assms(2) start_orderly [OF assms(1)]] .
  then have "\<nexists>f. f 0 = t \<and> (\<forall>n. locked_step (f n) (Inr (f (Suc n))))"
    using runs_end unfolding orderly_def by blast
  then show ?thesis using orderly_progress [OF ord] orderly_done [OF ord] by blast
qed

text \<open>A connection, a sweep and the unregistering at the same time.\<close>

definition demo_shared :: "((u64, nat) atable, (string, nat) atable, (string, host) atable) shared" where
  "demo_shared = \<lparr>sh_al = demo_al, sh_pe = demo_engine, sh_alive = (\<lambda>_. False), sh_terminating = False, sh_refcnt = 2\<rparr>"

definition demo_calls :: "nat \<Rightarrow> (string, host) atable locked_call list" where
  "demo_calls i =
     (if i = 0 then [Connects demo_memory 100 demo_pools (Some (demo_sa ''ops'' 1)) None, Disconnects (Some (demo_sa ''ops'' 1))]
      else if i = 1 then [Sweep_Job 9000 60] else if i = 2 then [Unregister] else [])"

lemma demo_calls_finite: "finite {i. demo_calls i \<noteq> []}"
proof (rule finite_subset)
  show "{i. demo_calls i \<noteq> []} \<subseteq> {0, 1, 2}" by (auto simp: demo_calls_def)
qed simp

theorem calls_never_deadlock_witness: "\<exists>r. locked_step (start_threads demo_lib demo_calls demo_shared) r"
proof -
  note demo_calls_finite
  moreover have "\<not> all_returned (start_threads demo_lib demo_calls demo_shared)"
    unfolding all_returned_def
    by (auto simp: start_threads_def demo_calls_def call_prog_def unregister_p_def lockP_def returned_def intro!: exI [of _ 2])
  ultimately show ?thesis using calls_never_deadlock [OF _ locked_reach.start] by blast
qed




end
