(* ===== verification/Safety_Properties.thy ===== *)
theory Safety_Properties
  imports Locked_Safety Lock_Properties
begin

text \<open>
  What the threads of charon keep when they run at the same time, step by step and lock by lock: the
  programs of \<open>Locked_Calls\<close> are safe, so are the calls made of them, and so is every run of threads
  that make such calls.
\<close>

section \<open>The calls are safe\<close>

text \<open>Memory for leases does not run out, and a snapshot that comes from the loader is complete.\<close>

fun call_safe :: "('u, 's, 'f) strongswan \<Rightarrow> 'f locked_call \<Rightarrow> bool" where
  "call_safe L (Connects m now pools sa requested) = lease_memory_ok m"
| "call_safe L (Reload (Some fresh)) = sn_inv L fresh"
| "call_safe L c = True"

text \<open>The calls that use pointers no lock protects, or free what others may still read.\<close>

fun may_race :: "'f locked_call \<Rightarrow> bool" where
  "may_race (Sweep_Job now interval) = True"
| "may_race (Reload loaded) = True"
| "may_race c = False"

lemma sound_with_sa:
  assumes "\<And>H. below 2 H \<Longrightarrow> sound L al0 pe0 races H idle p H (\<lambda>_. idle)"
  shows "sound L al0 pe0 races {} idle (with_sa sa p) {} (\<lambda>_. idle)"
proof (cases sa)
  case None
  have "sound L al0 pe0 races {} idle p {} (\<lambda>_. idle)" by (rule assms) simp
  then show ?thesis using None by (simp add: with_sa_def safe_bindP [OF _ sound_return])
next
  case (Some s)
  let ?l = "Ike_Sa (sa_unique_id s)"
  have "sound L al0 pe0 races {?l} idle p {?l} (\<lambda>_. idle)" by (rule assms) simp
  then show ?thesis unfolding Some with_sa_def option.case by (intro sound_within) simp_all
qed

lemma sound_set_alive: "sound L al0 pe0 races {} idle (set_alive w b) {} (\<lambda>_. idle)"
  unfolding set_alive_def by (rule sound_within [OF _ sound_other]) simp_all

lemma sound_call:
  assumes "call_safe L c" and "may_race c \<Longrightarrow> races"
  shows "sound L al0 pe0 races {} idle (call_prog L c) {} (\<lambda>_. idle)"
proof (cases c)
  case (Reload loaded)
  have "sound L al0 pe0 races {} idle (reload_p loaded) {} (\<lambda>_. idle)"
    by (rule sound_reload) (use assms Reload in auto)
  then show ?thesis using Reload by (simp add: call_prog_def safe_bindP [OF _ sound_return])
next
  case (Sweep_Job now interval)
  then show ?thesis using assms by (simp add: call_prog_def safe_bindP [OF sound_sweep_job sound_return])
qed (use assms in \<open>simp_all add: call_prog_def sound_with_sa sound_acquire sound_release_address sound_updown
    sound_set_alive sound_unregister sound_ref safe_bindP [OF sound_unref sound_return]\<close>)

lemma sound_calls:
  assumes "\<And>c. c \<in> set cs \<Longrightarrow> call_safe L c" and "\<And>c. c \<in> set cs \<Longrightarrow> may_race c \<Longrightarrow> races"
  shows "sound L al0 pe0 races {} idle (forP (call_prog L) cs) {} (\<lambda>_. idle)"
  using assms
proof (induction cs)
  case (Cons c cs)
  have "sound L al0 pe0 races {} idle (call_prog L c) {} (\<lambda>_. idle)" by (rule sound_call) (use Cons.prems in auto)
  moreover have "sound L al0 pe0 races {} idle (forP (call_prog L) cs) {} (\<lambda>_. idle)" by (rule Cons.IH) (use Cons.prems in auto)
  ultimately show ?case unfolding forP.simps by (rule safe_bindP)
qed (simp add: sound_return)

section \<open>The threads are safe\<close>

lemma start_governed:
  assumes al: "al_inv L (sh_al sh)" and pe: "pe_inv L (sh_pe sh)"
    and safe: "\<And>i c. c \<in> set (cs i) \<Longrightarrow> call_safe L c" and races: "\<And>i c. c \<in> set (cs i) \<Longrightarrow> may_race c \<Longrightarrow> races"
  shows "governed (calls L (sh_al sh) (sh_pe sh) races) (start_threads L cs sh)"
proof -
  let ?P = "calls L (sh_al sh) (sh_pe sh) races"
  have "table_ok L (\<lambda>_. nothing) (sh_al sh)" using al by (simp add: table_ok_def dues_def apart_def)
  moreover have "engine_ok L (\<lambda>_. nothing) (sh_pe sh)" using pe by (auto simp: engine_ok_def pe_inv_def apart_def split: if_splits)
  ultimately have inv: "pr_inv ?P sh (\<lambda>_. nothing)" using pe by (simp add: calls_inv_def al_frame_def)
  have "sound L (sh_al sh) (sh_pe sh) races {} idle (forP (call_prog L) (cs i)) {} (\<lambda>_. idle)" for i
    by (rule sound_calls) (use safe races in auto)
  then have "safe ?P {} (knows idle) (forP (call_prog L) (cs i)) {} (\<lambda>_ _ g. g = pr_idle ?P)" for i
    by (rule safe_weaken) (simp_all add: knows_def)
  then show ?thesis
    unfolding governed_def ready_def using inv stable_idle
    by (intro exI [of _ "\<lambda>_. nothing"] conjI allI exI [of _ "knows idle"]) (simp_all add: start_threads_def holds_def knows_def)
qed

lemma calls_governed:
  assumes "al_inv L (sh_al sh)" and "pe_inv L (sh_pe sh)" and "finite {i. cs i \<noteq> []}"
    and "\<And>i c. c \<in> set (cs i) \<Longrightarrow> call_safe L c" and "\<And>i c. c \<in> set (cs i) \<Longrightarrow> may_race c \<Longrightarrow> races"
    and "locked_reach (start_threads L cs sh) t"
  shows "governed (calls L (sh_al sh) (sh_pe sh) races) t"
  by (rule governed_reach [OF assms(6) start_orderly [OF assms(3)] start_governed [OF assms(1,2,4,5)]])
    (auto simp: protects_def)

lemma calls_inv_owners:
  assumes inv: "calls_inv L al0 pe0 races sh G" and idle: "\<And>i. \<not> busy i \<Longrightarrow> G i = nothing"
  shows "\<exists>due. inj_on due (dom due) \<and> (\<forall>i \<in> dom due. busy i) \<and>
      (\<forall>d. al_dyn (sh_al sh) = Some d \<longrightarrow>
         dp_allocated d = ran (dynamic (al_users L (sh_al sh))) \<union> ran due \<and>
         ran (dynamic (al_users L (sh_al sh))) \<inter> ran due = {})"
proof (intro exI conjI)
  let ?due = "\<lambda>i. ow_due (G i)"
  have ok: "table_ok L G (sh_al sh)" using inv by (simp add: calls_inv_def)
  have "apart ?due" using ok by (simp add: table_ok_def)
  then show "inj_on ?due (dom ?due)" by (auto simp: apart_def inj_on_def)
  show "\<forall>i \<in> dom ?due. busy i" using idle by force
  have "dues G = ran ?due" by (auto simp: dues_def ran_def)
  then show "\<forall>d. al_dyn (sh_al sh) = Some d \<longrightarrow>
      dp_allocated d = ran (dynamic (al_users L (sh_al sh))) \<union> ran ?due \<and>
      ran (dynamic (al_users L (sh_al sh))) \<inter> ran ?due = {}"
    using ok by (auto simp: table_ok_def al_invx_def pool_ok_def)
qed

lemma calls_inv_apart:
  assumes "calls_inv L al0 pe0 races sh G"
    and "dynamic (al_users L (sh_al sh)) u = Some a" and "dynamic (al_users L (sh_al sh)) v = Some a"
  shows "u = v"
  using assms by (auto simp: calls_inv_def table_ok_def al_invx_def pool_ok_def inj_on_def dom_def)

section \<open>Calls without interruption\<close>

lemma call_reach:
  assumes "th_prog t i = bindP (call_prog L c) k" and "th_holder t = (\<lambda>_. None)"
    and "run (call_prog L c) (th_state t) = Inr ((), s')"
  shows "\<exists>t'. locked_reach t t' \<and> th_state t' = s' \<and> th_holder t' = (\<lambda>_. None) \<and> th_prog t' = (th_prog t)(i := k ())"
  using run_reach [OF call_disciplined within_UNIV assms(1) _ assms(3)] assms(2) by (simp add: alone_def fun_eq_iff)

section \<open>The property\<close>



end
