(* ===== verification/Race_Properties.thy ===== *)
theory Race_Properties
  imports Allocator_Race Allocator_Properties
begin

text \<open>
  The properties of the allocator under concurrent calls: what every interleaving keeps, and the two
  faults the sweep brings in, a read of a lease another thread has freed and the release of a lease
  whose user has come back.
\<close>

section \<open>What every interleaving keeps\<close>

text \<open>However the locked parts and the unlocked phases of acquires, releases and sweeps interleave,
  no two users hold one dynamic address, no address still to be given back is handed out again, the
  marks of the pool are the addresses held and those still to be given back, and once every thread is
  through the allocator is consistent.  Without sweeps no interleaving faults; with sweeps the only
  fault is the use of a freed lease.\<close>

theorem interleaving_keeps_addresses_apart:
  assumes "al_inv L al" and "system_reach L sweeps (init_system al) r"
  shows "(\<exists>s. r = Inr s \<and>
      (\<forall>u v a. dynamic (al_users L (sy_al s)) u = Some a \<longrightarrow> dynamic (al_users L (sy_al s)) v = Some a \<longrightarrow> u = v) \<and>
      (\<forall>u i a. dynamic (al_users L (sy_al s)) u = Some a \<longrightarrow> pending s i \<noteq> Some a) \<and>
      (\<forall>d. al_dyn (sy_al s) = Some d \<longrightarrow> dp_allocated d = ran (dynamic (al_users L (sy_al s))) \<union> ran (pending s)) \<and>
      (sy_threads s = all_idle \<longrightarrow> al_inv L (sy_al s))) \<or>
    (sweeps \<and> r = Inl Use_After_Free)"
proof -
  have start: "system_inv L (init_system al)" by (rule init_system_inv [OF assms(1)])
  have r: "(\<exists>s. r = Inr s \<and> system_inv L s) \<or> (sweeps \<and> r = Inl Use_After_Free)"
    using reach_inv [OF assms(2) start] reach_no_sweep [OF _ start init_no_sweep, of r] assms(2)
    by (cases sweeps) auto
  have "(\<forall>u v a. dynamic (al_users L (sy_al s)) u = Some a \<longrightarrow> dynamic (al_users L (sy_al s)) v = Some a \<longrightarrow> u = v) \<and>
      (\<forall>u i a. dynamic (al_users L (sy_al s)) u = Some a \<longrightarrow> pending s i \<noteq> Some a) \<and>
      (\<forall>d. al_dyn (sy_al s) = Some d \<longrightarrow> dp_allocated d = ran (dynamic (al_users L (sy_al s))) \<union> ran (pending s)) \<and>
      (sy_threads s = all_idle \<longrightarrow> al_inv L (sy_al s))" if "system_inv L s" for s
  proof -
    have pool: "pool_ok (ran (pending s)) (al_dyn (sy_al s)) (al_users L (sy_al s))"
      using that by (simp add: system_inv_def al_invx_def)
    have apart: "ran (dynamic (al_users L (sy_al s))) \<inter> ran (pending s) = {}"
      using pool by (cases "al_dyn (sy_al s)") (auto simp: pool_ok_def)
    have inj: "inj_on (dynamic (al_users L (sy_al s))) (dom (dynamic (al_users L (sy_al s))))"
      using pool by (simp add: pool_ok_def)
    have "sy_threads s = all_idle \<Longrightarrow> pending s = Map.empty"
      by (simp add: pending_def all_idle_def fun_eq_iff)
    then have "sy_threads s = all_idle \<longrightarrow> al_inv L (sy_al s)" using that by (auto simp: system_inv_def)
    then show ?thesis
      using pool apart inj by (auto simp: pool_ok_def ran_def dom_def inj_on_def)
  qed
  then show ?thesis using r by blast
qed

text \<open>\<open>release_by_uid_impl\<close>, run without interruption, is the same function as its three phases one
  after the other, which are what a thread of the concurrent model runs: unlink the lease under the
  lock, clear its bit, destroy it.\<close>

theorem release_is_its_phases:
  "release_by_uid_impl L al uid =
     bindR (unlink_phase L al uid) (\<lambda>(lease, al1).
     case lease of
       None \<Rightarrow> Inr (False, al1)
     | Some p \<Rightarrow> bindR (clear_phase al1 p) (\<lambda>al2. bindR (destroy_phase al2 p) (\<lambda>al3. Inr (True, al3))))"
  by (rule release_phases)

text \<open>C4: the allocator under concurrent acquires, releases and sweeps implements the service of
  \<open>Address_Service\<close>, in which every call takes effect at once: the leases, the index of the ids and the
  addresses on their way back are at every moment those of a run of the service, each phase of a thread
  being one of its steps or none.  So a user who has a lease keeps its address, a new user gets a fixed
  address of a policy or the lowest address that is neither leased nor on its way back, and no address
  is leased twice.\<close>

theorem concurrent_allocator_refines_service:
  assumes "al_inv L al" and "system_reach L sweeps (init_system al) (Inr s)"
  shows "service_reach (engine_policies L) (service_of L (init_system al)) (service_of L s) \<and>
    service_ok (service_of L s) \<and> sv_pool (service_of L s) = sv_pool (service_of L (init_system al))"
proof -
  have start: "system_inv L (init_system al)" by (rule init_system_inv [OF assms(1)])
  have run: "service_reach (engine_policies L) (service_of L (init_system al)) (service_of L s)"
    using reach_simulates [OF assms(2) start] by blast
  then show ?thesis using service_reach_ok [OF run service_of_ok [OF start]] by blast
qed

theorem concurrent_allocator_refines_service_witness:
  "\<exists>r b al. acquire_locked demo_lib demo_memory 100 demo_engine demo_al ''ops'' 1 = Inr (r, b, al) \<and>
    service_reach (engine_policies demo_lib) (service_of demo_lib (init_system demo_al))
      (service_of demo_lib (set_thread 0 (if b then Calling 1 [] else Running []) ((init_system demo_al)\<lparr>sy_al := al\<rparr>)))"
proof -
  obtain r b al where run: "acquire_locked demo_lib demo_memory 100 demo_engine demo_al ''ops'' 1 = Inr (r, b, al)"
    using acquire_locked_inv [OF demo_al_inv demo_engine_inv, of demo_memory 100 "''ops''" 1] by auto
  have "system_step demo_lib True (init_system demo_al)
      (bindR (acquire_locked demo_lib demo_memory 100 demo_engine (sy_al (init_system demo_al)) ''ops'' 1) (\<lambda>(result, rollback, al').
        Inr (set_thread 0 (if rollback then Calling 1 [] else Running []) ((init_system demo_al)\<lparr>sy_al := al'\<rparr>))))"
    by (rule system_step.acquire [OF demo_engine_inv]) (simp_all add: init_system_def all_idle_def)
  then have "system_reach demo_lib True (init_system demo_al)
      (Inr (set_thread 0 (if b then Calling 1 [] else Running []) ((init_system demo_al)\<lparr>sy_al := al\<rparr>)))"
    by (intro system_reach.step [OF system_reach.start]) (simp add: run init_system_def)
  from concurrent_allocator_refines_service [OF demo_al_inv this] run show ?thesis by blast
qed

section \<open>Runs of single threads\<close>

lemma thread_reach_trans:
  "thread_reach L s' r \<Longrightarrow> thread_reach L s (Inr s') \<Longrightarrow> thread_reach L s r"
  by (induction rule: thread_reach.induct) (auto intro: thread_reach.step)

lemma system_reach_thread:
  "thread_reach L s' r \<Longrightarrow> system_reach L sweeps s (Inr s') \<Longrightarrow> system_reach L sweeps s r"
  by (induction rule: thread_reach.induct) (auto intro: system_reach.step system_step.progress)

lemma one_phase: "thread_reach L s (advance L alive i s)"
  by (rule thread_reach.step [OF thread_reach.start thread_step.phase])

lemma next_phase: "thread_reach L s (Inr s') \<Longrightarrow> advance L alive i s' = r \<Longrightarrow> thread_reach L s r"
  using thread_reach.step [OF _ thread_step.phase] by blast

lemma threads_set [simp]:
  "sy_threads (set_thread i t s) i = t"
  "sy_threads (set_thread i t s\<lparr>sy_al := al\<rparr>) i = t"
  "set_thread i t (set_thread i t' s) = set_thread i t s"
  "set_thread i t (set_thread i t' s\<lparr>sy_al := al\<rparr>) = set_thread i t (s\<lparr>sy_al := al\<rparr>)"
  "(set_thread i t s)\<lparr>sy_al := al\<rparr> = set_thread i t (s\<lparr>sy_al := al\<rparr>)"
  by (simp_all add: set_thread_def)

text \<open>Undisturbed, the phases of a release are the release.\<close>

lemma thread_release:
  assumes t: "sy_threads s i = Calling w ps" and r: "release_by_uid_impl L (sy_al s) w = Inr (b, al')"
  shows "thread_reach L s (Inr (set_thread i (Running ps) (s\<lparr>sy_al := al'\<rparr>)))"
proof -
  obtain h al1 where u: "unlink_phase L (sy_al s) w = Inr (h, al1)"
    using r by (auto simp: release_phases res_iff)
  show ?thesis
  proof (cases h)
    case None
    then have "al' = al1" using r u by (simp add: release_phases)
    then have "advance L (\<lambda>_. False) i s = Inr (set_thread i (Running ps) (s\<lparr>sy_al := al'\<rparr>))"
      using t u None by (simp add: advance_def)
    then show ?thesis using next_phase [OF thread_reach.start] by blast
  next
    case (Some p)
    obtain al2 where c: "clear_phase al1 p = Inr al2" "destroy_phase al2 p = Inr al'"
      using r u Some by (auto simp: release_phases res_iff)
    have "advance L (\<lambda>_. False) i s = Inr (set_thread i (Unlinked p ps) (s\<lparr>sy_al := al1\<rparr>))"
      using t u Some by (simp add: advance_def)
    note next_phase [OF thread_reach.start this]
    moreover have "advance L (\<lambda>_. False) i (set_thread i (Unlinked p ps) (s\<lparr>sy_al := al1\<rparr>)) =
        Inr (set_thread i (Cleared p ps) (s\<lparr>sy_al := al2\<rparr>))"
      using c(1) by (simp add: advance_def)
    note next_phase [OF calculation this]
    moreover have "advance L (\<lambda>_. False) i (set_thread i (Cleared p ps) (s\<lparr>sy_al := al2\<rparr>)) =
        Inr (set_thread i (Running ps) (s\<lparr>sy_al := al'\<rparr>))"
      using c(2) by (simp add: advance_def)
    note next_phase [OF calculation(2) this]
    ultimately show ?thesis by blast
  qed
qed

text \<open>A sweep passes the leases that have an IKE_SA.\<close>

lemma thread_passes:
  assumes "sy_threads s i = Running (xs @ ys)" and "\<And>p. p \<in> set xs \<Longrightarrow> sm_heap (al_sessions (sy_al s)) p \<noteq> None"
  shows "thread_reach L s (Inr (set_thread i (Running ys) s))"
  using assms
proof (induction xs arbitrary: s)
  case Nil
  then have "set_thread i (Running ys) s = s" by (simp add: set_thread_def fun_upd_idem)
  then show ?case using thread_reach.start by metis
next
  case (Cons p xs)
  obtain l where "sm_heap (al_sessions (sy_al s)) p = Some l" using Cons.prems(2) [of p] by auto
  then have "advance L (\<lambda>_. True) i s = Inr (set_thread i (Running (xs @ ys)) s)"
    using Cons.prems(1) by (simp add: advance_def store_simps)
  then have "thread_reach L s (Inr (set_thread i (Running (xs @ ys)) s))"
    using next_phase [OF thread_reach.start] by blast
  moreover have "thread_reach L (set_thread i (Running (xs @ ys)) s)
      (Inr (set_thread i (Running ys) (set_thread i (Running (xs @ ys)) s)))"
    by (rule Cons.IH) (use Cons.prems(2) in auto)
  ultimately show ?case using thread_reach_trans by fastforce
qed

section \<open>The sweep and freed leases\<close>

lemma start_threads [simp]: "sy_threads (init_system al) i = Running []" "sy_al (init_system al) = al"
  by (simp_all add: init_system_def all_idle_def)

lemma threads_other [simp]:
  "i \<noteq> j \<Longrightarrow> sy_threads (set_thread i t s) j = sy_threads s j"
  by (simp add: set_thread_def)

text \<open>What a sweep has in its snapshot as soon as one lease is expired.\<close>

lemma expired_pointers:
  assumes inv: "al_inv L al" and w: "al_uids L al w = Some u" and l: "al_users L al u = Some l"
    and old: "now - le_acquired l > uint (al_lease_timeout al)"
  obtains q qs k where "expiring L (al_sessions al) now (al_lease_timeout al) = Inr (q # qs)"
    "sm_heap (al_sessions al) q = Some k" "uid_get L (al_sessions al) (uid_key (le_unique_id k)) = Some q"
proof -
  let ?sm = "al_sessions al"
  note sm = al_sm [OF inv]
  obtain p where p: "uid_get L ?sm (uid_key w) = Some p"
    using sm_uids_uid_get(1) [OF sm, of w] w by (cases "uid_get L ?sm (uid_key w)") auto
  obtain ps where ps: "expiring L ?sm now (al_lease_timeout al) = Inr ps"
      "\<And>p. p \<in> set ps \<longleftrightarrow> (\<exists>w l. uid_get L ?sm (uid_key w) = Some p \<and> sm_heap ?sm p = Some l \<and>
         le_unique_id l = w \<and> now - le_acquired l > uint (al_lease_timeout al))"
    using expiring_effect [OF sm, of now "al_lease_timeout al"] by blast
  have "p \<in> set ps" using ps(2) [of p] p old sm_uids_uid_get(2) [OF sm p] w l by auto
  then obtain q qs where "ps = q # qs" by (cases ps) auto
  then show thesis using ps(1) ps(2) [of q] that by auto
qed

lemma only_expired:
  assumes inv: "al_inv L al" and w: "al_uids L al w = Some u" and l: "al_users L al u = Some l"
    and old: "now - le_acquired l > uint (al_lease_timeout al)"
    and only: "\<And>v k. al_users L al v = Some k \<Longrightarrow> now - le_acquired k > uint (al_lease_timeout al) \<Longrightarrow> v = u"
  obtains p where "expiring L (al_sessions al) now (al_lease_timeout al) = Inr [p]"
    "user_get L (al_sessions al) u = Some p" "sm_heap (al_sessions al) p = Some l" "le_unique_id l = w"
proof -
  let ?sm = "al_sessions al"
  note sm = al_sm [OF inv]
  obtain p where p: "uid_get L ?sm (uid_key w) = Some p"
    using sm_uids_uid_get(1) [OF sm, of w] w by (cases "uid_get L ?sm (uid_key w)") auto
  have q: "user_get L ?sm u = Some p \<and> sm_heap ?sm p = Some l \<and> le_unique_id l = w"
    using sm_uids_uid_get(2) [OF sm p] w l by auto
  obtain ps where ps: "expiring L ?sm now (al_lease_timeout al) = Inr ps" "distinct ps"
      "\<And>p. p \<in> set ps \<longleftrightarrow> (\<exists>w l. uid_get L ?sm (uid_key w) = Some p \<and> sm_heap ?sm p = Some l \<and>
         le_unique_id l = w \<and> now - le_acquired l > uint (al_lease_timeout al))"
    using expiring_effect [OF sm, of now "al_lease_timeout al"] by blast
  have "r = p" if r: "r \<in> set ps" for r
  proof -
    obtain x k where k: "uid_get L ?sm (uid_key x) = Some r" "sm_heap ?sm r = Some k" "now - le_acquired k > uint (al_lease_timeout al)"
      using ps(3) r by blast
    obtain v where "al_users L al v = Some k" "user_get L ?sm v = Some r" using sm_uids_uid_get(2) [OF sm k(1)] k(2) by auto
    then show ?thesis using only [of v k] k(3) q by simp
  qed
  moreover have "p \<in> set ps" using ps(3) [of p] p old q by blast
  ultimately have "set ps = {p}" by blast
  then have "ps = [p]" using ps(2) by (cases ps; cases "tl ps") auto
  then show thesis using that [of p] ps(1) q by simp
qed

lemma sweep_starts:
  assumes inv: "al_inv L al" and w: "al_uids L al w = Some u" and l: "al_users L al u = Some l"
    and old: "now - le_acquired l > uint (al_lease_timeout al)"
  obtains p ps where "system_reach L True (init_system al) (Inr (set_thread 0 (Running ps) (init_system al)))"
    "p \<in> set ps" "sm_heap (al_sessions al) p = Some l" "user_get L (al_sessions al) u = Some p"
    "le_unique_id l = w" "uid_get L (al_sessions al) (uid_key w) = Some p"
    "\<And>q. q \<in> set ps \<Longrightarrow> \<exists>k. sm_heap (al_sessions al) q = Some k \<and> uid_get L (al_sessions al) (uid_key (le_unique_id k)) = Some q"
proof -
  let ?sm = "al_sessions al"
  note sm = al_sm [OF inv]
  obtain p where p: "uid_get L ?sm (uid_key w) = Some p"
    using sm_uids_uid_get(1) [OF sm, of w] w by (cases "uid_get L ?sm (uid_key w)") auto
  have q: "user_get L ?sm u = Some p \<and> sm_heap ?sm p = Some l \<and> le_unique_id l = w"
    using sm_uids_uid_get(2) [OF sm p] w l by auto
  obtain ps where ps: "expiring L ?sm now (al_lease_timeout al) = Inr ps"
      "\<And>p. p \<in> set ps \<longleftrightarrow> (\<exists>w l. uid_get L ?sm (uid_key w) = Some p \<and> sm_heap ?sm p = Some l \<and>
         le_unique_id l = w \<and> now - le_acquired l > uint (al_lease_timeout al))"
    using expiring_effect [OF sm, of now "al_lease_timeout al"] by blast
  have "system_step L True (init_system al)
      (bindR (expiring L (al_sessions (sy_al (init_system al))) now (al_lease_timeout (sy_al (init_system al)))) (\<lambda>ps.
        Inr (set_thread 0 (Running ps) (init_system al))))"
    by (rule system_step.sweep) simp_all
  then have "system_step L True (init_system al) (Inr (set_thread 0 (Running ps) (init_system al)))"
    by (simp add: ps(1))
  then have "system_reach L True (init_system al) (Inr (set_thread 0 (Running ps) (init_system al)))"
    by (rule system_reach.step [OF system_reach.start])
  moreover have "p \<in> set ps" using ps(2) p q old by blast
  ultimately show thesis using that [of ps p] p q ps(2) by blast
qed

text \<open>The snapshot of the sweep holds plain pointers.  As soon as one lease is expired, a release of
  another thread can free a lease of the snapshot before the sweep looks at it: the sweep reads freed
  memory.\<close>

theorem sweep_uses_freed_lease:
  assumes "al_inv L al" and "al_uids L al w = Some u" and "al_users L al u = Some l"
    and "now - le_acquired l > uint (al_lease_timeout al)"
  shows "system_reach L True (init_system al) (Inl Use_After_Free)"
proof -
  obtain p ps where p: "system_reach L True (init_system al) (Inr (set_thread 0 (Running ps) (init_system al)))" "p \<in> set ps"
      "\<And>q. q \<in> set ps \<Longrightarrow> \<exists>k. sm_heap (al_sessions al) q = Some k \<and> uid_get L (al_sessions al) (uid_key (le_unique_id k)) = Some q"
    using sweep_starts [OF assms] by metis
  obtain q qs where ps: "ps = q # qs" using p(2) by (cases ps) auto
  obtain k where k: "sm_heap (al_sessions al) q = Some k" "uid_get L (al_sessions al) (uid_key (le_unique_id k)) = Some q"
    using p(3) [of q] ps by auto
  obtain al' where al': "release_by_uid_impl L al (le_unique_id k) = Inr (True, al')"
      "sm_heap (al_sessions al') = (sm_heap (al_sessions al))(q := None)"
    using release_pointers [OF assms(1) k] by blast
  let ?s = "set_thread 1 (Calling (le_unique_id k) []) (set_thread 0 (Running ps) (init_system al))"
  let ?s' = "set_thread 1 (Running []) (?s\<lparr>sy_al := al'\<rparr>)"
  have "system_step L True (set_thread 0 (Running ps) (init_system al)) (Inr ?s)"
    by (rule system_step.release) simp
  then have "system_reach L True (init_system al) (Inr ?s)" by (rule system_reach.step [OF p(1)])
  moreover have "thread_reach L ?s (Inr ?s')" by (rule thread_release [where b = True and w = "le_unique_id k"]) (simp_all add: al'(1))
  moreover have "advance L (\<lambda>_. False) 0 ?s' = Inl Use_After_Free"
    by (simp add: advance_def ps al'(2) store_simps)
  then have "thread_reach L ?s' (Inl Use_After_Free)" by (rule next_phase [OF thread_reach.start])
  ultimately show ?thesis using system_reach_thread by blast
qed

theorem sweep_uses_freed_lease_witness:
  "\<exists>h al. acquire_address demo_lib demo_memory 100 demo_engine demo_al demo_pools (Some (demo_sa ''ops'' 1)) None = Inr (Some h, al) \<and>
    system_reach demo_lib True (init_system al) (Inl Use_After_Free)"
proof -
  obtain h al where a: "acquire_address demo_lib demo_memory 100 demo_engine demo_al demo_pools (Some (demo_sa ''ops'' 1)) None = Inr (Some h, al)"
    "al_inv demo_lib al" "al_users demo_lib al ''ops'' = Some (new_lease ''ops'' 1 h False 100)"
    "al_uids demo_lib al 1 = Some ''ops''" "al_lease_timeout al = 3600"
    by (rule demo_ops_connected)
  from sweep_uses_freed_lease [OF a(2,4,3), of 3701] show ?thesis using a(1,5) by (auto simp: new_lease_def)
qed

lemma acquire_renews:
  assumes inv: "al_inv L al" and p: "user_get L (al_sessions al) u = Some p" "sm_heap (al_sessions al) p = Some l"
  shows "\<exists>al1. acquire_locked L m now pe al u w = Inr (if ok_result_clone m then le_ip l else None, False, al1) \<and>
    al_inv L al1 \<and> al_users L al1 = (al_users L al)(u \<mapsto> l\<lparr>le_unique_id := w, le_acquired := now\<rparr>) \<and>
    al_uids L al1 w = Some u \<and> sm_heap (al_sessions al1) p = Some (l\<lparr>le_unique_id := w, le_acquired := now\<rparr>)"
proof -
  have l: "al_users L al u = Some l" using sm_users_user_get(2) [OF al_sm [OF inv] p(1)] p(2) by auto
  obtain al1 where al1: "acquire_locked L m now pe al u w = Inr (if ok_result_clone m then le_ip l else None, False, al1)"
      "al_inv L al1" "sm_abs L (al_sessions al1) = snd (spec_migrate u w now (sm_abs L (al_sessions al)))"
    using acquire_reuse [OF inv l] by blast
  obtain sm' where "migrate L now (al_sessions al) (Some u) w = Inr (Some p, sm')"
      "sm_heap sm' p = Some (l\<lparr>le_unique_id := w, le_acquired := now\<rparr>)"
    using migrate_effect(2) [OF al_sm [OF inv] p] by force
  then have "sm_heap (al_sessions al1) p = Some (l\<lparr>le_unique_id := w, le_acquired := now\<rparr>)"
    using al1(1) p(1) by (auto simp: acquire_locked_def lookup_by_user_def res_iff)
  then show ?thesis using al1 l by (simp add: sm_abs_def spec_migrate_def Let_def)
qed

text \<open>The sweep comes to the lease of a connection that is long gone, and decides to release it.\<close>

lemma sweep_checks:
  assumes inv: "al_inv L al" and w: "al_uids L al w = Some u" and l: "al_users L al u = Some l"
    and old: "now - le_acquired l > uint (al_lease_timeout al)"
  obtains p ys where "system_reach L True (init_system al) (Inr (set_thread 0 (Checked p ys) (init_system al)))"
    "sm_heap (al_sessions al) p = Some l" "user_get L (al_sessions al) u = Some p"
proof -
  obtain p ps where p: "system_reach L True (init_system al) (Inr (set_thread 0 (Running ps) (init_system al)))" "p \<in> set ps"
      "sm_heap (al_sessions al) p = Some l" "user_get L (al_sessions al) u = Some p"
      "le_unique_id l = w" "uid_get L (al_sessions al) (uid_key w) = Some p"
      "\<And>q. q \<in> set ps \<Longrightarrow> \<exists>k. sm_heap (al_sessions al) q = Some k \<and> uid_get L (al_sessions al) (uid_key (le_unique_id k)) = Some q"
    using sweep_starts [OF inv w l old] by metis
  obtain xs ys where ps: "ps = xs @ p # ys" using split_list [OF p(2)] by blast
  let ?s = "set_thread 0 (Checked p ys) (init_system al)"
  have "thread_reach L (set_thread 0 (Running ps) (init_system al)) (Inr (set_thread 0 (Running (p # ys)) (init_system al)))"
    using thread_passes [of "set_thread 0 (Running ps) (init_system al)" 0 xs "p # ys" L] p(7) ps by fastforce
  moreover have "advance L (\<lambda>_. False) 0 (set_thread 0 (Running (p # ys)) (init_system al)) = Inr ?s"
    using p(3) by (simp add: advance_def store_simps)
  ultimately have "thread_reach L (set_thread 0 (Running ps) (init_system al)) (Inr ?s)" by (rule next_phase)
  then have "system_reach L True (init_system al) (Inr ?s)" by (rule system_reach_thread [OF _ p(1)])
  then show thesis using that p(3,4) by blast
qed

text \<open>The sweep reads the id of the lease again after it found no IKE_SA.  If the user of an expired
  lease comes back in between, with a new IKE_SA, the lease is renewed and moved to the new id, and
  the sweep releases it under that id: the user who just got the address back has no lease, and the
  address is free for others.\<close>

theorem sweep_releases_renewed_lease:
  assumes "al_inv L al" and "al_uids L al w = Some u" and "al_users L al u = Some l"
    and "now - le_acquired l > uint (al_lease_timeout al)" and "pe_inv L pe" and "lease_memory_ok m"
  shows "\<exists>s1 s2. system_reach L True (init_system al) (Inr s1) \<and>
    al_users L (sy_al s1) u = Some (l\<lparr>le_unique_id := w', le_acquired := now'\<rparr>) \<and>
    al_uids L (sy_al s1) w' = Some u \<and>
    thread_reach L s1 (Inr s2) \<and> al_users L (sy_al s2) u = None \<and>
    (\<forall>h d. le_ip l = Some h \<longrightarrow> \<not> le_fixed l \<longrightarrow> al_dyn (sy_al s2) = Some d \<longrightarrow> host_to_u32 h \<notin> dp_allocated d)"
proof -
  let ?l = "l\<lparr>le_unique_id := w', le_acquired := now'\<rparr>"
  obtain p ys where p: "system_reach L True (init_system al) (Inr (set_thread 0 (Checked p ys) (init_system al)))"
      "sm_heap (al_sessions al) p = Some l" "user_get L (al_sessions al) u = Some p"
    by (rule sweep_checks [OF assms(1-4)])
  let ?s = "set_thread 0 (Checked p ys) (init_system al)"
  obtain al1 where al1: "acquire_locked L m now' pe al u w' = Inr (if ok_result_clone m then le_ip l else None, False, al1)"
      "al_inv L al1" "al_users L al1 = (al_users L al)(u \<mapsto> ?l)" "al_uids L al1 w' = Some u"
      "sm_heap (al_sessions al1) p = Some ?l"
    using acquire_renews [OF assms(1) p(3,2), of m now' pe w'] by blast
  let ?s1 = "set_thread 1 (Running []) (?s\<lparr>sy_al := al1\<rparr>)"
  have "system_step L True ?s (bindR (acquire_locked L m now' pe (sy_al ?s) u w') (\<lambda>(result, rollback, al').
      Inr (set_thread 1 (if rollback then Calling w' [] else Running []) (?s\<lparr>sy_al := al'\<rparr>))))"
    by (rule system_step.acquire [OF assms(5,6)]) simp
  then have "system_step L True ?s (Inr ?s1)" by (simp add: al1(1))
  then have s1: "system_reach L True (init_system al) (Inr ?s1)" by (rule system_reach.step [OF p(1)])
  obtain al2 where al2: "release_by_uid_impl L al1 w' = Inr (al_uids L al1 w' \<noteq> None, al2)" "al_inv L al2"
      "sm_abs L (al_sessions al2) = snd (spec_unbind w' (sm_abs L (al_sessions al1)))"
    using release_effect [OF al1(2)] by blast
  let ?s2 = "set_thread 0 (Calling w' ys) ?s1"
  have "advance L (\<lambda>_. False) 0 ?s1 = Inr ?s2" using al1(5) by (simp add: advance_def store_simps)
  note to = next_phase [OF thread_reach.start this]
  have "thread_reach L ?s2 (Inr (set_thread 0 (Running ys) (?s2\<lparr>sy_al := al2\<rparr>)))"
    by (rule thread_release [where b = "al_uids L al1 w' \<noteq> None" and w = w']) (simp_all add: al2(1))
  then have run: "thread_reach L ?s1 (Inr (set_thread 0 (Running ys) (?s2\<lparr>sy_al := al2\<rparr>)))"
    by (rule thread_reach_trans [OF _ to])
  have gone: "al_users L al2 = (al_users L al)(u := None)"
    using al2(3) by (simp add: sm_abs_def spec_unbind_def al1(3,4))
  note free = released_address_free [OF assms(1,3) al2(2) gone]
  show ?thesis
    by (rule exI [of _ ?s1], rule exI [of _ "set_thread 0 (Running ys) (?s2\<lparr>sy_al := al2\<rparr>)"])
      (use s1 run al1(3,4) gone free in simp)
qed

theorem sweep_releases_renewed_lease_witness:
  "\<exists>h al s1 s2. acquire_address demo_lib demo_memory 100 demo_engine demo_al demo_pools (Some (demo_sa ''ops'' 1)) None = Inr (Some h, al) \<and>
    system_reach demo_lib True (init_system al) (Inr s1) \<and> al_uids demo_lib (sy_al s1) 2 = Some ''ops'' \<and>
    thread_reach demo_lib s1 (Inr s2) \<and> al_users demo_lib (sy_al s2) ''ops'' = None"
proof -
  obtain h al where a: "acquire_address demo_lib demo_memory 100 demo_engine demo_al demo_pools (Some (demo_sa ''ops'' 1)) None = Inr (Some h, al)"
    "al_inv demo_lib al" "al_users demo_lib al ''ops'' = Some (new_lease ''ops'' 1 h False 100)"
    "al_uids demo_lib al 1 = Some ''ops''" "al_lease_timeout al = 3600"
    by (rule demo_ops_connected)
  have "3701 - le_acquired (new_lease ''ops'' 1 h False 100) > uint (al_lease_timeout al)"
    by (simp add: a(5) new_lease_def)
  from sweep_releases_renewed_lease [OF a(2,4,3) this demo_engine_inv demo_memory_simps(7), of 3700 2]
  show ?thesis using a(1) by blast
qed

text \<open>Two threads about to release the lease of the user who has just come.\<close>

theorem interleaving_keeps_addresses_apart_witness:
  "\<exists>s a. system_reach demo_lib False (init_system demo_al) (Inr s) \<and>
    sy_threads s 1 = Calling 1 [] \<and> sy_threads s 2 = Calling 1 [] \<and>
    dynamic (al_users demo_lib (sy_al s)) ''ops'' = Some a \<and>
    (\<forall>v. dynamic (al_users demo_lib (sy_al s)) v = Some a \<longrightarrow> v = ''ops'') \<and> (\<forall>i. pending s i \<noteq> Some a)"
proof -
  obtain h al where a: "acquire_locked demo_lib demo_memory 100 demo_engine demo_al ''ops'' 1 = Inr (Some h, False, al)"
    "al_users demo_lib al ''ops'' = Some (new_lease ''ops'' 1 h False 100)"
    by (rule demo_ops_connected)
  let ?s0 = "set_thread 0 (Running []) ((init_system demo_al)\<lparr>sy_al := al\<rparr>)"
  let ?s1 = "set_thread 1 (Calling 1 []) ?s0"
  let ?s2 = "set_thread 2 (Calling 1 []) ?s1"
  have "system_step demo_lib False (init_system demo_al) (bindR (acquire_locked demo_lib demo_memory 100 demo_engine
      (sy_al (init_system demo_al)) ''ops'' 1) (\<lambda>(result, rollback, al').
        Inr (set_thread 0 (if rollback then Calling 1 [] else Running []) ((init_system demo_al)\<lparr>sy_al := al'\<rparr>))))"
    by (rule system_step.acquire [OF demo_engine_inv demo_memory_simps(7)]) simp
  then have "system_step demo_lib False (init_system demo_al) (Inr ?s0)" by (simp add: a(1))
  then have s0: "system_reach demo_lib False (init_system demo_al) (Inr ?s0)" by (rule system_reach.step [OF system_reach.start])
  have "system_step demo_lib False ?s0 (Inr ?s1)" by (rule system_step.release) simp
  note s1 = system_reach.step [OF s0 this]
  have "system_step demo_lib False ?s1 (Inr ?s2)" by (rule system_step.release) simp
  note s2 = system_reach.step [OF s1 this]
  have "sy_al ?s2 = al" "dynamic (al_users demo_lib al) ''ops'' = Some (host_to_u32 h)"
    by (simp_all add: dynamic_def a(2) new_lease_def dyn_addr_def)
  then show ?thesis
    using interleaving_keeps_addresses_apart [OF demo_al_inv s2] s2
    by (intro exI [of _ ?s2] exI [of _ "host_to_u32 h"]) auto
qed

end
