(* ===== verification/Locked_Races.thy ===== *)
theory Locked_Races
  imports Safety_Properties Race_Properties
begin

text \<open>
  The exceptions of the safety of the locked calls are real.  With all locks taken as the code takes them,
  a sweep reads a lease that another thread has freed, or releases one that its user has just renewed,
  and a lookup clones an address of a snapshot that a reload has destroyed.
\<close>

section \<open>The locks of a release\<close>

lemma within_release:
  assumes "{Alloc_Lock, Sessions_Mutex, Pool_Mutex} \<subseteq> S"
  shows "within S (release_by_uid_impl_p L w)"
  using assms
  by (auto simp: release_by_uid_impl_p_def unbind_p_def on_sessions_def on_al_def read_lease_def dp_release_p_def on_pool_def
      intro!: locks_used split: option.split)

lemma within_disconnect:
  assumes "{Ike_Sa (sa_unique_id s), Alloc_Lock, Sessions_Mutex, Pool_Mutex} \<subseteq> S"
  shows "within S (call_prog L (Disconnects (Some s)))"
  using assms by (auto simp: call_prog_def with_sa_def release_address_p_def intro!: locks_used within_release split: if_splits)

lemma within_connect:
  assumes "{Ike_Sa (sa_unique_id s), Alloc_Lock, Sessions_Mutex, Pool_Mutex} \<subseteq> S"
  shows "within S (call_prog L (Connects m now pools (Some s) requested))"
proof -
  have lookup: "within S (lookup_by_user_p L u)" and move: "within S (migrate_p L now u w)" for u w
    using assms by (auto simp: lookup_by_user_p_def migrate_p_def on_sessions_def on_al_def intro!: locks_used split: option.split)
  have bind: "within S (bind_lease_p L m now u w ip fixed)" for u w ip fixed
    using assms by (auto simp: bind_lease_p_def on_sessions_def on_al_def intro!: locks_used split: option.split)
  have choose: "within S (choose_ip_p L m u)" for u
    using assms by (auto simp: choose_ip_p_def lookup_fixed_p_def dp_acquire_p_def on_pool_def on_al_def intro!: locks_used split: option.split)
  have read: "within S (read_lease p)" for p by (auto simp: read_lease_def on_sessions_def on_al_def intro!: locks_used)
  have "within S (acquire_locked_p L m now u w)" for u w
    using assms by (auto simp: acquire_locked_p_def intro!: locks_used lookup move bind choose read within_release split: option.split)
  then show ?thesis
    using assms by (auto simp: call_prog_def with_sa_def acquire_address_p_def intro!: locks_used split: option.split)
qed

text \<open>A call that runs while a sweep is under way that has no lock but its own.\<close>

lemma beside_sweep:
  assumes "within (- {Sweep_Lock}) (call_prog L c)" and "th_prog t i = bindP (call_prog L c) k"
    and "\<And>l. l \<noteq> Sweep_Lock \<Longrightarrow> th_holder t l = None" and "run (call_prog L c) (th_state t) = Inr ((), s')"
  shows "\<exists>t'. locked_reach t t' \<and> th_state t' = s' \<and> th_prog t' = (th_prog t)(i := k ()) \<and>
    (\<forall>l. l \<noteq> Sweep_Lock \<longrightarrow> th_holder t' l = None)"
  using run_reach [OF call_disciplined assms(1,2) _ assms(4)] assms(3) by (fastforce simp: alone_def)

section \<open>The beginning of a sweep\<close>

lemma sweep_begins:
  assumes prog: "th_prog t i = bindP (call_prog L (Sweep_Job now interval)) k" and free: "th_holder t = (\<lambda>_. None)"
    and on: "\<not> sh_terminating (th_state t)"
    and ps: "expiring L (al_sessions (sh_al (th_state t))) now (al_lease_timeout (sh_al (th_state t))) = Inr ps"
  shows "\<exists>t' k'. stands t i {Sweep_Lock} (th_state t) (bindP (forP (sweep_cb_p L) ps) k') t'"
proof -
  let ?look = "getP sh_terminating"
  let ?snap = "bindP (getP (\<lambda>sh. al_lease_timeout (sh_al sh))) (\<lambda>timeout.
     bindP (lockP Sessions_Mutex) (\<lambda>_.
     bindP (on_sessions (\<lambda>sm. bindR (expiring L sm now timeout) (\<lambda>ps. Inr (ps, sm)))) (\<lambda>snapshot.
     bindP (unlockP Sessions_Mutex) (\<lambda>_. Return snapshot))))"
  let ?after = "\<lambda>_. bindP (unlockP Sweep_Lock) (\<lambda>_. bindP ?look (\<lambda>terminating.
     bindP (Return (if terminating then JOB_REQUEUE_NONE else JOB_RESCHEDULE_MS (interval * 1000))) (\<lambda>_. k ())))"
  let ?looked = "\<lambda>terminating. bindP (if \<not> terminating then sweep_p L now else Return ()) ?after"
  let ?job = "\<lambda>terminating. bindP (if terminating then Return JOB_REQUEUE_NONE else
     bindP (lockP Sweep_Lock) (\<lambda>_. bindP ?look (\<lambda>terminating.
     bindP (if \<not> terminating then sweep_p L now else Return ()) (\<lambda>_. bindP (unlockP Sweep_Lock) (\<lambda>_. bindP ?look (\<lambda>terminating.
     Return (if terminating then JOB_REQUEUE_NONE else JOB_RESCHEDULE_MS (interval * 1000)))))))) (\<lambda>_. k ())"
  have look: "disciplined (\<lambda>_ _ _. True) {} ?look {}"
    "disciplined (\<lambda>_ _ _. True) {} (bindP (lockP Sweep_Lock) (\<lambda>_. ?look)) {Sweep_Lock}"
    by (auto intro!: disciplined_bindP [OF disciplined_lockP] disciplined_getP)
  have "disciplined (\<lambda>_ _ _. True) {Sweep_Lock} ?snap (insert Sessions_Mutex {Sweep_Lock} - {Sessions_Mutex})"
    unfolding on_sessions_def on_al_def
    by (intro disciplined_bindP [OF disciplined_getP] disciplined_bindP [OF disciplined_lockP]
      disciplined_bindP [OF disciplined_doP] disciplined_bindP [OF disciplined_unlockP] disciplined.ret) auto
  then have snap: "disciplined (\<lambda>_ _ _. True) {Sweep_Lock} ?snap {Sweep_Lock}" by simp
  have "stands t i {} (th_state t) (bindP ?look ?job) t"
    using free by (intro stands_start) (simp_all add: prog call_prog_def plugin_sweep_cb_p_def bindP_assoc)
  from stands_run [OF this refl look(1), of False "th_state t"] on
  obtain t1 where t1: "stands t i {} (th_state t) (?job False) t1" by (auto simp: run_simps)
  have "?job False = bindP (bindP (lockP Sweep_Lock) (\<lambda>_. ?look)) ?looked" by (simp add: bindP_assoc)
  from stands_run [OF t1 this look(2), of False "th_state t"] on
  obtain t2 where t2: "stands t i {Sweep_Lock} (th_state t) (?looked False) t2" by (auto simp: run_simps)
  have "?looked False = bindP ?snap (\<lambda>ps. bindP (forP (sweep_cb_p L) ps) ?after)"
    by (simp add: sweep_p_def foreach_expiring_p_def bindP_assoc)
  from stands_run [OF t2 this snap, of ps "th_state t"] ps show ?thesis by (auto simp: run_simps)
qed

text \<open>Its first callback, up to the second reading of the lease.\<close>

lemma callback_checks:
  assumes t: "stands t0 i {Sweep_Lock} sh (bindP (forP (sweep_cb_p L) (p # ps)) k) t"
    and l: "sm_heap (al_sessions (sh_al sh)) p = Some l" and gone: "\<not> sh_alive sh (le_unique_id l)"
  shows "\<exists>t' k'. stands t0 i {Sweep_Lock} sh (bindP (read_lease p) (\<lambda>l.
    bindP (release_by_uid_impl_p L (le_unique_id l)) k')) t'"
proof -
  let ?rest = "\<lambda>_. bindP (forP (sweep_cb_p L) ps) k"
  let ?release = "\<lambda>found. bindP (if found then Return () else
     bindP (read_lease p) (\<lambda>l. bindP (release_by_uid_impl_p L (le_unique_id l)) (\<lambda>_. Return ()))) ?rest"
  let ?check = "bindP (read_lease p) (\<lambda>l. getP (\<lambda>sh. sh_alive sh (le_unique_id l)))"
  have look: "disciplined protects {Sweep_Lock} (read_lease p) {Sweep_Lock}" by (rule read_disciplined)
  have ask: "disciplined protects {Sweep_Lock} (getP (\<lambda>sh. sh_alive sh w)) {Sweep_Lock}" for w
    by (rule step_disciplined(2))
  let ?asked = "\<lambda>there. bindP (if \<not> there then Return False else bindP (lockP (Ike_Sa (le_unique_id l))) (\<lambda>_.
     bindP (getP (\<lambda>sh. sh_alive sh (le_unique_id l))) (\<lambda>still. bindP (unlockP (Ike_Sa (le_unique_id l))) (\<lambda>_. Return still)))) ?release"
  have "bindP (forP (sweep_cb_p L) (p # ps)) k = bindP (read_lease p) (\<lambda>l. bindP (checkout_p (le_unique_id l)) ?release)"
    by (simp add: sweep_cb_p_def bindP_assoc)
  from stands_run [OF t this look, of l sh]
  obtain t1 where t1: "stands t0 i {Sweep_Lock} sh (bindP (checkout_p (le_unique_id l)) ?release) t1"
    using l by (auto simp: run_simps store_simps)
  have "bindP (checkout_p (le_unique_id l)) ?release = bindP (getP (\<lambda>sh. sh_alive sh (le_unique_id l))) ?asked"
    by (simp add: checkout_p_def bindP_assoc)
  from stands_run [OF t1 this ask, of False sh] gone
  obtain t2 where "stands t0 i {Sweep_Lock} sh (?asked False) t2" by (auto simp: run_simps)
  moreover have "?asked False = bindP (read_lease p) (\<lambda>l. bindP (release_by_uid_impl_p L (le_unique_id l)) ?rest)"
    by (simp add: bindP_assoc)
  ultimately show ?thesis by metis
qed

section \<open>The races of the sweep\<close>

text \<open>C33: the snapshot of the sweep holds plain pointers.  As soon as one lease is expired, the end of a
  connection can free a lease of the snapshot before the sweep looks at it: with every lock taken as in
  the code, the sweep then reads freed memory.\<close>

theorem locked_sweep_uses_freed_lease:
  assumes "al_inv L (sh_al sh)" and "al_uids L (sh_al sh) w = Some u" and "al_users L (sh_al sh) u = Some l"
    and "now - le_acquired l > uint (al_lease_timeout (sh_al sh))" and "\<not> sh_terminating sh"
  shows "\<exists>w t. locked_reach (start_threads L (\<lambda>i. if i = 0 then [Sweep_Job now interval]
      else if i = 1 then [Disconnects (Some (s\<lparr>sa_unique_id := w\<rparr>))] else []) sh) t \<and>
    locked_step t (Inl Use_After_Free)"
proof -
  let ?al = "sh_al sh" and ?sm = "al_sessions (sh_al sh)"
  obtain q qs k where ps: "expiring L ?sm now (al_lease_timeout ?al) = Inr (q # qs)"
    and k: "sm_heap ?sm q = Some k" "uid_get L ?sm (uid_key (le_unique_id k)) = Some q"
    by (rule expired_pointers [OF assms(1-4)])
  obtain al' where al': "release_by_uid_impl L ?al (le_unique_id k) = Inr (True, al')"
      "sm_heap (al_sessions al') = (sm_heap ?sm)(q := None)"
    using release_pointers [OF assms(1) k] by blast
  let ?s = "s\<lparr>sa_unique_id := le_unique_id k\<rparr>"
  let ?t = "start_threads L (\<lambda>i. if i = 0 then [Sweep_Job now interval] else if i = 1 then [Disconnects (Some ?s)] else []) sh"
  obtain t1 k' where t1: "stands ?t 0 {Sweep_Lock} sh (bindP (forP (sweep_cb_p L) (q # qs)) k') t1"
    using sweep_begins [of ?t 0 L now interval "\<lambda>_. Return ()" "q # qs"] assms(5) ps by (auto simp: start_threads_def)
  have "th_prog t1 1 = bindP (call_prog L (Disconnects (Some ?s))) (\<lambda>_. Return ())"
    using stands_simps(4) [OF t1, of 1] by (simp add: start_threads_def)
  note t2 = beside_sweep [OF within_disconnect this]
  have "run (call_prog L (Disconnects (Some ?s))) sh = Inr ((), sh\<lparr>sh_al := al'\<rparr>)"
    using al'(1) run_release_address_p [of L "Some ?s" sh None None]
    by (simp add: call_prog_def with_sa_def run_simps release_address_def release_by_uid_def)
  then obtain t2 where t2: "locked_reach t1 t2" "th_state t2 = sh\<lparr>sh_al := al'\<rparr>" "th_prog t2 0 = th_prog t1 0"
    using t2 [of "sh\<lparr>sh_al := al'\<rparr>"] stands_simps(2,5) [OF t1] by fastforce
  obtain f where f: "th_prog t2 0 = Atomic f" "f (th_state t2) = Inl Use_After_Free"
    by (simp add: t2(2,3) stands_simps(3) [OF t1] sweep_cb_p_def read_lease_def on_sessions_def on_al_def doP_def al'(2) store_simps)
  have "locked_step t2 (Inl Use_After_Free)" using locked_step.atomic [OF f(1)] by (simp add: f(2))
  then show ?thesis using locked_reach_trans [OF t2(1) stands_simps(1) [OF t1]] by blast
qed

theorem locked_sweep_uses_freed_lease_witness:
  "\<exists>h al w t. acquire_address demo_lib demo_memory 100 demo_engine demo_al demo_pools (Some (demo_sa ''ops'' 1)) None = Inr (Some h, al) \<and>
    locked_reach (start_threads demo_lib (\<lambda>i. if i = 0 then [Sweep_Job 3701 60]
      else if i = 1 then [Disconnects (Some ((demo_sa ''ops'' 1)\<lparr>sa_unique_id := w\<rparr>))] else []) (demo_shared\<lparr>sh_al := al\<rparr>)) t \<and>
    locked_step t (Inl Use_After_Free)"
proof -
  obtain h al where a: "acquire_address demo_lib demo_memory 100 demo_engine demo_al demo_pools (Some (demo_sa ''ops'' 1)) None = Inr (Some h, al)"
    "al_inv demo_lib al" "al_users demo_lib al ''ops'' = Some (new_lease ''ops'' 1 h False 100)"
    "al_uids demo_lib al 1 = Some ''ops''" "al_lease_timeout al = 3600"
    by (rule demo_ops_connected)
  have "\<exists>w t. locked_reach (start_threads demo_lib (\<lambda>i. if i = 0 then [Sweep_Job 3701 60]
      else if i = 1 then [Disconnects (Some ((demo_sa ''ops'' 1)\<lparr>sa_unique_id := w\<rparr>))] else []) (demo_shared\<lparr>sh_al := al\<rparr>)) t \<and>
    locked_step t (Inl Use_After_Free)"
    by (rule locked_sweep_uses_freed_lease [where w = 1 and u = "''ops''" and l = "new_lease ''ops'' 1 h False 100"])
      (simp_all add: a demo_shared_def new_lease_def)
  with a(1) show ?thesis by blast
qed


text \<open>C34: the sweep reads the id of the lease again after it found no IKE_SA.  If the user of an expired
  lease comes back in between, with a new IKE_SA, the lease is renewed and moved to the new id, and
  the sweep releases it under that id, with every lock taken as in the code: the user whose connection
  has just got the address has no lease, and the address is free for others.\<close>

theorem locked_sweep_releases_renewed_lease:
  assumes "al_inv L (sh_al sh)" and "al_uids L (sh_al sh) w = Some u" and "al_users L (sh_al sh) u = Some l"
    and "now - le_acquired l > uint (al_lease_timeout (sh_al sh))"
    and "\<And>v k. al_users L (sh_al sh) v = Some k \<Longrightarrow> now - le_acquired k > uint (al_lease_timeout (sh_al sh)) \<Longrightarrow> v = u"
    and "\<not> sh_terminating sh" and "\<not> sh_alive sh w" and "serves m (sh_al sh) pools s u" and "ok_result_clone m"
  shows "\<exists>t1 t2. locked_reach (start_threads L (\<lambda>i. if i = 0 then [Sweep_Job now interval]
      else if i = 1 then [Connects m now' pools (Some s) requested] else []) sh) t1 \<and> th_prog t1 1 = Return () \<and>
    al_users L (sh_al (th_state t1)) u = Some (l\<lparr>le_unique_id := sa_unique_id s, le_acquired := now'\<rparr>) \<and>
    locked_reach t1 t2 \<and> al_users L (sh_al (th_state t2)) u = None \<and>
    (\<forall>h d. le_ip l = Some h \<longrightarrow> \<not> le_fixed l \<longrightarrow> al_dyn (sh_al (th_state t2)) = Some d \<longrightarrow> host_to_u32 h \<notin> dp_allocated d)"
proof -
  let ?al = "sh_al sh" and ?w = "sa_unique_id s" and ?c = "Connects m now' pools (Some s) requested"
  let ?t = "start_threads L (\<lambda>i. if i = 0 then [Sweep_Job now interval] else if i = 1 then [?c] else []) sh"
  let ?l = "l\<lparr>le_unique_id := ?w, le_acquired := now'\<rparr>"
  obtain p where ps: "expiring L (al_sessions ?al) now (al_lease_timeout ?al) = Inr [p]"
    and p: "user_get L (al_sessions ?al) u = Some p" "sm_heap (al_sessions ?al) p = Some l" "le_unique_id l = w"
    by (rule only_expired [OF assms(1-5)])
  obtain t0 k where t0: "stands ?t 0 {Sweep_Lock} sh (bindP (forP (sweep_cb_p L) [p]) k) t0"
    using sweep_begins [of ?t 0 L now interval "\<lambda>_. Return ()" "[p]"] assms(6) ps by (auto simp: start_threads_def)
  obtain t1 k' where t1: "stands ?t 0 {Sweep_Lock} sh (bindP (read_lease p) (\<lambda>l.
      bindP (release_by_uid_impl_p L (le_unique_id l)) k')) t1"
    using callback_checks [OF t0 p(2)] assms(7) p(3) by blast
  obtain al1 where al1: "acquire_locked L m now' (sh_pe sh) ?al u ?w = Inr (le_ip l, False, al1)" "al_inv L al1"
      "al_users L al1 = (al_users L ?al)(u \<mapsto> ?l)" "al_uids L al1 ?w = Some u" "sm_heap (al_sessions al1) p = Some ?l"
    using acquire_renews [OF assms(1) p(1,2), of m now' "sh_pe sh" ?w] assms(9) by auto
  have "th_prog t1 1 = bindP (call_prog L ?c) (\<lambda>_. Return ())"
    using stands_simps(4) [OF t1, of 1] by (simp add: start_threads_def)
  note connect = beside_sweep [OF within_connect this]
  have "run (call_prog L ?c) sh = Inr ((), sh\<lparr>sh_al := al1\<rparr>)"
    using acquire_served [OF assms(8) al1(1)] by (simp add: call_prog_def with_sa_def run_simps)
  then obtain t2 where t2: "locked_reach t1 t2" "th_state t2 = sh\<lparr>sh_al := al1\<rparr>" "th_prog t2 = (th_prog t1)(1 := Return ())"
      "\<And>l. l \<noteq> Sweep_Lock \<Longrightarrow> th_holder t2 l = None"
    using connect [of "sh\<lparr>sh_al := al1\<rparr>"] stands_simps(2,5) [OF t1] by fastforce
  obtain al2 where al2: "release_by_uid_impl L al1 ?w = Inr (al_uids L al1 ?w \<noteq> None, al2)" "al_inv L al2"
      "sm_abs L (al_sessions al2) = snd (spec_unbind ?w (sm_abs L (al_sessions al1)))"
    using release_effect [OF al1(2)] by blast
  let ?release = "bindP (read_lease p) (\<lambda>l. release_by_uid_impl_p L (le_unique_id l))"
  have "run ?release (th_state t2) = Inr (al_uids L al1 ?w \<noteq> None, sh\<lparr>sh_al := al2\<rparr>)"
    by (simp add: t2(2) run_simps al1(5) al2(1) store_simps)
  moreover have "th_prog t2 0 = bindP ?release k'"
    by (simp add: t2(3) stands_simps(3) [OF t1] bindP_assoc)
  moreover have "within (- {Sweep_Lock}) ?release"
    by (intro locks_used within_release) (simp_all add: read_lease_def on_sessions_def on_al_def locks_used)
  moreover have "disciplined protects {} ?release {}" by (auto intro!: locks release_disciplined)
  ultimately obtain t3 where t3: "locked_reach t2 t3" "th_state t3 = sh\<lparr>sh_al := al2\<rparr>"
    using run_reach [of protects "{}" ?release "{}" "- {Sweep_Lock}" t2 0 k'] t2(4) by (fastforce simp: alone_def)
  have gone: "al_users L al2 = (al_users L ?al)(u := None)"
    using al2(3) by (simp add: sm_abs_def spec_unbind_def al1(3,4))
  note free = released_address_free [OF assms(1,3) al2(2) gone]
  show ?thesis
    using locked_reach_trans [OF t2(1) stands_simps(1) [OF t1]] t2(2,3) t3 al1(3) gone free
    by (intro exI [of _ t2] exI [of _ t3]) simp
qed

theorem locked_sweep_releases_renewed_lease_witness:
  "\<exists>h al t1 t2. acquire_address demo_lib demo_memory 100 demo_engine demo_al demo_pools (Some (demo_sa ''ops'' 1)) None = Inr (Some h, al) \<and>
    locked_reach (start_threads demo_lib (\<lambda>i. if i = 0 then [Sweep_Job 3701 60]
      else if i = 1 then [Connects demo_memory 3700 demo_pools (Some (demo_sa ''ops'' 2)) None] else []) (demo_shared\<lparr>sh_al := al\<rparr>)) t1 \<and>
    th_prog t1 1 = Return () \<and> al_users demo_lib (sh_al (th_state t1)) ''ops'' \<noteq> None \<and>
    locked_reach t1 t2 \<and> al_users demo_lib (sh_al (th_state t2)) ''ops'' = None"
proof -
  obtain h al where a: "acquire_address demo_lib demo_memory 100 demo_engine demo_al demo_pools (Some (demo_sa ''ops'' 1)) None = Inr (Some h, al)"
    "al_inv demo_lib al" "serves demo_memory al demo_pools (demo_sa ''ops'' 2) ''ops''"
    "al_users demo_lib al ''ops'' = Some (new_lease ''ops'' 1 h False 100)"
    "al_uids demo_lib al 1 = Some ''ops''" "al_lease_timeout al = 3600" "dom (al_users demo_lib al) = {''ops''}"
    by (rule demo_ops_connected)
  have only: "v = ''ops''" if "al_users demo_lib al v = Some k" for v k using a(7) that by blast
  let ?sh = "demo_shared\<lparr>sh_al := al\<rparr>"
  have sh: "sh_al ?sh = al" "\<not> sh_terminating ?sh" "\<not> sh_alive ?sh 1" by (simp_all add: demo_shared_def)
  have old: "3701 - le_acquired (new_lease ''ops'' 1 h False 100) > uint (al_lease_timeout (sh_al ?sh))"
    by (simp add: a(6) new_lease_def)
  show ?thesis
    using locked_sweep_releases_renewed_lease [of demo_lib ?sh 1 "''ops''", unfolded sh(1), OF a(2,5,4) old [unfolded sh(1)] _ sh(2,3) a(3)
        demo_memory_simps(6), of 60 3700 None] only a(1) by fastforce
qed

section \<open>A lookup and a reload\<close>

lemma lookup_begins:
  assumes prog: "th_prog t i = bindP (call_prog L (Connects m now pools (Some s) requested)) k" and free: "th_holder t = (\<lambda>_. None)"
    and user: "serves m (sh_al (th_state t)) pools s u" "lookup_by_user L (al_sessions (sh_al (th_state t))) (Some u) = None"
    and fixed: "\<not> is_anon u" "pe_lookup_fixed L (sh_pe (th_state t)) (Some u) = Inr (Some b)"
  shows "\<exists>t' k'. stands t i {Alloc_Lock, Ike_Sa (sa_unique_id s)} (th_state t)
    (bindP (doP (\<lambda>sh. bindR (borrow_clone (sh_pe sh) b) (\<lambda>h. Inr (h, sh)))) k') t'"
proof -
  let ?w = "Ike_Sa (sa_unique_id s)" and ?s = "th_state t"
  let ?enter = "bindP (lockP ?w) (\<lambda>_. getP (\<lambda>sh. pools_include (sh_al sh) pools))"
  let ?look = "bindP (lockP Alloc_Lock) (\<lambda>_. lookup_by_user_p L (Some u))"
  let ?policy = "doP (\<lambda>sh. bindR (pe_lookup_fixed L (sh_pe sh) (Some u)) (\<lambda>b. Inr (b, sh)))"
  have enter: "disciplined protects {} ?enter {?w}" and policy: "disciplined protects H ?policy H" for H
    by (auto intro!: locks step_disciplined)
  have look: "disciplined protects {?w} ?look {Alloc_Lock, ?w}"
    by (auto intro!: locks leaf_disciplined)
  have "\<exists>k1. bindP (call_prog L (Connects m now pools (Some s) requested)) k = bindP ?enter k1 \<and>
      (\<exists>k2. k1 True = bindP ?look k2 \<and> (\<exists>k3. k2 None = bindP ?policy k3 \<and>
      (\<exists>k4. k3 (Some b) = bindP (doP (\<lambda>sh. bindR (borrow_clone (sh_pe sh) b) (\<lambda>h. Inr (h, sh)))) k4)))"
    using user(1) fixed(1)
    by (auto simp: call_prog_def with_sa_def acquire_address_p_def acquire_locked_p_def choose_ip_p_def lookup_fixed_p_def
        serves_def bindP_assoc intro!: exI)
  then obtain k1 k2 k3 k4 where k: "bindP (call_prog L (Connects m now pools (Some s) requested)) k = bindP ?enter k1"
      "k1 True = bindP ?look k2" "k2 None = bindP ?policy k3"
      "k3 (Some b) = bindP (doP (\<lambda>sh. bindR (borrow_clone (sh_pe sh) b) (\<lambda>h. Inr (h, sh)))) k4" by blast
  have "stands t i {} ?s (bindP ?enter k1) t" using prog free k(1) by (intro stands_start) simp_all
  from stands_run [OF this refl enter, of True ?s] user(1)
  obtain t1 where t1: "stands t i {?w} ?s (k1 True) t1" by (auto simp: run_simps serves_def)
  from stands_run [OF t1 k(2) look, of None ?s] user(2)
  obtain t2 where t2: "stands t i {Alloc_Lock, ?w} ?s (k2 None) t2" by (auto simp: run_simps)
  from stands_run [OF t2 k(3) policy, of "Some b" ?s] fixed(2)
  obtain t3 where t3: "stands t i {Alloc_Lock, ?w} ?s (k3 (Some b)) t3" by (auto simp: run_simps)
  then show ?thesis unfolding k(4) by blast
qed

lemma reload_reach:
  assumes "th_prog t i = bindP (call_prog L (Reload (Some fresh))) k" and "th_holder t Reload_Lock = None"
    and "run (reload_p (Some fresh)) (th_state t) = Inr (True, s')"
  shows "\<exists>t'. locked_reach t t' \<and> th_state t' = s' \<and> th_prog t' = (th_prog t)(i := k ())"
proof -
  have "within {Reload_Lock} (call_prog L (Reload (Some fresh)))"
    by (auto simp: call_prog_def reload_p_def intro!: locks_used)
  moreover have "run (call_prog L (Reload (Some fresh))) (th_state t) = Inr ((), s')"
    using assms(3) by (simp add: call_prog_def run_simps)
  ultimately show ?thesis
    using run_reach [OF call_disciplined _ assms(1), of "{Reload_Lock}" "()" s'] assms(2) by (fastforce simp: alone_def)
qed

text \<open>C35: reading the policy without a lock is not safe: when a user with a fixed address connects, a
  reload can destroy the snapshot between the lookup and the clone of the address, which then reads
  freed memory; no lock of the code prevents it.\<close>

theorem locked_reload_uses_freed_snapshot:
  assumes "al_inv L (sh_al sh)" and "pe_inv L (sh_pe sh)" and "serves m (sh_al sh) pools s u"
    and "al_users L (sh_al sh) u = None" and "policy_address L (sh_pe sh) u = Some h" and "sn_inv L fresh"
  shows "\<exists>t. locked_reach (start_threads L (\<lambda>i. if i = 0 then [Connects m now pools (Some s) requested]
      else if i = 1 then [Reload (Some fresh)] else []) sh) t \<and>
    locked_step t (Inl Use_After_Free)"
proof -
  let ?t = "start_threads L (\<lambda>i. if i = 0 then [Connects m now pools (Some s) requested]
      else if i = 1 then [Reload (Some fresh)] else []) sh"
  obtain a sn where a: "pe_active (sh_pe sh) = Some a" "pe_store (sh_pe sh) = [a \<mapsto> sn]" "a < pe_next (sh_pe sh)"
    using assms(2) by (auto simp: pe_inv_def)
  have fixed: "\<not> is_anon u" "pe_fixed L (sh_pe sh) u = Some h" using assms(5) by (auto simp: policy_address_def split: if_splits)
  then have look: "pe_lookup_fixed L (sh_pe sh) (Some u) = Inr (Some (a, h))"
    using pe_lookup_fixed_law [OF assms(2), of u] a(1) by simp
  have none: "lookup_by_user L (al_sessions (sh_al sh)) (Some u) = None"
    using sm_users_user_get(2) [OF al_sm [OF assms(1)], of u] assms(4)
    by (cases "user_get L (al_sessions (sh_al sh)) u") (auto simp: lookup_by_user_def)
  obtain t1 k' where t1: "stands ?t 0 {Alloc_Lock, Ike_Sa (sa_unique_id s)} sh
      (bindP (doP (\<lambda>sh. bindR (borrow_clone (sh_pe sh) (a, h)) (\<lambda>h. Inr (h, sh)))) k') t1"
    using lookup_begins [of ?t 0 L m now pools s requested "\<lambda>_. Return ()" u "(a, h)"] assms(3) fixed(1) look none
    by (auto simp: start_threads_def)
  obtain pe where pe: "pe_store pe = [pe_next (sh_pe sh) \<mapsto> fresh]"
      "(let (old, pe') = pe_swap (sh_pe sh) fresh in bindR (snapshot_destroy pe' old) (\<lambda>pe''. Inr (True, pe''))) = Inr (True, pe)"
    using pe_swap_destroy [OF assms(2,6)] by blast
  have "run (reload_p (Some fresh)) (th_state t1) = Inr (True, sh\<lparr>sh_pe := pe\<rparr>)"
    using pe(2) by (auto simp: stands_simps(2) [OF t1] reload_p_def run_simps Let_def case_prod_unfold res_iff)
  moreover have "th_prog t1 1 = bindP (call_prog L (Reload (Some fresh))) (\<lambda>_. Return ())"
    using stands_simps(4) [OF t1, of 1] by (simp add: start_threads_def)
  moreover have "th_holder t1 Reload_Lock = None" using stands_simps(5) [OF t1, of Reload_Lock] by simp
  ultimately obtain t2 where t2: "locked_reach t1 t2" "th_state t2 = sh\<lparr>sh_pe := pe\<rparr>" "th_prog t2 0 = th_prog t1 0"
    using reload_reach [of t1 1] by fastforce
  obtain f where f: "th_prog t2 0 = Atomic f" "f (th_state t2) = Inl Use_After_Free"
    using a(3) by (simp add: pe(1) t2(2,3) stands_simps(3) [OF t1] doP_def borrow_clone_def store_simps)
  have "locked_step t2 (Inl Use_After_Free)" using locked_step.atomic [OF f(1)] by (simp add: f(2))
  then show ?thesis using locked_reach_trans [OF t2(1) stands_simps(1) [OF t1]] by blast
qed


theorem locked_reload_uses_freed_snapshot_witness:
  "\<exists>fresh t. locked_reach (start_threads demo_lib (\<lambda>i. if i = 0 then [Connects demo_memory 100 demo_pools (Some (demo_sa ''vip'' 1)) None]
      else if i = 1 then [Reload (Some fresh)] else []) demo_shared) t \<and>
    locked_step t (Inl Use_After_Free)"
proof -
  obtain fresh where "sn_inv demo_lib fresh" using demo_engine_inv by (auto simp: pe_inv_def)
  moreover have "serves demo_memory (sh_al demo_shared) demo_pools (demo_sa ''vip'' 1) ''vip''"
    using demo_serves [of "''vip''" 1] by (simp add: cstr_def demo_shared_def)
  moreover have "policy_address demo_lib (sh_pe demo_shared) ''vip'' = Some \<lparr>h_family = AF_INET, h_address = [97, 98, 99, 100]\<rparr>"
    by (simp add: policy_address_def demo_engine_fixed is_anon_def demo_shared_def)
  moreover have "al_inv demo_lib (sh_al demo_shared)" "pe_inv demo_lib (sh_pe demo_shared)" "al_users demo_lib (sh_al demo_shared) ''vip'' = None"
    by (simp_all add: demo_shared_def demo_al_inv demo_engine_inv demo_al_users)
  ultimately show ?thesis using locked_reload_uses_freed_snapshot by blast
qed

end
