(* ===== verification/Plugin_Life.thy ===== *)
theory Plugin_Life
  imports Plugin
begin

text \<open>
  The life of the plugin in charon: from its construction through registration, calls, reloads, sweeps,
  unregistration and unload, in every order the plugin loader, the job queue, the attribute manager and
  the bus can take them.  The relation \<open>charon_step\<close> has one rule for each of them; the guards are what
  the loader and the processor promise: a feature is registered before it is unregistered, a plugin is
  destroyed after its feature was unregistered, the cleanup of a job comes last and once.  The files may change
  between reloads.
\<close>

section \<open>Steps\<close>

definition call_acquire ::
  "('u, 's, 'f) strongswan \<Rightarrow> memory \<Rightarrow> int \<Rightarrow> string option list option \<Rightarrow> ike_sa option \<Rightarrow> host option \<Rightarrow>
   ('u, 's, 'f) heap \<Rightarrow> nat \<Rightarrow> (host option \<times> ('u, 's, 'f) heap) res" where
  "call_acquire L m now pools sa requested h a =
     bindR (deref (hp_alloc h) a) (\<lambda>al.
     bindR (deref (hp_engine_of h) a) (\<lambda>q.
     bindR (deref (hp_policy h) q) (\<lambda>pe.
     bindR (acquire_address L m now pe al pools sa requested) (\<lambda>(result, al').
     Inr (result, h\<lparr>hp_alloc := (hp_alloc h)(a \<mapsto> al')\<rparr>)))))"

definition call_release ::
  "('u, 's, 'f) strongswan \<Rightarrow> string option list option \<Rightarrow> host option \<Rightarrow> ike_sa option \<Rightarrow>
   ('u, 's, 'f) heap \<Rightarrow> nat \<Rightarrow> (bool \<times> ('u, 's, 'f) heap) res" where
  "call_release L pools addr sa h a =
     bindR (deref (hp_alloc h) a) (\<lambda>al.
     bindR (release_address L al pools addr sa) (\<lambda>(found, al').
     Inr (found, h\<lparr>hp_alloc := (hp_alloc h)(a \<mapsto> al')\<rparr>)))"

definition call_updown ::
  "('u, 's, 'f) strongswan \<Rightarrow> ike_sa option \<Rightarrow> bool \<Rightarrow> ('u, 's, 'f) heap \<Rightarrow> nat \<Rightarrow> ('u, 's, 'f) heap res" where
  "call_updown L sa up h l =
     bindR (deref (hp_listener h) l) (\<lambda>el.
     bindR (ike_updown L (hp_alloc h) el sa up) (\<lambda>(stay, als). Inr (h\<lparr>hp_alloc := als\<rparr>)))"

text \<open>A job moves to its next phase.\<close>

definition move_job :: "nat \<times> job_phase \<Rightarrow> job_phase \<Rightarrow> ('u, 's, 'f) charon \<Rightarrow> ('u, 's, 'f) charon" where
  "move_job j ph ch = ch\<lparr>ch_jobs := add_mset (fst j, ph) (ch_jobs ch - {#j#})\<rparr>"

inductive charon_step ::
  "('u, 's, 'f) strongswan \<Rightarrow> nat \<Rightarrow> ('u, 's, 'f) charon \<Rightarrow> ('u, 's, 'f) charon res \<Rightarrow> bool"
  for L this where
  register: "ch_loaded ch \<Longrightarrow> \<not> ch_registered ch \<Longrightarrow>
    charon_step L this ch (bindR (plugin_cb L job_ok ch this True) (\<lambda>(_, ch'). Inr (ch'\<lparr>ch_registered := True\<rparr>)))"
| unregister: "ch_loaded ch \<Longrightarrow> ch_registered ch \<Longrightarrow>
    charon_step L this ch (bindR (plugin_cb L job_ok ch this False) (\<lambda>(_, ch'). Inr (ch'\<lparr>ch_registered := False\<rparr>)))"
| reload: "ch_loaded ch \<Longrightarrow> plugin_reload L files ok (ch_heap ch) this = Some r \<Longrightarrow>
    charon_step L this ch (bindR r (\<lambda>(_, h'). Inr (ch\<lparr>ch_heap := h'\<rparr>)))"
| destroy: "ch_loaded ch \<Longrightarrow> \<not> ch_registered ch \<Longrightarrow>
    charon_step L this ch (bindR (plugin_destroy L (ch_heap ch) this) (\<lambda>h'. Inr (ch\<lparr>ch_heap := h', ch_loaded := False\<rparr>)))"
| acquire: "a \<in> ch_providers ch \<Longrightarrow> lease_memory_ok m \<Longrightarrow>
    charon_step L this ch (bindR (call_acquire L m now pools sa requested (ch_heap ch) a) (\<lambda>(_, h'). Inr (ch\<lparr>ch_heap := h'\<rparr>)))"
| release: "a \<in> ch_providers ch \<Longrightarrow>
    charon_step L this ch (bindR (call_release L pools addr sa (ch_heap ch) a) (\<lambda>(_, h'). Inr (ch\<lparr>ch_heap := h'\<rparr>)))"
| updown: "l \<in> ch_listeners ch \<Longrightarrow>
    charon_step L this ch (bindR (call_updown L sa up (ch_heap ch) l) (\<lambda>h'. Inr (ch\<lparr>ch_heap := h'\<rparr>)))"
| job_enter: "(t, Queued) \<in># ch_jobs ch \<Longrightarrow>
    charon_step L this ch (bindR (sweep_check (ch_heap ch) t) (\<lambda>terminating.
      Inr (move_job (t, Queued) (if terminating then Ending else Entered) ch)))"
| job_sweep: "(t, Entered) \<in># ch_jobs ch \<Longrightarrow>
    charon_step L this ch (bindR (sweep_locked L alive now (ch_heap ch) t) (\<lambda>h'.
      Inr (move_job (t, Entered) Swept (ch\<lparr>ch_heap := h'\<rparr>))))"
| job_leave: "(t, Swept) \<in># ch_jobs ch \<Longrightarrow>
    charon_step L this ch (bindR (sweep_requeue (ch_heap ch) t) (\<lambda>r.
      Inr (move_job (t, Swept) (case r of JOB_REQUEUE_NONE \<Rightarrow> Ending | JOB_RESCHEDULE_MS ms \<Rightarrow> Queued) ch)))"
| job_cancel: "(t, Queued) \<in># ch_jobs ch \<Longrightarrow>
    charon_step L this ch (bindR (sweep_cancel (ch_heap ch) t) (\<lambda>cancelled.
      Inr (move_job (t, Queued) (if cancelled then Ending else Queued) ch)))"
| job_cleanup: "(t, Ending) \<in># ch_jobs ch \<Longrightarrow>
    charon_step L this ch (bindR (sweep_cleanup L (ch_heap ch) t) (\<lambda>h'.
      Inr (ch\<lparr>ch_heap := h', ch_jobs := ch_jobs ch - {#(t, Ending)#}\<rparr>)))"

inductive charon_reach ::
  "('u, 's, 'f) strongswan \<Rightarrow> nat \<Rightarrow> ('u, 's, 'f) charon \<Rightarrow> ('u, 's, 'f) charon res \<Rightarrow> bool"
  for L this ch where
  start: "charon_reach L this ch (Inr ch)"
| step: "charon_reach L this ch (Inr ch') \<Longrightarrow> charon_step L this ch' r \<Longrightarrow> charon_reach L this ch r"

inductive_cases charon_stepE: "charon_step L this ch r"

section \<open>The invariant\<close>

text \<open>A plugin with all it owns: the references, the engine at \<open>q\<close>, the allocator at \<open>a\<close>, the listener at \<open>l\<close>.\<close>

definition plugin_live ::
  "('u, 's, 'f) strongswan \<Rightarrow> ('u, 's, 'f) heap \<Rightarrow> nat \<Rightarrow> int \<Rightarrow> nat \<Rightarrow> nat \<Rightarrow> nat \<Rightarrow> bool" where
  "plugin_live L h this n q a l \<longleftrightarrow>
     (\<exists>p pe al. hp_plugin h this = Some p \<and> pl_refcnt p = n \<and>
       pl_policy p = Some q \<and> pl_allocator p = Some a \<and> pl_listener p = Some l \<and>
       hp_policy h q = Some pe \<and> pe_inv L pe \<and> hp_alloc h a = Some al \<and> al_inv L al \<and>
       hp_engine_of h a = Some q \<and> hp_listener h l = Some \<lparr>el_allocator = a\<rparr>)"

definition plugin_freed :: "('u, 's, 'f) heap \<Rightarrow> nat \<Rightarrow> nat \<Rightarrow> nat \<Rightarrow> nat \<Rightarrow> bool" where
  "plugin_freed h this q a l \<longleftrightarrow>
     hp_plugin h this = None \<and> hp_policy h q = None \<and> hp_alloc h a = None \<and> hp_listener h l = None"

definition references :: "('u, 's, 'f) charon \<Rightarrow> nat" where
  "references ch = (if ch_loaded ch then 1 else 0) + size (ch_jobs ch)"

definition life_inv ::
  "('u, 's, 'f) strongswan \<Rightarrow> nat \<Rightarrow> nat \<Rightarrow> nat \<Rightarrow> nat \<Rightarrow> ('u, 's, 'f) charon \<Rightarrow> bool" where
  "life_inv L this q a l ch \<longleftrightarrow>
     (\<forall>j \<in># ch_jobs ch. fst j = this) \<and> (ch_registered ch \<longrightarrow> ch_loaded ch) \<and>
     ch_providers ch = (if ch_registered ch then {a} else {}) \<and>
     ch_listeners ch = (if ch_registered ch then {l} else {}) \<and>
     (if references ch = 0 then plugin_freed (ch_heap ch) this q a l
      else plugin_live L (ch_heap ch) this (int (references ch)) q a l)"

section \<open>What the operations do to a live plugin\<close>

lemma destroy_internal_live:
  assumes "plugin_live L h this n q a l"
  shows "\<exists>h'. plugin_destroy_internal L h this = Inr h' \<and> plugin_freed h' this q a l"
proof -
  obtain p pe al where p: "hp_plugin h this = Some p" "pl_policy p = Some q" "pl_allocator p = Some a" "pl_listener p = Some l"
      "hp_policy h q = Some pe" "pe_inv L pe" "hp_alloc h a = Some al" "al_inv L al" "hp_listener h l = Some \<lparr>el_allocator = a\<rparr>"
    using assms by (auto simp: plugin_live_def)
  obtain sm where "session_manager_destroy L (al_sessions al) = Inr sm"
    using destroy_effect [OF al_sm [OF p(8)]] by blast
  moreover obtain pe' where "policy_engine_destroy pe = Inr pe'"
    using p(6) by (auto simp: policy_engine_destroy_def snapshot_destroy_def pe_inv_def store_simps)
  ultimately show ?thesis
    using p by (simp add: plugin_destroy_internal_def event_listener_destroy_def ip_allocator_destroy_def
        store_simps plugin_freed_def)
qed

lemma plugin_ref_live:
  assumes "plugin_live L h this n q a l"
  shows "\<exists>h'. plugin_ref h this = Inr h' \<and> plugin_live L h' this (n + 1) q a l"
  using assms by (auto simp: plugin_live_def plugin_ref_def upd_plugin_def store_simps)

lemma plugin_unref_live:
  assumes "plugin_live L h this n q a l"
  shows "\<exists>h'. plugin_unref L h this = Inr h' \<and>
    (if n \<le> 1 then plugin_freed h' this q a l else plugin_live L h' this (n - 1) q a l)"
proof -
  obtain p where p: "hp_plugin h this = Some p" "pl_refcnt p = n" using assms by (auto simp: plugin_live_def)
  let ?h = "h\<lparr>hp_plugin := (hp_plugin h)(this \<mapsto> p\<lparr>pl_refcnt := n - 1\<rparr>)\<rparr>"
  have live: "plugin_live L ?h this (n - 1) q a l" using assms p by (auto simp: plugin_live_def)
  have "plugin_unref L h this = (if n \<le> 1 then plugin_destroy_internal L ?h this else Inr ?h)"
    using p by (simp add: plugin_unref_def upd_plugin_def store_simps)
  then show ?thesis using live destroy_internal_live [OF live] by auto
qed

lemma plugin_unref_count:
  assumes "plugin_live L h this (int (Suc n)) q a l"
  shows "\<exists>h'. plugin_unref L h this = Inr h' \<and>
    (if n = 0 then plugin_freed h' this q a l else plugin_live L h' this (int n) q a l)"
  using plugin_unref_live [OF assms] by (auto split: if_splits)

lemma live_parts:
  assumes "plugin_live L h this n q a l"
  obtains p pe al where "hp_plugin h this = Some p" "pl_policy p = Some q" "pl_allocator p = Some a" "pl_listener p = Some l"
    "hp_policy h q = Some pe" "pe_inv L pe" "hp_alloc h a = Some al" "al_inv L al" "hp_engine_of h a = Some q"
    "hp_listener h l = Some \<lparr>el_allocator = a\<rparr>"
  using assms by (auto simp: plugin_live_def)

lemma live_new_alloc:
  "plugin_live L h this n q a l \<Longrightarrow> al_inv L al' \<Longrightarrow> plugin_live L (h\<lparr>hp_alloc := (hp_alloc h)(a \<mapsto> al')\<rparr>) this n q a l"
  by (auto simp: plugin_live_def)

lemma live_new_engine:
  "plugin_live L h this n q a l \<Longrightarrow> pe_inv L pe' \<Longrightarrow> plugin_live L (h\<lparr>hp_policy := (hp_policy h)(q \<mapsto> pe')\<rparr>) this n q a l"
  by (auto simp: plugin_live_def)

lemma call_acquire_live:
  assumes live: "plugin_live L h this n q a l" and m: "lease_memory_ok m"
  shows "\<exists>r h'. call_acquire L m now pools sa requested h a = Inr (r, h') \<and> plugin_live L h' this n q a l"
proof -
  obtain p pe al where p: "hp_policy h q = Some pe" "pe_inv L pe" "hp_alloc h a = Some al" "al_inv L al" "hp_engine_of h a = Some q"
    by (rule live_parts [OF live])
  obtain r al' where "acquire_address L m now pe al pools sa requested = Inr (r, al')" "al_inv L al'"
    using acquire_inv [OF p(4,2) m, of now pools sa requested] by blast
  then show ?thesis using p live_new_alloc [OF live] by (simp add: call_acquire_def store_simps)
qed

lemma call_release_live:
  assumes live: "plugin_live L h this n q a l"
  shows "\<exists>r h'. call_release L pools addr sa h a = Inr (r, h') \<and> plugin_live L h' this n q a l"
proof -
  obtain al where p: "hp_alloc h a = Some al" "al_inv L al" by (rule live_parts [OF live])
  obtain r al' where "release_address L al pools addr sa = Inr (r, al')" "al_inv L al'"
    using release_effect [OF p(2), of "sa_unique_id (the sa)"] p(2) by (cases sa) (auto simp: release_address_def)
  then show ?thesis using p live_new_alloc [OF live] by (simp add: call_release_def store_simps)
qed

lemma call_updown_live:
  assumes live: "plugin_live L h this n q a l"
  shows "\<exists>h'. call_updown L sa up h l = Inr h' \<and> plugin_live L h' this n q a l"
proof -
  obtain al where p: "hp_alloc h a = Some al" "al_inv L al" "hp_listener h l = Some \<lparr>el_allocator = a\<rparr>"
    by (rule live_parts [OF live])
  obtain al' where "release_by_uid L al (sa_unique_id (the sa)) = Inr al'" "al_inv L al'"
    by (rule release_by_uid_effect [OF p(2)])
  then show ?thesis using p live live_new_alloc [OF live, of al']
    by (cases sa; cases up) (simp_all add: call_updown_def ike_updown_def store_simps)
qed

lemma sweep_locked_live:
  assumes live: "plugin_live L h this n q a l"
  shows "\<exists>h'. sweep_locked L alive now h this = Inr h' \<and> plugin_live L h' this n q a l"
proof -
  obtain p al where p: "hp_plugin h this = Some p" "pl_allocator p = Some a" "hp_alloc h a = Some al" "al_inv L al"
    by (rule live_parts [OF live])
  obtain al' where "sweep L alive now al = Inr al'" "al_inv L al'" using sweep_effect [OF p(4)] by blast
  then show ?thesis using p live live_new_alloc [OF live] by (simp add: sweep_locked_def store_simps)
qed

lemma pe_reload_inv:
  assumes "strongswan_ok L" and "pe_inv L pe" and "pe_reload L files ok pe = Some r"
  shows "\<exists>b pe'. r = Inr (b, pe') \<and> pe_inv L pe'"
proof -
  obtain loaded where l: "snapshot_load L files ok (pe_path pe) = Some loaded"
    using assms(3) by (auto simp: pe_reload_def)
  show ?thesis
  proof (cases loaded)
    case None
    then show ?thesis using assms(2,3) l by (auto simp: pe_reload_def)
  next
    case (Some fresh)
    then show ?thesis
      using assms(3) l pe_swap_destroy [OF assms(2) snapshot_load_inv [OF assms(1), of files ok _ fresh]]
      by (fastforce simp: pe_reload_def)
  qed
qed

lemma plugin_reload_live:
  assumes "strongswan_ok L" and live: "plugin_live L h this n q a l" and r: "plugin_reload L files ok h this = Some r"
  shows "\<exists>b h'. r = Inr (b, h') \<and> plugin_live L h' this n q a l"
proof -
  obtain p pe where p: "hp_plugin h this = Some p" "pl_policy p = Some q" "hp_policy h q = Some pe" "pe_inv L pe"
    by (rule live_parts [OF live])
  obtain r' where r': "pe_reload L files ok pe = Some r'"
      "r = bindR r' (\<lambda>(ok, pe'). Inr (ok, h\<lparr>hp_policy := (hp_policy h)(q \<mapsto> pe')\<rparr>))"
    using r p by (auto simp: plugin_reload_def store_simps)
  obtain b pe' where "r' = Inr (b, pe')" "pe_inv L pe'" using pe_reload_inv [OF assms(1) p(4) r'(1)] by blast
  then show ?thesis using r'(2) live_new_engine [OF live] by simp
qed

section \<open>Every step keeps the invariant\<close>

text \<open>Steps that replace the heap by one with a live plugin, and steps that move a job.\<close>

lemma references_simps [simp]:
  "references (ch\<lparr>ch_heap := h\<rparr>) = references ch"
  "references (ch\<lparr>ch_providers := A\<rparr>) = references ch"
  "references (ch\<lparr>ch_listeners := A\<rparr>) = references ch"
  "references (ch\<lparr>ch_registered := b\<rparr>) = references ch"
  by (simp_all add: references_def)

lemma life_new_heap:
  assumes "life_inv L this q a l ch" and "references ch > 0"
    and "plugin_live L h this (int (references ch)) q a l"
  shows "life_inv L this q a l (ch\<lparr>ch_heap := h\<rparr>)"
  using assms by (simp add: life_inv_def)

lemma move_job_simps [simp]:
  "ch_heap (move_job j ph ch) = ch_heap ch"
  "ch_providers (move_job j ph ch) = ch_providers ch"
  "ch_listeners (move_job j ph ch) = ch_listeners ch"
  "ch_registered (move_job j ph ch) = ch_registered ch"
  "ch_loaded (move_job j ph ch) = ch_loaded ch"
  "ch_jobs (move_job j ph ch) = add_mset (fst j, ph) (ch_jobs ch - {#j#})"
  by (simp_all add: move_job_def)

lemma references_take_job: "j \<in># ch_jobs ch \<Longrightarrow>
    references ch = Suc ((if ch_loaded ch then 1 else 0) + size (ch_jobs ch - {#j#}))"
  using insert_DiffM [of j "ch_jobs ch"] size_add_mset [of j "ch_jobs ch - {#j#}"] by (simp add: references_def)

lemma references_move_job: "j \<in># ch_jobs ch \<Longrightarrow> references (move_job j ph ch) = references ch"
  using references_take_job [of j ch] by (simp add: references_def)

lemma life_move_job:
  assumes "life_inv L this q a l ch" and "j \<in># ch_jobs ch"
  shows "life_inv L this q a l (move_job j ph ch)"
proof -
  have "\<forall>k \<in># ch_jobs (move_job j ph ch). fst k = this"
    using assms by (auto simp: life_inv_def dest: in_diffD)
  then show ?thesis using assms(1) by (simp add: life_inv_def references_move_job [OF assms(2)] del: move_job_simps(6))
qed

lemma life_live:
  assumes "life_inv L this q a l ch" and "references ch > 0"
  shows "plugin_live L (ch_heap ch) this (int (references ch)) q a l"
  using assms by (simp add: life_inv_def)

lemma job_references: "j \<in># ch_jobs ch \<Longrightarrow> references ch > 0"
  by (simp add: references_take_job)

lemma job_context: "life_inv L this q a l ch \<Longrightarrow> (t, ph) \<in># ch_jobs ch \<Longrightarrow> t = this"
  by (fastforce simp: life_inv_def)

lemma loaded_references: "ch_loaded ch \<Longrightarrow> references ch > 0"
  by (simp add: references_def)

text \<open>Whoever calls a provider or a listener calls that of a live plugin.\<close>

lemma life_registered:
  assumes inv: "life_inv L this q a l ch" and call: "b \<in> ch_providers ch \<or> k \<in> ch_listeners ch"
  shows "references ch > 0" and "b \<in> ch_providers ch \<Longrightarrow> b = a" and "k \<in> ch_listeners ch \<Longrightarrow> k = l"
  using assms by (auto simp: life_inv_def references_def split: if_splits)

lemma life_provider:
  assumes inv: "life_inv L this q a l ch" and call: "b \<in> ch_providers ch"
  shows "b = a" and "plugin_live L (ch_heap ch) this (int (references ch)) q a l" and "references ch > 0"
  using life_registered [OF inv, of b] life_live [OF inv] call by simp_all

lemma job_plugin:
  assumes inv: "life_inv L this q a l ch" and job: "(t, ph) \<in># ch_jobs ch"
  obtains p where "t = this" "hp_plugin (ch_heap ch) this = Some p"
  using job_context [OF inv job] live_parts [OF life_live [OF inv job_references [OF job]]] by metis

lemma plugin_cb_life:
  assumes inv: "life_inv L this q a l ch" and loaded: "ch_loaded ch" and reg: "reg \<longleftrightarrow> \<not> ch_registered ch"
  shows "\<exists>ch'. plugin_cb L job_ok ch this reg = Inr (True, ch') \<and> life_inv L this q a l (ch'\<lparr>ch_registered := reg\<rparr>)"
proof -
  let ?n = "int (references ch)"
  have live: "plugin_live L (ch_heap ch) this ?n q a l" using life_live [OF inv loaded_references [OF loaded]] .
  obtain p where p: "hp_plugin (ch_heap ch) this = Some p" "pl_allocator p = Some a" "pl_listener p = Some l"
    by (rule live_parts [OF live])
  show ?thesis
  proof (cases reg)
    case True
    then have out: "ch_providers ch = {}" "ch_listeners ch = {}" using inv reg by (simp_all add: life_inv_def)
    obtain h1 where h1: "plugin_ref (ch_heap ch) this = Inr h1" "plugin_live L h1 this (?n + 1) q a l"
      using plugin_ref_live [OF live] by blast
    obtain h2 where h2: "plugin_unref L h1 this = Inr h2" "plugin_live L h2 this ?n q a l"
      using plugin_unref_live [OF h1(2)] loaded_references [OF loaded] by auto
    let ?ch1 = "ch\<lparr>ch_heap := h1, ch_providers := {a}, ch_listeners := {l}, ch_jobs := add_mset (this, Queued) (ch_jobs ch)\<rparr>"
    let ?ch2 = "ch\<lparr>ch_heap := h2, ch_providers := {a}, ch_listeners := {l}\<rparr>"
    have "plugin_cb L job_ok ch this True = Inr (True, if job_ok then ?ch1 else ?ch2)"
      using p h1(1) h2(1) out by (simp add: plugin_cb_def store_simps Let_def)
    moreover have "references (?ch1\<lparr>ch_registered := True\<rparr>) = Suc (references ch)" by (simp add: references_def)
    then have "life_inv L this q a l (?ch1\<lparr>ch_registered := True\<rparr>)"
      using inv loaded h1(2) by (simp add: life_inv_def add.commute)
    moreover have "life_inv L this q a l (?ch2\<lparr>ch_registered := True\<rparr>)"
      using inv loaded h2(2) loaded_references [OF loaded] by (simp add: life_inv_def)
    ultimately show ?thesis using True by auto
  next
    case False
    let ?h = "ch_heap ch\<lparr>hp_plugin := (hp_plugin (ch_heap ch))(this \<mapsto> p\<lparr>pl_terminating := True\<rparr>)\<rparr>"
    have "plugin_live L ?h this ?n q a l" using live p by (auto simp: plugin_live_def)
    moreover have "ch_providers ch = {a}" "ch_listeners ch = {l}" using inv False reg by (simp_all add: life_inv_def)
    ultimately show ?thesis
      using inv p False loaded_references [OF loaded]
      by (auto simp: plugin_cb_def upd_plugin_def store_simps life_inv_def)
  qed
qed

lemma plugin_destroy_life:
  assumes inv: "life_inv L this q a l ch" and loaded: "ch_loaded ch" and out: "\<not> ch_registered ch"
  shows "\<exists>h'. plugin_destroy L (ch_heap ch) this = Inr h' \<and>
    life_inv L this q a l (ch\<lparr>ch_heap := h', ch_loaded := False\<rparr>)"
proof -
  have n: "references ch = Suc (size (ch_jobs ch))" using loaded by (simp add: references_def)
  have "plugin_live L (ch_heap ch) this (int (references ch)) q a l" using life_live [OF inv loaded_references [OF loaded]] .
  from plugin_unref_count [OF this [unfolded n]] obtain h' where "plugin_unref L (ch_heap ch) this = Inr h'"
      "if size (ch_jobs ch) = 0 then plugin_freed h' this q a l else plugin_live L h' this (int (size (ch_jobs ch))) q a l"
    by blast
  then show ?thesis
    using inv out by (auto simp: plugin_destroy_def life_inv_def references_def split: if_splits)
qed

lemma job_cleanup_life:
  assumes inv: "life_inv L this q a l ch" and job: "(this, Ending) \<in># ch_jobs ch"
  shows "\<exists>h'. sweep_cleanup L (ch_heap ch) this = Inr h' \<and>
    life_inv L this q a l (ch\<lparr>ch_heap := h', ch_jobs := ch_jobs ch - {#(this, Ending)#}\<rparr>)"
proof -
  let ?ch = "ch\<lparr>ch_jobs := ch_jobs ch - {#(this, Ending)#}\<rparr>"
  have n: "references ch = Suc (references ?ch)" using references_take_job [OF job] by (simp add: references_def)
  have "plugin_live L (ch_heap ch) this (int (references ch)) q a l" using life_live [OF inv job_references [OF job]] .
  from plugin_unref_count [OF this [unfolded n]] obtain h' where h': "plugin_unref L (ch_heap ch) this = Inr h'"
      "if references ?ch = 0 then plugin_freed h' this q a l else plugin_live L h' this (int (references ?ch)) q a l"
    by blast
  have "references (ch\<lparr>ch_heap := h', ch_jobs := ch_jobs ch - {#(this, Ending)#}\<rparr>) = references ?ch"
    by (simp add: references_def)
  then show ?thesis
    using inv h' by (auto simp: sweep_cleanup_def life_inv_def dest: in_diffD)
qed

lemma charon_step_life:
  assumes L: "strongswan_ok L" and inv: "life_inv L this q a l ch" and step: "charon_step L this ch r"
  shows "\<exists>ch'. r = Inr ch' \<and> life_inv L this q a l ch'"
  using step
proof cases
  case (register job_ok)
  then show ?thesis using plugin_cb_life [OF inv, of True job_ok] by auto
next
  case (unregister job_ok)
  then show ?thesis using plugin_cb_life [OF inv, of False job_ok] by auto
next
  case (reload files ok r')
  note n = loaded_references [OF reload(2)]
  show ?thesis using plugin_reload_live [OF L life_live [OF inv n] reload(3)] life_new_heap [OF inv n] reload(1) by auto
next
  case destroy
  then show ?thesis using plugin_destroy_life [OF inv] by auto
next
  case (acquire b m now pools sa requested)
  note b = life_provider [OF inv acquire(2)]
  show ?thesis
    using call_acquire_live [OF b(2) acquire(3), of now pools sa requested] life_new_heap [OF inv b(3)] acquire(1)
    by (auto simp: b(1))
next
  case (release b pools addr sa)
  note b = life_provider [OF inv release(2)]
  show ?thesis
    using call_release_live [OF b(2), of pools addr sa] life_new_heap [OF inv b(3)] release(1)
    by (auto simp: b(1))
next
  case (updown k sa up)
  have k: "k = l" and n: "references ch > 0" using life_registered [OF inv] updown(2) by blast+
  show ?thesis
    using call_updown_live [OF life_live [OF inv n], of sa up] life_new_heap [OF inv n] updown(1) by (auto simp: k)
next
  case (job_enter t)
  from job_plugin [OF inv job_enter(2)] obtain p where t: "t = this" and "hp_plugin (ch_heap ch) this = Some p" .
  then show ?thesis using job_enter life_move_job [OF inv] by (auto simp: t sweep_check_def store_simps)
next
  case (job_sweep t alive now)
  have t: "t = this" and n: "references ch > 0" using job_context [OF inv] job_references job_sweep(2) by blast+
  obtain h where h: "sweep_locked L alive now (ch_heap ch) this = Inr h" "life_inv L this q a l (ch\<lparr>ch_heap := h\<rparr>)"
    using sweep_locked_live [OF life_live [OF inv n]] life_new_heap [OF inv n] by blast
  then show ?thesis using job_sweep life_move_job [OF h(2)] by (auto simp: t)
next
  case (job_leave t)
  from job_plugin [OF inv job_leave(2)] obtain p where t: "t = this" and "hp_plugin (ch_heap ch) this = Some p" .
  then show ?thesis using job_leave life_move_job [OF inv] by (auto simp: t sweep_requeue_def store_simps)
next
  case (job_cancel t)
  from job_plugin [OF inv job_cancel(2)] obtain p where t: "t = this" and "hp_plugin (ch_heap ch) this = Some p" .
  then show ?thesis using job_cancel life_move_job [OF inv] by (auto simp: t sweep_cancel_def store_simps)
next
  case (job_cleanup t)
  have t: "t = this" using job_context [OF inv job_cleanup(2)] .
  then show ?thesis using job_cleanup job_cleanup_life [OF inv] by auto
qed

lemma charon_reach_life:
  assumes "charon_reach L this ch r" and "strongswan_ok L" and "life_inv L this q a l ch"
  shows "\<exists>ch'. r = Inr ch' \<and> life_inv L this q a l ch'"
  using assms(1)
proof (induction rule: charon_reach.induct)
  case (step ch' r)
  then show ?case using charon_step_life [OF assms(2)] by blast
qed (simp add: assms(3))

end
