(* ===== verification/Plugin_Properties.thy ===== *)
theory Plugin_Properties
  imports Plugin_Life
begin

text \<open>
  The properties of the plugin as a whole: its construction fails fast and cleanly, nothing it owns is
  used after it was freed in any life charon can give it, its sweep job ends after it was unregistered,
  an unloaded plugin is freed when its jobs are through, and what a reload does to the leases.
\<close>

section \<open>Construction\<close>

definition heap_ok :: "('u, 's, 'f) heap \<Rightarrow> bool" where
  "heap_ok h \<longleftrightarrow> (\<forall>x \<ge> hp_next h. hp_plugin h x = None \<and> hp_policy h x = None \<and> hp_alloc h x = None \<and> hp_listener h x = None)"

definition same_objects :: "('u, 's, 'f) heap \<Rightarrow> ('u, 's, 'f) heap \<Rightarrow> bool" where
  "same_objects h h' \<longleftrightarrow> hp_plugin h' = hp_plugin h \<and> hp_policy h' = hp_policy h \<and> hp_alloc h' = hp_alloc h \<and>
     hp_listener h' = hp_listener h"

definition start_charon :: "('u, 's, 'f) heap \<Rightarrow> ('u, 's, 'f) charon" where
  "start_charon h = \<lparr>ch_heap = h, ch_providers = {}, ch_listeners = {}, ch_jobs = {#}, ch_loaded = True, ch_registered = False\<rparr>"

lemma pe_get_pool_total: "pe_inv L pe \<Longrightarrow> \<exists>r. pe_get_pool pe s e = Inr r"
  by (auto simp: pe_inv_def pe_get_pool_def store_simps split: option.split)

lemma engine_create_inv:
  assumes "strongswan_ok L" and "policy_engine_create L files ok1 ok2 path = Some (Some pe)"
  shows "pe_inv L pe"
proof -
  obtain f sn where "snapshot_load L files ok1 f = Some (Some sn)"
      "pe = \<lparr>pe_store = [0 \<mapsto> sn], pe_next = 1, pe_active = Some 0, pe_path = f\<rparr>"
    using assms(2) by (cases path; cases ok2) (auto simp: policy_engine_create_def split: option.splits)
  then show ?thesis using snapshot_load_inv [OF assms(1)] by (auto simp: pe_inv_def)
qed

lemma ip_allocator_create_total:
  assumes L: "strongswan_ok L" and pe: "pe_inv L pe"
  shows "\<exists>al. ip_allocator_create L ok1 ok2 (Some pe) name t = Inr (if ok1 then Some al else None) \<and>
    sm_inv L (al_sessions al)"
proof -
  obtain c s e where "pe_get_pool pe None None = Inr (c, s, e)"
    using pe_get_pool_total [OF pe] by (metis prod_cases3)
  then show ?thesis
    using create_effect(1) [OF L]
    by (intro exI [of _ "\<lparr>al_dyn = (if c then dynamic_pool_create ok2 s e else None), al_sessions = session_manager_create L,
        al_pool_name = (case name of None \<Rightarrow> ''cupp'' | Some n \<Rightarrow> n), al_lease_timeout = (if t \<noteq> 0 then t else 3600)\<rparr>"])
      (simp add: ip_allocator_create_def)
qed

lemma engine_destroy_ok: "pe_inv L pe \<Longrightarrow> \<exists>pe'. policy_engine_destroy pe = Inr pe'"
  by (auto simp: policy_engine_destroy_def snapshot_destroy_def pe_inv_def store_simps)

lemma create_with_policy_effect:
  assumes L: "strongswan_ok L" and pe: "pe_inv L pe" and h: "heap_ok h"
    and p: "pl_policy p = None" "pl_allocator p = None" "pl_listener p = None"
  shows "\<exists>res h'. create_with_policy L m p pe
        (h\<lparr>hp_plugin := (hp_plugin h)(hp_next h \<mapsto> p), hp_next := Suc (hp_next h)\<rparr>) (hp_next h) = Inr (res, h') \<and>
    (if ok_allocator m \<and> ok_listener m
     then res = Some (hp_next h) \<and>
       (\<exists>q a l al. hp_plugin h' (hp_next h) = Some (p\<lparr>pl_policy := Some q, pl_allocator := Some a, pl_listener := Some l\<rparr>) \<and>
         hp_policy h' q = Some pe \<and> hp_alloc h' a = Some al \<and> hp_engine_of h' a = Some q \<and>
         ip_allocator_create L True (ok_bitmap m) (Some pe) (Some (pl_pool_name p)) (pl_lease_timeout p) = Inr (Some al) \<and>
         hp_listener h' l = Some \<lparr>el_allocator = a\<rparr>)
     else res = None \<and> same_objects h h')"
proof -
  let ?n = "hp_next h"
  have free: "hp_plugin h ?n = None" "hp_policy h (Suc ?n) = None" "hp_alloc h (Suc (Suc ?n)) = None"
    using h by (simp_all add: heap_ok_def)
  obtain al where al: "ip_allocator_create L (ok_allocator m) (ok_bitmap m) (Some pe) (Some (pl_pool_name p)) (pl_lease_timeout p) =
      Inr (if ok_allocator m then Some al else None)" "sm_inv L (al_sessions al)"
    using ip_allocator_create_total [OF L pe] by blast
  obtain sm where sm: "session_manager_destroy L (al_sessions al) = Inr sm" using destroy_effect [OF al(2)] by blast
  obtain pe' where pe': "policy_engine_destroy pe = Inr pe'" using engine_destroy_ok [OF pe] by blast
  show ?thesis
  proof (cases "ok_allocator m \<and> ok_listener m")
    case True
    let ?p = "p\<lparr>pl_policy := Some (Suc ?n), pl_allocator := Some (Suc (Suc ?n)), pl_listener := Some (Suc (Suc (Suc ?n)))\<rparr>"
    let ?h = "h\<lparr>hp_plugin := (hp_plugin h)(?n \<mapsto> ?p), hp_policy := (hp_policy h)(Suc ?n \<mapsto> pe),
      hp_alloc := (hp_alloc h)(Suc (Suc ?n) \<mapsto> al), hp_engine_of := (hp_engine_of h)(Suc (Suc ?n) \<mapsto> Suc ?n),
      hp_listener := (hp_listener h)(Suc (Suc (Suc ?n)) \<mapsto> \<lparr>el_allocator = Suc (Suc ?n)\<rparr>), hp_next := Suc (Suc (Suc (Suc ?n)))\<rparr>"
    have "create_with_policy L m p pe (h\<lparr>hp_plugin := (hp_plugin h)(?n \<mapsto> p), hp_next := Suc ?n\<rparr>) ?n = Inr (Some ?n, ?h)"
      using True al(1) by (simp add: create_with_policy_def event_listener_create_def Let_def)
    moreover have "hp_plugin ?h ?n = Some ?p \<and> hp_policy ?h (Suc ?n) = Some pe \<and> hp_alloc ?h (Suc (Suc ?n)) = Some al \<and>
        hp_engine_of ?h (Suc (Suc ?n)) = Some (Suc ?n) \<and>
        ip_allocator_create L True (ok_bitmap m) (Some pe) (Some (pl_pool_name p)) (pl_lease_timeout p) = Inr (Some al) \<and>
        hp_listener ?h (Suc (Suc (Suc ?n))) = Some \<lparr>el_allocator = Suc (Suc ?n)\<rparr>"
      using True al(1) by simp
    ultimately show ?thesis unfolding if_P [OF True] by blast
  next
    case False
    then show ?thesis
      using al(1) sm pe' p free
      by (cases "ok_allocator m")
        (auto simp: create_with_policy_def event_listener_create_def Let_def abort_load_def plugin_destroy_internal_def
          event_listener_destroy_def ip_allocator_destroy_def store_simps same_objects_def fun_upd_idem)
  qed
qed

lemma init_plugin_simps [simp]:
  "pl_policy (init_plugin st) = None" "pl_allocator (init_plugin st) = None" "pl_listener (init_plugin st) = None"
  "pl_refcnt (init_plugin st) = 1" "pl_terminating (init_plugin st) = False"
  by (simp_all add: init_plugin_def)

lemma plugin_create_effect:
  assumes L: "strongswan_ok L" and h: "heap_ok h"
    and policy: "policy_engine_create L files (ok_snapshot m) (ok_engine m) (Some (pl_policy_path (init_plugin st))) = Some policy"
  shows "\<exists>res h'. user_policy_plugin_create L files st m h = Some (Inr (res, h')) \<and>
    (if policy \<noteq> None \<and> ok_allocator m \<and> ok_listener m
     then res = Some (hp_next h) \<and>
       (\<exists>q a l al. hp_plugin h' (hp_next h) =
           Some ((init_plugin st)\<lparr>pl_policy := Some q, pl_allocator := Some a, pl_listener := Some l\<rparr>) \<and>
         hp_policy h' q = policy \<and> hp_alloc h' a = Some al \<and> hp_engine_of h' a = Some q \<and>
         ip_allocator_create L True (ok_bitmap m) policy (Some (pl_pool_name (init_plugin st))) (pl_lease_timeout (init_plugin st))
           = Inr (Some al) \<and>
         hp_listener h' l = Some \<lparr>el_allocator = a\<rparr>)
     else res = None \<and> same_objects h h')"
proof (cases policy)
  case None
  have "hp_plugin h (hp_next h) = None" using h by (simp add: heap_ok_def)
  then show ?thesis using None policy
    by (auto simp: user_policy_plugin_create_def Let_def abort_load_def plugin_destroy_internal_def
        event_listener_destroy_def store_simps same_objects_def fun_upd_idem)
next
  case (Some pe)
  have "pe_inv L pe" using engine_create_inv [OF L] policy Some by blast
  note created = create_with_policy_effect [OF L this h init_plugin_simps(1,2,3), of m st]
  have "user_policy_plugin_create L files st m h = Some (create_with_policy L m (init_plugin st) pe
      (h\<lparr>hp_plugin := (hp_plugin h)(hp_next h \<mapsto> init_plugin st), hp_next := Suc (hp_next h)\<rparr>) (hp_next h))"
    using policy Some by (simp add: user_policy_plugin_create_def Let_def)
  then show ?thesis using created Some by (simp only: option.inject) auto
qed

text \<open>The range of the pool is one the bitmap of the allocator can hold.\<close>

definition pool_fits :: "('u, 's, 'f) heap \<Rightarrow> nat \<Rightarrow> bool" where
  "pool_fits h this \<longleftrightarrow>
     (\<forall>p a al d. hp_plugin h this = Some p \<longrightarrow> pl_allocator p = Some a \<longrightarrow> hp_alloc h a = Some al \<longrightarrow>
        al_dyn al = Some d \<longrightarrow> dp_fits d)"

lemma created_life:
  assumes L: "strongswan_ok L" and h: "heap_ok h"
    and create: "user_policy_plugin_create L files st m h = Some (Inr (Some this, h'))"
    and fits: "pool_fits h' this"
  obtains p q a l where "hp_plugin h' this = Some p" "pl_policy p = Some q" "pl_allocator p = Some a" "pl_listener p = Some l"
    "life_inv L this q a l (start_charon h')" "pl_terminating p = False"
proof -
  obtain policy where policy: "policy_engine_create L files (ok_snapshot m) (ok_engine m) (Some (pl_policy_path (init_plugin st))) = Some policy"
    using create by (auto simp: user_policy_plugin_create_def Let_def)
  obtain pe where pe: "policy = Some pe" "this = hp_next h" "ok_allocator m \<and> ok_listener m"
    using plugin_create_effect [OF L h policy] create by (auto split: if_splits)
  obtain q a l al where w: "hp_plugin h' this = Some ((init_plugin st)\<lparr>pl_policy := Some q, pl_allocator := Some a, pl_listener := Some l\<rparr>)"
      "hp_policy h' q = Some pe" "hp_alloc h' a = Some al" "hp_engine_of h' a = Some q"
      "ip_allocator_create L True (ok_bitmap m) (Some pe) (Some (pl_pool_name (init_plugin st))) (pl_lease_timeout (init_plugin st)) = Inr (Some al)"
      "hp_listener h' l = Some \<lparr>el_allocator = a\<rparr>"
    using plugin_create_effect [OF L h policy] create pe by auto
  have "pe_inv L pe" using engine_create_inv [OF L] policy pe(1) by blast
  moreover from this have "al_inv L al" using create_inv(1) [OF L _ w(5)] fits w(1,3) by (simp add: pool_fits_def)
  ultimately have "life_inv L this q a l (start_charon h')"
    using w by (simp add: life_inv_def start_charon_def references_def plugin_live_def)
  then show thesis using that w(1) by simp
qed

section \<open>Stopping\<close>

text \<open>The plugin is gone or has been told to stop.\<close>

definition stopping :: "('u, 's, 'f) heap \<Rightarrow> nat \<Rightarrow> bool" where
  "stopping h this \<longleftrightarrow> (\<forall>p. hp_plugin h this = Some p \<longrightarrow> pl_terminating p)"

lemma destroy_internal_plugins:
  "plugin_destroy_internal L h this = Inr h' \<Longrightarrow> hp_plugin h' = (hp_plugin h)(this := None)"
  by (auto simp: plugin_destroy_internal_def res_iff)

lemma plugin_unref_stopping: "plugin_unref L h this = Inr h' \<Longrightarrow> stopping h this \<Longrightarrow> stopping h' this"
  by (auto simp: plugin_unref_def upd_plugin_def res_iff stopping_def dest!: destroy_internal_plugins split: if_splits)

lemma plugin_ref_stopping: "plugin_ref h this = Inr h' \<Longrightarrow> stopping h this \<Longrightarrow> stopping h' this"
  by (auto simp: plugin_ref_def upd_plugin_def res_iff stopping_def)

lemma plugin_cb_stopping:
  assumes "plugin_cb L job_ok ch this reg = Inr (b, ch')" and "\<not> reg \<or> stopping (ch_heap ch) this"
  shows "stopping (ch_heap ch') this"
proof (cases reg)
  case True
  then show ?thesis
    using assms
    by (auto simp: plugin_cb_def res_iff Let_def split: if_splits intro: plugin_ref_stopping plugin_unref_stopping)
next
  case False
  then show ?thesis using assms(1) by (auto simp: plugin_cb_def upd_plugin_def res_iff stopping_def)
qed

lemma calls_keep_plugins:
  "call_acquire L m now pools sa requested h a = Inr (r, h') \<Longrightarrow> hp_plugin h' = hp_plugin h"
  "call_release L pools addr sa h a = Inr (b, h') \<Longrightarrow> hp_plugin h' = hp_plugin h"
  "call_updown L sa up h l = Inr h' \<Longrightarrow> hp_plugin h' = hp_plugin h"
  "sweep_locked L alive now h this = Inr h' \<Longrightarrow> hp_plugin h' = hp_plugin h"
  "plugin_reload L files ok h this = Some (Inr (b, h')) \<Longrightarrow> hp_plugin h' = hp_plugin h"
  by (auto simp: call_acquire_def call_release_def call_updown_def sweep_locked_def plugin_reload_def res_iff
      split: option.splits if_splits sum.splits)

text \<open>A job exists only while the feature is registered, or to be ended.\<close>

definition quiet :: "nat \<Rightarrow> ('u, 's, 'f) charon \<Rightarrow> bool" where
  "quiet this ch \<longleftrightarrow> ch_registered ch \<or> stopping (ch_heap ch) this \<or> ch_jobs ch = {#}"

lemma step_stopping:
  assumes inv: "life_inv L this q a l ch" and step: "charon_step L this ch r" and r: "r = Inr ch'"
    and stop: "stopping (ch_heap ch) this"
  shows "stopping (ch_heap ch') this"
  using step
proof cases
  case (register job_ok)
  then show ?thesis using r plugin_cb_stopping [of L job_ok ch this True] stop by (auto simp: res_iff)
next
  case (unregister job_ok)
  then show ?thesis using r plugin_cb_stopping [of L job_ok ch this False] by (auto simp: res_iff)
next
  case (job_cleanup t)
  have "stopping h' this" if "sweep_cleanup L (ch_heap ch) t = Inr h'" for h'
    using that plugin_unref_stopping stop job_context [OF inv job_cleanup(2)] by (simp add: sweep_cleanup_def)
  then show ?thesis using r job_cleanup(1) by (auto simp: res_iff)
next
  case destroy
  have "stopping h' this" if "plugin_destroy L (ch_heap ch) this = Inr h'" for h'
    using that plugin_unref_stopping stop by (simp add: plugin_destroy_def)
  then show ?thesis using r destroy(1) by (auto simp: res_iff)
next
  case (reload files ok r')
  obtain b h' where h': "r' = Inr (b, h')" "ch' = ch\<lparr>ch_heap := h'\<rparr>" using reload(1) r by (cases r') auto
  have "hp_plugin h' = hp_plugin (ch_heap ch)" using reload(3) h'(1) calls_keep_plugins(5) by blast
  then show ?thesis using stop h'(2) by (simp add: stopping_def)
next
  case acquire
  then show ?thesis using r stop by (auto simp: res_iff stopping_def dest: calls_keep_plugins(1))
next
  case release
  then show ?thesis using r stop by (auto simp: res_iff stopping_def dest: calls_keep_plugins(2))
next
  case updown
  then show ?thesis using r stop by (auto simp: res_iff stopping_def dest: calls_keep_plugins(3))
next
  case job_sweep
  then show ?thesis using r stop by (auto simp: res_iff stopping_def dest: calls_keep_plugins(4))
qed (use r stop in \<open>auto simp: res_iff\<close>)

lemma quiet_step:
  assumes inv: "life_inv L this q a l ch" and step: "charon_step L this ch r" and r: "r = Inr ch'" and q: "quiet this ch"
  shows "quiet this ch'"
proof (cases "stopping (ch_heap ch) this")
  case True
  then show ?thesis using step_stopping [OF inv step r] by (simp add: quiet_def)
next
  case False
  then have reg: "ch_registered ch \<or> ch_jobs ch = {#}" using q by (simp add: quiet_def)
  show ?thesis using step
  proof cases
    case (register job_ok)
    then show ?thesis using r by (auto simp: res_iff quiet_def)
  next
    case (unregister job_ok)
    then show ?thesis using r plugin_cb_stopping [of L job_ok ch this False] by (auto simp: res_iff quiet_def)
  next
    case (reload files ok r')
    then obtain b h' where "ch' = ch\<lparr>ch_heap := h'\<rparr>" using r by (cases r') auto
    then show ?thesis using reg by (auto simp: quiet_def)
  qed (use r reg in \<open>auto simp: res_iff quiet_def\<close>)
qed

lemma reach_quiet:
  assumes "charon_reach L this ch r" and "strongswan_ok L" and "life_inv L this q a l ch" and "quiet this ch"
  shows "\<exists>ch'. r = Inr ch' \<and> life_inv L this q a l ch' \<and> quiet this ch'"
  using assms(1)
proof (induction rule: charon_reach.induct)
  case (step ch' r)
  then have inv: "life_inv L this q a l ch'" "quiet this ch'" by auto
  then obtain ch'' where "r = Inr ch''" "life_inv L this q a l ch''"
    using charon_step_life [OF assms(2) inv(1) step.hyps(2)] by blast
  then show ?case using quiet_step [OF inv(1) step.hyps(2) _ inv(2)] by blast
qed (simp add: assms(3,4))

lemma start_quiet: "quiet this (start_charon h)"
  by (simp add: quiet_def start_charon_def)

text \<open>The work left for the jobs of a stopping plugin.\<close>

fun phase_work :: "job_phase \<Rightarrow> nat" where
  "phase_work Ending = 1"
| "phase_work Queued = 2"
| "phase_work Swept = 2"
| "phase_work Entered = 3"

definition job_work :: "('u, 's, 'f) charon \<Rightarrow> nat" where
  "job_work ch = (\<Sum>j \<in># ch_jobs ch. phase_work (snd j))"

lemma job_work_take: "j \<in># ch_jobs ch \<Longrightarrow> job_work ch = phase_work (snd j) + (\<Sum>k \<in># ch_jobs ch - {#j#}. phase_work (snd k))"
  unfolding job_work_def by (metis (no_types, lifting) insert_DiffM sum_mset.insert image_mset_add_mset)

lemma job_work_move:
  "j \<in># ch_jobs ch \<Longrightarrow> phase_work ph < phase_work (snd j) \<Longrightarrow> job_work (move_job j ph ch) < job_work ch"
  by (simp add: job_work_take) (simp add: job_work_def)

lemma job_work_heap [simp]: "job_work (ch\<lparr>ch_heap := h\<rparr>) = job_work ch"
  by (simp add: job_work_def)

lemma move_job_heap [simp]: "move_job j ph (ch\<lparr>ch_heap := h\<rparr>) = (move_job j ph ch)\<lparr>ch_heap := h\<rparr>"
  by (simp add: move_job_def)

lemma unloaded_step:
  assumes inv: "life_inv L this q a l ch" and out: "\<not> ch_loaded ch" and stop: "stopping (ch_heap ch) this"
    and step: "charon_step L this ch r" and r: "r = Inr ch'"
  shows "\<not> ch_loaded ch' \<and> job_work ch' < job_work ch"
proof -
  have gone: "\<not> ch_registered ch" "ch_providers ch = {}" "ch_listeners ch = {}"
    using inv out by (auto simp: life_inv_def)
  have told: "pl_terminating p" if "hp_plugin (ch_heap ch) t = Some p" "(t, ph) \<in># ch_jobs ch" for t ph p
    using that stop job_context [OF inv that(2)] by (simp add: stopping_def)
  show ?thesis using step
  proof cases
    case (job_cleanup t)
    then obtain h' where "ch' = ch\<lparr>ch_heap := h', ch_jobs := ch_jobs ch - {#(t, Ending)#}\<rparr>" using r by (auto simp: res_iff)
    then show ?thesis using job_work_take [OF job_cleanup(2)] out by (simp add: job_work_def)
  next
    case (job_enter t)
    then show ?thesis using r out told job_work_move [OF job_enter(2)] by (auto simp: res_iff sweep_check_def)
  next
    case (job_sweep t)
    then show ?thesis using r out job_work_move [OF job_sweep(2)] by (auto simp: res_iff)
  next
    case (job_leave t)
    then show ?thesis using r out told job_work_move [OF job_leave(2)] by (auto simp: res_iff sweep_requeue_def)
  next
    case (job_cancel t)
    then show ?thesis using r out told job_work_move [OF job_cancel(2)] by (auto simp: res_iff sweep_cancel_def)
  qed (use out gone in auto)
qed

lemma job_can_step: "j \<in># ch_jobs ch \<Longrightarrow> \<exists>r. charon_step L this ch r"
  by (cases j; cases "snd j") (auto intro: charon_step.intros)

section \<open>A concrete plugin\<close>

definition demo_settings :: settings where
  "demo_settings = \<lparr>st_ns = ''charon'', st_get_str = (\<lambda>key def. if def = ''cupp'' then def else ''p''),
     st_get_int = (\<lambda>key def. def)\<rparr>"

definition demo_plugin_memory :: plugin_memory where
  "demo_plugin_memory = \<lparr>ok_snapshot = True, ok_engine = True, ok_allocator = True, ok_bitmap = True, ok_listener = True\<rparr>"

definition demo_heap :: "((u64, nat) atable, (string, nat) atable, (string, host) atable) heap" where
  "demo_heap = \<lparr>hp_plugin = Map.empty, hp_policy = Map.empty, hp_alloc = Map.empty, hp_engine_of = Map.empty,
     hp_listener = Map.empty, hp_next = 0\<rparr>"

lemma demo_heap_ok: "heap_ok demo_heap"
  by (simp add: heap_ok_def demo_heap_def)

lemma demo_init: "init_plugin demo_settings =
    \<lparr>pl_refcnt = 1, pl_terminating = False, pl_policy = None, pl_allocator = None, pl_listener = None,
     pl_policy_path = ''p'', pl_pool_name = ''cupp'', pl_lease_timeout = 3600, pl_sweep_interval = 60\<rparr>"
  by (simp add: init_plugin_def demo_settings_def settings_get_str_def settings_get_int_def)

lemma demo_policy: "policy_engine_create demo_lib (demo_files ''vip'') True True (Some ''p'') = Some (Some demo_engine)"
  by (simp add: policy_engine_create_def demo_files_load demo_engine_def)

lemma demo_allocator: "ip_allocator_create demo_lib True True (Some demo_engine) (Some ''cupp'') 3600 = Inr (Some demo_al)"
  using demo_al_created by (simp add: ip_allocator_create_def)

lemma demo_created:
  obtains h' p a where "user_policy_plugin_create demo_lib (demo_files ''vip'') demo_settings demo_plugin_memory demo_heap = Some (Inr (Some 0, h'))"
    "hp_plugin h' 0 = Some p" "pl_allocator p = Some a" "hp_alloc h' a = Some demo_al" "pl_sweep_interval p = 60"
    "pool_fits h' 0"
proof -
  have "policy_engine_create demo_lib (demo_files ''vip'') (ok_snapshot demo_plugin_memory) (ok_engine demo_plugin_memory)
      (Some (pl_policy_path (init_plugin demo_settings))) = Some (Some demo_engine)"
    by (simp add: demo_init demo_plugin_memory_def demo_policy)
  from plugin_create_effect [OF demo_lib_ok demo_heap_ok this]
  obtain h' q a l where h': "user_policy_plugin_create demo_lib (demo_files ''vip'') demo_settings demo_plugin_memory demo_heap = Some (Inr (Some 0, h'))"
    "hp_plugin h' 0 = Some ((init_plugin demo_settings)\<lparr>pl_policy := Some q, pl_allocator := Some a, pl_listener := Some l\<rparr>)"
    "hp_alloc h' a = Some demo_al"
    by (auto simp: demo_init demo_plugin_memory_def demo_allocator demo_heap_def)
  show thesis by (rule that [OF h'(1,2) _ h'(3)]) (use h'(2,3) demo_dyn_fits in \<open>auto simp: demo_init pool_fits_def\<close>)
qed

text \<open>Register it, with a job; unregister it; unload it: the job is left.\<close>

lemma plugin_cb_fields:
  assumes "plugin_cb L True ch this reg = Inr (b, ch')"
  shows "ch_loaded ch' = ch_loaded ch" "ch_jobs ch' = (if reg then add_mset (this, Queued) (ch_jobs ch) else ch_jobs ch)"
  using assms by (cases reg; auto simp: plugin_cb_def res_iff Let_def)+

lemma registering_run:
  assumes inv: "life_inv L this q a l (start_charon h)"
  obtains ch where "charon_reach L this (start_charon h) (Inr ch)" "life_inv L this q a l ch" "ch_loaded ch" "ch_registered ch"
    "ch_jobs ch = {#(this, Queued)#}"
proof -
  let ?s = "start_charon h"
  have s: "ch_loaded ?s" "\<not> ch_registered ?s" "ch_jobs ?s = {#}" by (simp_all add: start_charon_def)
  obtain c1 where c1: "plugin_cb L True ?s this True = Inr (True, c1)" "life_inv L this q a l (c1\<lparr>ch_registered := True\<rparr>)"
    using plugin_cb_life [OF inv s(1), of True True] s(2) by auto
  have "charon_reach L this ?s (Inr (c1\<lparr>ch_registered := True\<rparr>))"
    using charon_reach.step [OF charon_reach.start charon_step.register [OF s(1,2), of L this True]] c1(1) by simp
  then show thesis by (rule that [OF _ c1(2)]) (use plugin_cb_fields [OF c1(1)] s in simp_all)
qed

lemma unloading_run:
  assumes inv: "life_inv L this q a l (start_charon h)"
  obtains ch where "charon_reach L this (start_charon h) (Inr ch)" "\<not> ch_loaded ch" "ch_jobs ch = {#(this, Queued)#}"
proof -
  obtain c1 where c1: "charon_reach L this (start_charon h) (Inr c1)" "life_inv L this q a l c1" "ch_loaded c1" "ch_registered c1"
    "ch_jobs c1 = {#(this, Queued)#}"
    by (rule registering_run [OF inv])
  obtain c2 where c2: "plugin_cb L True c1 this False = Inr (True, c2)" "life_inv L this q a l (c2\<lparr>ch_registered := False\<rparr>)"
    using plugin_cb_life [OF c1(2,3), of False True] c1(4) by auto
  let ?c2 = "c2\<lparr>ch_registered := False\<rparr>"
  have f2: "ch_loaded ?c2" "\<not> ch_registered ?c2" "ch_jobs ?c2 = {#(this, Queued)#}"
    using plugin_cb_fields [OF c2(1)] c1 by simp_all
  have r2: "charon_reach L this (start_charon h) (Inr ?c2)"
    using charon_reach.step [OF c1(1) charon_step.unregister [OF c1(3,4), of L this True]] c2(1) by simp
  obtain h3 where h3: "plugin_destroy L (ch_heap ?c2) this = Inr h3"
    using plugin_destroy_life [OF c2(2) f2(1,2)] by blast
  have "charon_reach L this (start_charon h) (Inr (?c2\<lparr>ch_heap := h3, ch_loaded := False\<rparr>))"
    using charon_reach.step [OF r2 charon_step.destroy [OF f2(1,2), of L this]] h3 by simp
  then show thesis by (rule that) (use f2 in simp_all)
qed

lemma demo_life:
  obtains h' q a l where
    "user_policy_plugin_create demo_lib (demo_files ''vip'') demo_settings demo_plugin_memory demo_heap = Some (Inr (Some 0, h'))"
    "pool_fits h' 0"
    "life_inv demo_lib 0 q a l (start_charon h')"
proof -
  obtain h' where c: "user_policy_plugin_create demo_lib (demo_files ''vip'') demo_settings demo_plugin_memory demo_heap = Some (Inr (Some 0, h'))"
    "pool_fits h' 0"
    by (rule demo_created)
  show thesis by (rule created_life [OF demo_lib_ok demo_heap_ok c]) (rule that [OF c])
qed

section \<open>Properties\<close>

text \<open>C19: whenever the parser ends, \<open>user_policy_plugin_create\<close> returns: NULL exactly if the policy engine,
  the allocator or the listener cannot be created, and then every object made on the way has been
  freed; otherwise a plugin with one reference that owns the engine, the allocator made from it and the
  configured values, and the listener of that allocator.\<close>

theorem plugin_creation_fails_fast:
  assumes "strongswan_ok L" and "heap_ok h"
    and "policy_engine_create L files (ok_snapshot m) (ok_engine m) (Some (pl_policy_path (init_plugin st))) = Some policy"
  shows "\<exists>res h'. user_policy_plugin_create L files st m h = Some (Inr (res, h')) \<and>
    (if policy \<noteq> None \<and> ok_allocator m \<and> ok_listener m
     then res = Some (hp_next h) \<and>
       (\<exists>q a l al. hp_plugin h' (hp_next h) =
           Some ((init_plugin st)\<lparr>pl_policy := Some q, pl_allocator := Some a, pl_listener := Some l\<rparr>) \<and>
         hp_policy h' q = policy \<and> hp_alloc h' a = Some al \<and> hp_engine_of h' a = Some q \<and>
         ip_allocator_create L True (ok_bitmap m) policy (Some (pl_pool_name (init_plugin st))) (pl_lease_timeout (init_plugin st))
           = Inr (Some al) \<and>
         hp_listener h' l = Some \<lparr>el_allocator = a\<rparr>)
     else res = None \<and> same_objects h h')"
  using assms by (rule plugin_create_effect)

theorem plugin_creation_fails_fast_witness:
  "\<exists>h'. user_policy_plugin_create demo_lib (\<lambda>_. Answers [Some Stream_Start, None]) demo_settings demo_plugin_memory demo_heap =
    Some (Inr (None, h')) \<and> same_objects demo_heap h'"
proof -
  have "policy_engine_create demo_lib (\<lambda>_. Answers [Some Stream_Start, None]) (ok_snapshot demo_plugin_memory)
      (ok_engine demo_plugin_memory) (Some (pl_policy_path (init_plugin demo_settings))) = Some None"
    by (simp add: policy_engine_create_def snapshot_load_def yaml_load_policy_def demo_plugin_memory_def)
  from plugin_creation_fails_fast [OF demo_lib_ok demo_heap_ok this] show ?thesis by auto
qed

text \<open>C3: in every life charon gives a plugin that was created, no call, job or event uses an object that
  was freed, the plugin and all it owns is alive exactly as long as the loader or a job refers to it,
  with the count saying how many they are, provider and listener are registered only meanwhile, and the
  allocator stays consistent; with the last reference everything is freed.\<close>

theorem plugin_life_is_safe:
  assumes "strongswan_ok L" and "heap_ok h"
    and "user_policy_plugin_create L files st m h = Some (Inr (Some this, h'))"
    and "pool_fits h' this"
    and "charon_reach L this (start_charon h') r"
  shows "\<exists>p q a l ch. hp_plugin h' this = Some p \<and> pl_policy p = Some q \<and> pl_allocator p = Some a \<and> pl_listener p = Some l \<and>
    r = Inr ch \<and>
    (if references ch = 0 then plugin_freed (ch_heap ch) this q a l
     else plugin_live L (ch_heap ch) this (int (references ch)) q a l) \<and>
    ch_providers ch = (if ch_registered ch then {a} else {}) \<and> ch_listeners ch = (if ch_registered ch then {l} else {}) \<and>
    (ch_registered ch \<longrightarrow> ch_loaded ch)"
proof -
  obtain p q a l where p: "hp_plugin h' this = Some p" "pl_policy p = Some q" "pl_allocator p = Some a" "pl_listener p = Some l"
      "life_inv L this q a l (start_charon h')"
    by (rule created_life [OF assms(1-4)])
  obtain ch where "r = Inr ch" "life_inv L this q a l ch" using charon_reach_life [OF assms(5,1) p(5)] by blast
  then show ?thesis using p unfolding life_inv_def by blast
qed

theorem plugin_life_is_safe_witness:
  "\<exists>h' ch p. user_policy_plugin_create demo_lib (demo_files ''vip'') demo_settings demo_plugin_memory demo_heap = Some (Inr (Some 0, h')) \<and>
    charon_reach demo_lib 0 (start_charon h') (Inr ch) \<and> \<not> ch_loaded ch \<and> ch_jobs ch = {#(0, Queued)#} \<and>
    hp_plugin (ch_heap ch) 0 = Some p \<and> pl_refcnt p = 1"
proof -
  obtain h' q a l where c: "user_policy_plugin_create demo_lib (demo_files ''vip'') demo_settings demo_plugin_memory demo_heap = Some (Inr (Some 0, h'))"
    "pool_fits h' 0"
    and life: "life_inv demo_lib 0 q a l (start_charon h')"
    by (rule demo_life)
  from life obtain ch where ch: "charon_reach demo_lib 0 (start_charon h') (Inr ch)" "\<not> ch_loaded ch" "ch_jobs ch = {#(0, Queued)#}"
    by (rule unloading_run)
  then have "references ch = 1" by (simp add: references_def)
  with plugin_life_is_safe [OF demo_lib_ok demo_heap_ok c ch(1)] show ?thesis
    using c(1) ch by (auto simp: plugin_live_def)
qed

text \<open>C17: an unloaded plugin is freed: once the loader has destroyed the plugin, only jobs are left, each of
  their steps brings them nearer to their end, as long as there is one it can take a step, and when
  none is left everything the plugin owned is freed.\<close>

theorem unloaded_plugin_is_freed:
  assumes "strongswan_ok L" and "heap_ok h"
    and "user_policy_plugin_create L files st m h = Some (Inr (Some this, h'))"
    and "pool_fits h' this"
    and "charon_reach L this (start_charon h') (Inr ch)" and "\<not> ch_loaded ch"
  shows "\<exists>p q a l. hp_plugin h' this = Some p \<and> pl_policy p = Some q \<and> pl_allocator p = Some a \<and> pl_listener p = Some l \<and>
    (\<forall>r. charon_step L this ch r \<longrightarrow> (\<exists>ch'. r = Inr ch' \<and> \<not> ch_loaded ch' \<and> job_work ch' < job_work ch)) \<and>
    (if ch_jobs ch = {#} then plugin_freed (ch_heap ch) this q a l else \<exists>r. charon_step L this ch r)"
proof -
  obtain p q a l where p: "hp_plugin h' this = Some p" "pl_policy p = Some q" "pl_allocator p = Some a" "pl_listener p = Some l"
      "life_inv L this q a l (start_charon h')"
    by (rule created_life [OF assms(1-4)])
  have inv: "life_inv L this q a l ch" "quiet this ch"
    using reach_quiet [OF assms(5,1) p(5) start_quiet] by auto
  have "\<not> ch_registered ch" using inv(1) assms(6) by (auto simp: life_inv_def)
  then have stop: "stopping (ch_heap ch) this"
    using inv assms(6) by (auto simp: quiet_def life_inv_def references_def plugin_freed_def stopping_def)
  have "\<exists>ch'. r = Inr ch' \<and> \<not> ch_loaded ch' \<and> job_work ch' < job_work ch" if "charon_step L this ch r" for r
    using charon_step_life [OF assms(1) inv(1) that] unloaded_step [OF inv(1) assms(6) stop that] by blast
  moreover have "if ch_jobs ch = {#} then plugin_freed (ch_heap ch) this q a l else \<exists>r. charon_step L this ch r"
    using inv(1) assms(6) job_can_step [of _ ch L this] by (auto simp: life_inv_def references_def)
  ultimately show ?thesis using p by blast
qed

theorem unloaded_plugin_is_freed_witness:
  "\<exists>h' ch. user_policy_plugin_create demo_lib (demo_files ''vip'') demo_settings demo_plugin_memory demo_heap = Some (Inr (Some 0, h')) \<and>
    charon_reach demo_lib 0 (start_charon h') (Inr ch) \<and> ch_jobs ch = {#(0, Queued)#} \<and>
    (\<exists>r. charon_step demo_lib 0 ch r) \<and>
    (\<forall>r. charon_step demo_lib 0 ch r \<longrightarrow> (\<exists>ch'. r = Inr ch' \<and> job_work ch' < 2))"
proof -
  obtain h' q a l where c: "user_policy_plugin_create demo_lib (demo_files ''vip'') demo_settings demo_plugin_memory demo_heap = Some (Inr (Some 0, h'))"
    "pool_fits h' 0"
    and life: "life_inv demo_lib 0 q a l (start_charon h')"
    by (rule demo_life)
  from life obtain ch where ch: "charon_reach demo_lib 0 (start_charon h') (Inr ch)" "\<not> ch_loaded ch" "ch_jobs ch = {#(0, Queued)#}"
    by (rule unloading_run)
  then have "job_work ch = 2" by (simp add: job_work_def)
  with unloaded_plugin_is_freed [OF demo_lib_ok demo_heap_ok c ch(1,2)] show ?thesis using c(1) ch by auto
qed

text \<open>C31: from the moment the feature is unregistered the plugin never sweeps again: however long its job
  lives, it answers that it need not be queued again and leaves the allocator alone, and it can be
  cancelled.  This is so even if the feature is registered once more, because nothing takes
  \<open>terminating\<close> back: leases of vanished connections are then never reclaimed.\<close>

theorem unregistered_plugin_never_sweeps:
  assumes "strongswan_ok L" and "life_inv L this q a l ch" and "ch_registered ch"
    and "plugin_cb L job_ok ch this False = Inr (done, ch1)"
    and "charon_reach L this (ch1\<lparr>ch_registered := False\<rparr>) (Inr ch2)" and "j \<in># ch_jobs ch2"
  shows "fst j = this \<and> plugin_sweep_cb L alive now (ch_heap ch2) this = Inr (JOB_REQUEUE_NONE, ch_heap ch2) \<and>
    sweep_locked L alive now (ch_heap ch2) this = Inr (ch_heap ch2) \<and> sweep_cancel (ch_heap ch2) this = Inr True"
proof -
  have inv1: "life_inv L this q a l (ch1\<lparr>ch_registered := False\<rparr>)"
    using plugin_cb_life [OF assms(2), of False job_ok] assms(2,3,4) by (auto simp: life_inv_def)
  have stop1: "stopping (ch_heap (ch1\<lparr>ch_registered := False\<rparr>)) this"
    using plugin_cb_stopping [OF assms(4)] by simp
  have "\<exists>ch'. r = Inr ch' \<and> life_inv L this q a l ch' \<and> stopping (ch_heap ch') this"
    if "charon_reach L this (ch1\<lparr>ch_registered := False\<rparr>) r" for r
    using that
  proof (induction rule: charon_reach.induct)
    case (step ch' r)
    then show ?case using charon_step_life [OF assms(1)] step_stopping by blast
  qed (use inv1 stop1 in blast)
  from this [OF assms(5)] have inv: "life_inv L this q a l ch2" and stop: "stopping (ch_heap ch2) this" by auto
  obtain p where "hp_plugin (ch_heap ch2) this = Some p" "pl_allocator p = Some a"
    by (rule live_parts [OF life_live [OF inv job_references [OF assms(6)]]])
  then show ?thesis
    using stop job_context [OF inv, of "fst j" "snd j"] assms(6)
    by (simp add: stopping_def plugin_sweep_cb_def sweep_check_def sweep_locked_def sweep_cancel_def store_simps)
qed

theorem unregistered_plugin_never_sweeps_witness:
  "\<exists>h' ch ch1. user_policy_plugin_create demo_lib (demo_files ''vip'') demo_settings demo_plugin_memory demo_heap = Some (Inr (Some 0, h')) \<and>
    charon_reach demo_lib 0 (start_charon h') (Inr ch) \<and> plugin_cb demo_lib True ch 0 False = Inr (True, ch1) \<and>
    plugin_sweep_cb demo_lib (\<lambda>_. False) 9000 (ch_heap ch1) 0 = Inr (JOB_REQUEUE_NONE, ch_heap ch1)"
proof -
  obtain h' q a l where c: "user_policy_plugin_create demo_lib (demo_files ''vip'') demo_settings demo_plugin_memory demo_heap = Some (Inr (Some 0, h'))"
    and life: "life_inv demo_lib 0 q a l (start_charon h')"
    by (rule demo_life)
  from life obtain ch where ch: "charon_reach demo_lib 0 (start_charon h') (Inr ch)" "life_inv demo_lib 0 q a l ch" "ch_loaded ch"
    "ch_registered ch" "ch_jobs ch = {#(0, Queued)#}"
    by (rule registering_run)
  obtain ch1 where ch1: "plugin_cb demo_lib True ch 0 False = Inr (True, ch1)"
    using plugin_cb_life [OF ch(2,3), of False True] ch(4) by auto
  have "(0, Queued) \<in># ch_jobs (ch1\<lparr>ch_registered := False\<rparr>)" using plugin_cb_fields [OF ch1] ch(5) by simp
  from unregistered_plugin_never_sweeps [OF demo_lib_ok ch(2,4) ch1 charon_reach.start this, of "\<lambda>_. False" 9000]
  show ?thesis using c ch(1) ch1 by auto
qed

text \<open>C40: a sweep of a running plugin sweeps the allocator once and asks to be queued again after
  \<open>sweep_interval * 1000\<close> milliseconds, computed in 32 bits: that is the interval up to 4294967 seconds,
  and less than 4.3 million seconds in any case; 4294968 seconds become 704 milliseconds, and an
  interval of 0 keeps the job queue busy.\<close>

theorem sweep_job_interval:
  assumes "hp_plugin h this = Some p" and "\<not> pl_terminating p" and "pl_allocator p = Some a"
    and "hp_alloc h a = Some al" and "al_inv L al"
  shows "\<exists>al' ms. sweep L alive now al = Inr al' \<and>
    plugin_sweep_cb L alive now h this = Inr (JOB_RESCHEDULE_MS ms, h\<lparr>hp_alloc := (hp_alloc h)(a \<mapsto> al')\<rparr>) \<and>
    unat ms = unat (pl_sweep_interval p) * 1000 mod 2 ^ 32 \<and>
    (unat (pl_sweep_interval p) \<le> 4294967 \<longrightarrow> unat ms = unat (pl_sweep_interval p) * 1000) \<and>
    (pl_sweep_interval p = 4294968 \<longrightarrow> unat ms = 704) \<and> (pl_sweep_interval p = 0 \<longrightarrow> ms = 0)"
proof -
  let ?ms = "pl_sweep_interval p * 1000"
  obtain al' where al': "sweep L alive now al = Inr al'" using sweep_effect [OF assms(5)] by blast
  have "plugin_sweep_cb L alive now h this = Inr (JOB_RESCHEDULE_MS ?ms, h\<lparr>hp_alloc := (hp_alloc h)(a \<mapsto> al')\<rparr>)"
    using assms al' by (simp add: plugin_sweep_cb_def sweep_check_def sweep_locked_def sweep_requeue_def store_simps)
  moreover have ms: "unat ?ms = unat (pl_sweep_interval p) * 1000 mod 2 ^ 32" by (simp add: unat_word_ariths)
  ultimately show ?thesis using al' by (intro exI [of _ al'] exI [of _ ?ms]) auto
qed

theorem sweep_job_interval_witness:
  "\<exists>h al'. plugin_sweep_cb demo_lib (\<lambda>_. False) 9000 h 0 = Inr (JOB_RESCHEDULE_MS 704, h\<lparr>hp_alloc := (hp_alloc h)(2 \<mapsto> al')\<rparr>) \<and>
    sweep demo_lib (\<lambda>_. False) 9000 demo_al = Inr al'"
proof -
  let ?p = "(init_plugin demo_settings)\<lparr>pl_allocator := Some 2, pl_sweep_interval := 4294968\<rparr>"
  let ?h = "demo_heap\<lparr>hp_plugin := [0 \<mapsto> ?p], hp_alloc := [2 \<mapsto> demo_al]\<rparr>"
  obtain al' ms where "sweep demo_lib (\<lambda>_. False) 9000 demo_al = Inr al'"
      "plugin_sweep_cb demo_lib (\<lambda>_. False) 9000 ?h 0 = Inr (JOB_RESCHEDULE_MS ms, ?h\<lparr>hp_alloc := (hp_alloc ?h)(2 \<mapsto> al')\<rparr>)"
      "unat ms = 704"
    using sweep_job_interval [of ?h 0 ?p 2 demo_al demo_lib "\<lambda>_. False" 9000] demo_al_inv by auto
  moreover from this(3) have "ms = 704" using word_unat_eq_iff [of ms 704] by simp
  ultimately show ?thesis by (intro exI [of _ ?h] exI [of _ al']) simp
qed

text \<open>C18: a reload through the plugin changes what new connections get and nothing else: the allocator,
  its leases and its pool stay as they are, a user who holds a lease keeps its address even if the new
  document gives the user another one, and a user without a lease gets the address of the new document.\<close>

theorem reload_affects_new_connections:
  assumes "strongswan_ok L" and "plugin_live L h this n q a l" and "hp_policy h q = Some pe" and "hp_alloc h a = Some al"
    and "files (pe_path pe) = Answers (policy_answers users pool)"
    and "lease_memory_ok m" and "ok_fixed_clone m" and "ok_result_clone m" and "serves m al pools s u"
  shows "\<exists>h'. plugin_reload L files True h this = Some (Inr (True, h')) \<and> plugin_live L h' this n q a l \<and>
    hp_alloc h' = hp_alloc h \<and>
    (case al_users L al u of
       Some lease \<Rightarrow> \<exists>h''. call_acquire L m now pools (Some s) requested h' a = Inr (le_ip lease, h'')
     | None \<Rightarrow> \<forall>addr. map_of (rev (policy_entries L users)) u = Some addr \<longrightarrow> \<not> is_anon u \<longrightarrow>
         (\<exists>h''. call_acquire L m now pools (Some s) requested h' a = Inr (Some addr, h'')))"
proof -
  obtain p where p: "hp_plugin h this = Some p" "pl_policy p = Some q" "pe_inv L pe" "al_inv L al" "hp_engine_of h a = Some q"
    by (rule live_parts [OF assms(2)]) (use assms(3,4) in auto)
  obtain pe' where pe': "pe_reload L files True pe = Some (Inr (True, pe'))" "pe_inv L pe'"
      "\<forall>u. pe_fixed L pe' u = map_of (rev (policy_entries L users)) u"
    using reload_law [of L pe files, OF assms(1) p(3) assms(5)] by blast
  let ?h = "h\<lparr>hp_policy := (hp_policy h)(q \<mapsto> pe')\<rparr>"
  have run: "plugin_reload L files True h this = Some (Inr (True, ?h))"
    using p assms(3) pe'(1) by (simp add: plugin_reload_def store_simps)
  have call: "call_acquire L m now pools (Some s) requested ?h a = Inr (r, ?h\<lparr>hp_alloc := (hp_alloc h)(a \<mapsto> al')\<rparr>)"
    if "acquire_address L m now pe' al pools (Some s) requested = Inr (r, al')" for r al'
    using that assms(4) p(5) by (simp add: call_acquire_def store_simps)
  have kept: "\<exists>h''. call_acquire L m now pools (Some s) requested ?h a = Inr (le_ip k, h'')" if "al_users L al u = Some k" for k
    using reconnect_law [OF p(4) assms(9) that assms(8), of now pe' requested] call by fastforce
  have new: "\<exists>h''. call_acquire L m now pools (Some s) requested ?h a = Inr (Some addr, h'')"
    if "al_users L al u = None" "map_of (rev (policy_entries L users)) u = Some addr" "\<not> is_anon u" for addr
  proof -
    have "policy_address L pe' u = Some addr" using that pe'(3) by (simp add: policy_address_def)
    then show ?thesis using fixed_law [OF p(4) pe'(2) assms(9) that(1) _ assms(6,7,8), of addr now requested] call by blast
  qed
  show ?thesis
    using run live_new_engine [OF assms(2) pe'(2)] kept new by (auto split: option.split intro!: exI [of _ ?h])
qed

theorem reload_affects_new_connections_witness:
  "\<exists>h h'. plugin_reload demo_lib (demo_files ''ops'') True h 0 = Some (Inr (True, h')) \<and>
    (\<exists>h''. call_acquire demo_lib demo_memory 100 demo_pools (Some (demo_sa ''ops'' 1)) None h' 2 =
      Inr (Some \<lparr>h_family = AF_INET, h_address = [97, 98, 99, 100]\<rparr>, h''))"
proof -
  let ?p = "(init_plugin demo_settings)\<lparr>pl_policy := Some 1, pl_allocator := Some 2, pl_listener := Some 3\<rparr>"
  let ?h = "demo_heap\<lparr>hp_plugin := [0 \<mapsto> ?p], hp_policy := [1 \<mapsto> demo_engine], hp_alloc := [2 \<mapsto> demo_al],
    hp_engine_of := [2 \<mapsto> 1], hp_listener := [3 \<mapsto> \<lparr>el_allocator = 2\<rparr>]\<rparr>"
  have live: "plugin_live demo_lib ?h 0 1 1 2 3" using demo_engine_inv demo_al_inv by (simp add: plugin_live_def)
  have doc: "demo_files ''ops'' (pe_path demo_engine) = Answers (policy_answers [(''ops'', ''abcd'')] (Some (''defg'', ''defz'')))"
    by (simp add: demo_files_def)
  have serves: "serves demo_memory demo_al demo_pools (demo_sa ''ops'' 1) ''ops''"
    using demo_serves [of "''ops''" 1] by (simp add: cstr_def)
  have objs: "hp_policy ?h 1 = Some demo_engine" "hp_alloc ?h 2 = Some demo_al" by simp_all
  from reload_affects_new_connections [of demo_lib _ _ _ _ _ _ _ _ "demo_files ''ops''", OF demo_lib_ok live objs doc demo_memory_simps(7,3,6) serves, of 100 None]
  obtain h' where "plugin_reload demo_lib (demo_files ''ops'') True ?h 0 = Some (Inr (True, h'))"
    "\<exists>h''. call_acquire demo_lib demo_memory 100 demo_pools (Some (demo_sa ''ops'' 1)) None h' 2 =
      Inr (Some \<lparr>h_family = AF_INET, h_address = [97, 98, 99, 100]\<rparr>, h'')"
    by (auto simp: demo_al_users demo_entries cstr_id snprintf_s_def is_anon_def)
  then show ?thesis by blast
qed

end
