(* ===== verification/Configured_Plugin.thy ===== *)
theory Configured_Plugin
  imports Plugin_Properties
begin

text \<open>
  From the policy file to the addresses of the users: the loader, the engine, the construction of the
  plugin, the allocator and the pool together.
\<close>

section \<open>A policy and the addresses\<close>

text \<open>Under one policy, with memory for the copies, a connection gets the address of its user in the policy
  whatever has happened before, and without one an address of the pool or none.\<close>

lemma policy_decides:
  assumes inv: "al_inv L al" and users: "follows P (al_users L al)" "honours P (al_users L al)"
    and pe: "pe_inv L pe" "policy_address L pe = P" and serves: "serves m al pools s u"
    and mem: "lease_memory_ok m" "ok_fixed_clone m" "ok_result_clone m"
  shows "\<exists>r al'. acquire_address L m now pe al pools (Some s) requested = Inr (r, al') \<and> al_inv L al' \<and>
    (case P u of
       Some h \<Rightarrow> r = Some h
     | None \<Rightarrow> \<forall>h. r = Some h \<longrightarrow> h_family h = AF_INET \<and> (\<exists>d. al_dyn al = Some d \<and> host_to_u32 h \<in> dp_universe d))"
proof (cases "al_users L al u")
  case (Some l)
  obtain h where h: "le_ip l = Some h" "le_fixed l \<or> h_family h = AF_INET"
    using al_lease [OF inv Some] by (auto simp: lease_ok_def)
  have fixed: "le_fixed l \<Longrightarrow> P u = Some h" using users(1) Some h(1) by (auto simp: follows_def)
  have dynamic: "\<exists>d. al_dyn al = Some d \<and> host_to_u32 h \<in> dp_universe d" if "\<not> le_fixed l"
    using dynamic_in_pool [OF inv, of u "host_to_u32 h"] Some h(1) that by (simp add: dynamic_def dyn_addr_def)
  have "P u \<noteq> None \<Longrightarrow> le_fixed l" using users(2) Some by (auto simp: honours_def)
  then have "case P u of
       Some h' \<Rightarrow> Some h = Some h'
     | None \<Rightarrow> \<forall>h'. Some h = Some h' \<longrightarrow> h_family h' = AF_INET \<and> (\<exists>d. al_dyn al = Some d \<and> host_to_u32 h' \<in> dp_universe d)"
    using fixed dynamic h(2) by (cases "le_fixed l") (auto split: option.split)
  then show ?thesis using reconnect_law [OF inv serves Some mem(3), of now pe requested] h(1) by auto
next
  case None
  show ?thesis
  proof (cases "P u")
    case (Some h)
    then show ?thesis using fixed_law [OF inv pe(1) serves None _ mem, of h now requested] pe(2) by auto
  next
    case no: None
    then have "policy_address L pe u = None" using pe(2) by simp
    note law = dynamic_law [OF inv pe(1) serves None this mem(1,3), of now requested]
    show ?thesis
    proof (cases "al_dyn al")
      case None
      then show ?thesis using law inv no by simp
    next
      case (Some d)
      have "least_free d \<subseteq> dp_universe d" by (auto simp: least_free_def)
      then show ?thesis using law inv no Some by (cases "dp_allocated d = dp_universe d") auto
    qed
  qed
qed

section \<open>A configured plugin\<close>

text \<open>The fixed addresses of a document; placeholder names have none.\<close>

definition document_address :: "('u, 's, 'f) strongswan \<Rightarrow> (string \<times> string) list \<Rightarrow> string \<Rightarrow> host option" where
  "document_address L users u = (if is_anon u then None else map_of (rev (policy_entries L users)) u)"

text \<open>The endpoints of the pool in a document are addresses, in order, and not too far apart for the bitmap.\<close>

definition good_range :: "('u, 's, 'f) strongswan \<Rightarrow> string \<Rightarrow> string \<Rightarrow> host \<Rightarrow> host \<Rightarrow> bool" where
  "good_range L lo hi hs he \<longleftrightarrow>
     host_create_from_string L (cstr lo) 0 = Some hs \<and> host_create_from_string L (cstr hi) 0 = Some he \<and>
     h_family hs = AF_INET \<and> h_family he = AF_INET \<and> host_to_u32 hs \<le> host_to_u32 he \<and>
     unat (host_to_u32 he - host_to_u32 hs) + 8 < 2 ^ 32"

definition plugin_memory_ok :: "plugin_memory \<Rightarrow> bool" where
  "plugin_memory_ok m \<longleftrightarrow> ok_snapshot m \<and> ok_engine m \<and> ok_allocator m \<and> ok_bitmap m \<and> ok_listener m"

lemma document_engine:
  assumes "strongswan_ok L" and "files path = Answers (policy_answers users pool)"
  obtains pe where "policy_engine_create L files True True (Some path) = Some (Some pe)" "pe_inv L pe"
    "policy_address L pe = document_address L users"
    "pe_get_pool pe None None = (case (pool_endpoint L (map_option fst pool), pool_endpoint L (map_option snd pool)) of
       (Some s, Some e) \<Rightarrow> Inr (True, Some s, Some e) | _ \<Rightarrow> Inr (False, None, None))"
proof -
  let ?pe = "\<lparr>pe_store = [0 \<mapsto> document_snapshot L users pool], pe_next = 1, pe_active = Some 0, pe_path = path\<rparr>"
  have active: "pe_active ?pe = Some 0" "pe_store ?pe = [0 \<mapsto> document_snapshot L users pool]" by simp_all
  have "policy_engine_create L files True True (Some path) = Some (Some ?pe)"
    using snapshot_load_document [of files path users pool L] assms(2) by (simp add: policy_engine_create_def)
  moreover have "policy_address L ?pe = document_address L users"
    using document_engine_lookup [OF assms(1) active]
    by (simp add: policy_address_def document_address_def fun_eq_iff)
  ultimately show thesis
    using that [of ?pe] engine_create_inv [OF assms(1)] engine_lookup_snapshot(2) [OF active, of None None]
    by (simp add: document_snapshot_def)
qed

lemma configured_plugin:
  assumes L: "strongswan_ok L" and h: "heap_ok h" and mem: "plugin_memory_ok m"
    and doc: "files (pl_policy_path (init_plugin st)) = Answers (policy_answers users (Some (lo, hi)))"
    and range: "good_range L lo hi hs he"
  obtains this h' p q a pe al d where "user_policy_plugin_create L files st m h = Some (Inr (Some this, h'))"
    "hp_plugin h' this = Some p" "pl_allocator p = Some a" "hp_alloc h' a = Some al" "hp_engine_of h' a = Some q"
    "hp_policy h' q = Some pe" "pe_inv L pe" "policy_address L pe = document_address L users" "al_inv L al"
    "al_users L al = Map.empty" "al_dyn al = Some d" "dp_universe d = {host_to_u32 hs..host_to_u32 he}" "dp_allocated d = {}"
proof -
  obtain pe where pe: "policy_engine_create L files True True (Some (pl_policy_path (init_plugin st))) = Some (Some pe)"
      "pe_inv L pe" "policy_address L pe = document_address L users" "pe_get_pool pe None None = Inr (True, Some hs, Some he)"
    by (rule document_engine [where files = files and path = "pl_policy_path (init_plugin st)" and users = users
          and pool = "Some (lo, hi)", OF L doc])
      (use range in \<open>simp add: good_range_def pool_endpoint_def\<close>)
  have ok: "ok_snapshot m" "ok_engine m" "ok_allocator m" "ok_bitmap m" "ok_listener m"
    using mem by (simp_all add: plugin_memory_ok_def)
  obtain d where d: "dynamic_pool_create True (Some hs) (Some he) = Some d" "dp_inv d" "dp_allocated d = {}"
      "dp_universe d = {host_to_u32 hs..host_to_u32 he}"
    using dp_create_ok [of hs he] range by (auto simp: good_range_def)
  obtain h' q a l al where h': "user_policy_plugin_create L files st m h = Some (Inr (Some (hp_next h), h'))"
      "hp_plugin h' (hp_next h) = Some ((init_plugin st)\<lparr>pl_policy := Some q, pl_allocator := Some a, pl_listener := Some l\<rparr>)"
      "hp_policy h' q = Some pe" "hp_alloc h' a = Some al" "hp_engine_of h' a = Some q"
      "ip_allocator_create L True True (Some pe) (Some (pl_pool_name (init_plugin st))) (pl_lease_timeout (init_plugin st)) = Inr (Some al)"
    using plugin_create_effect [OF L h, of files m st "Some pe"] pe(1) ok by auto
  have dyn: "al_dyn al = Some d" using h'(6) pe(4) d(1) by (auto simp: ip_allocator_create_def)
  have "dp_fits x" if "al_dyn al = Some x" for x using that dyn d(2) by (simp add: dp_inv_def)
  note inv = create_inv(1,2) [OF L pe(2) h'(6) this]
  show thesis by (rule that [OF h'(1,2) _ h'(4,5,3) pe(2,3) inv dyn d(4,3)]) simp
qed

text \<open>C5: the policy file decides the addresses: for a document of the schema, with a pool whose endpoints
  are IPv4 addresses in order, the plugin is created, and whatever connections, releases and sweeps its
  allocator then serves under this policy, the next connection of a user of the document gets exactly
  the address the document gives this user last, and any other connection gets an address of the
  range of the pool or none.\<close>

theorem configuration_decides_addresses:
  assumes "strongswan_ok L" and "heap_ok h" and "plugin_memory_ok m"
    and "files (pl_policy_path (init_plugin st)) = Answers (policy_answers users (Some (lo, hi)))"
    and "good_range L lo hi hs he"
    and "list_all (call_ok L) cs"
    and "list_all (\<lambda>c. call_under L (document_address L users) c \<and> call_copies c) cs"
    and "lease_memory_ok m'" and "ok_fixed_clone m'" and "ok_result_clone m'"
  shows "\<exists>this h' p q a pe al al'. user_policy_plugin_create L files st m h = Some (Inr (Some this, h')) \<and>
    hp_plugin h' this = Some p \<and> pl_allocator p = Some a \<and> hp_alloc h' a = Some al \<and>
    hp_engine_of h' a = Some q \<and> hp_policy h' q = Some pe \<and> foldR (do_call L) cs al = Inr al' \<and>
    (serves m' al pools s u \<longrightarrow>
      (\<exists>r al''. acquire_address L m' now pe al' pools (Some s) requested = Inr (r, al'') \<and>
        (case document_address L users u of
           Some x \<Rightarrow> r = Some x
         | None \<Rightarrow> \<forall>x. r = Some x \<longrightarrow> h_family x = AF_INET \<and> host_to_u32 x \<in> {host_to_u32 hs..host_to_u32 he})))"
proof -
  obtain this h' p q a pe al d where c: "user_policy_plugin_create L files st m h = Some (Inr (Some this, h'))"
      "hp_plugin h' this = Some p" "pl_allocator p = Some a" "hp_alloc h' a = Some al" "hp_engine_of h' a = Some q"
      "hp_policy h' q = Some pe" "pe_inv L pe" "policy_address L pe = document_address L users" "al_inv L al"
      "al_users L al = Map.empty" "al_dyn al = Some d" "dp_universe d = {host_to_u32 hs..host_to_u32 he}"
    by (rule configured_plugin [where files = files and st = st and users = users, OF assms(1-5)])
  obtain al' where al': "foldR (do_call L) cs al = Inr al'" "al_inv L al'" "al_frame al al'"
      "follows (document_address L users) (al_users L al')" "honours (document_address L users) (al_users L al')"
    using fixed.steady.run_law [of L al "document_address L users" cs] c(9,10) assms(6,7)
    by (auto simp: follows_def honours_def list_all_iff)
  have range: "dp_universe x = {host_to_u32 hs..host_to_u32 he}" if "al_dyn al' = Some x" for x
    using that al'(3) c(11,12) by (simp add: al_frame_def)
  have "\<exists>r al''. acquire_address L m' now pe al' pools (Some s) requested = Inr (r, al'') \<and>
        (case document_address L users u of
           Some x \<Rightarrow> r = Some x
         | None \<Rightarrow> \<forall>x. r = Some x \<longrightarrow> h_family x = AF_INET \<and> host_to_u32 x \<in> {host_to_u32 hs..host_to_u32 he})"
    if "serves m' al pools s u"
  proof -
    have "serves m' al' pools s u" using that serves_frame [OF al'(3)] by simp
    from policy_decides [OF al'(2,4,5) c(7,8) this assms(8-10), of now requested]
    show ?thesis using range by (auto split: option.splits)
  qed
  then show ?thesis using c al'(1) by blast
qed


lemma demo_document: "document_address demo_lib [(''vip'', ''abcd'')] =
    (\<lambda>u. if u = ''vip'' then Some \<lparr>h_family = AF_INET, h_address = [97, 98, 99, 100]\<rparr> else None)"
  by (auto simp: document_address_def demo_entries cstr_id snprintf_s_def is_anon_def fun_eq_iff)

lemma demo_policy_address: "policy_address demo_lib demo_engine = document_address demo_lib [(''vip'', ''abcd'')]"
  by (auto simp: policy_address_def demo_document demo_engine_fixed is_anon_def fun_eq_iff)

theorem configuration_decides_addresses_witness:
  "\<exists>this h' p a al' r al''. user_policy_plugin_create demo_lib (demo_files ''vip'') demo_settings demo_plugin_memory demo_heap =
      Some (Inr (Some this, h')) \<and> hp_plugin h' this = Some p \<and> pl_allocator p = Some a \<and> hp_alloc h' a = Some demo_al \<and>
    foldR (do_call demo_lib) demo_run demo_al = Inr al' \<and> (\<exists>pe.
    acquire_address demo_lib demo_memory 200 pe al' demo_pools (Some (demo_sa ''vip'' 3)) None = Inr (r, al'') \<and>
    r = Some \<lparr>h_family = AF_INET, h_address = [97, 98, 99, 100]\<rparr>)"
proof -
  have memory: "plugin_memory_ok demo_plugin_memory" by (simp add: plugin_memory_ok_def demo_plugin_memory_def)
  have path: "demo_files ''vip'' (pl_policy_path (init_plugin demo_settings)) =
      Answers (policy_answers [(''vip'', ''abcd'')] (Some (''defg'', ''defz'')))" by (simp add: demo_files_def)
  have range: "good_range demo_lib ''defg'' ''defz'' \<lparr>h_family = AF_INET, h_address = [100, 101, 102, 103]\<rparr>
      \<lparr>h_family = AF_INET, h_address = [100, 101, 102, 122]\<rparr>"
    by (simp add: good_range_def demo_from_string_def cstr_id host_to_u32_def load_be32_def)
  have calls: "list_all (\<lambda>c. call_under demo_lib (document_address demo_lib [(''vip'', ''abcd'')]) c \<and> call_copies c) demo_run"
    by (simp add: demo_run_def call_under_def call_copies_def demo_policy_address)
  have serves: "serves demo_memory demo_al demo_pools (demo_sa ''vip'' 3) ''vip''"
    using demo_serves [of "''vip''" 3] by (simp add: cstr_id)
  obtain h' p a where h': "user_policy_plugin_create demo_lib (demo_files ''vip'') demo_settings demo_plugin_memory demo_heap =
      Some (Inr (Some 0, h'))" "hp_plugin h' 0 = Some p" "pl_allocator p = Some a" "hp_alloc h' a = Some demo_al"
    by (rule demo_created)
  from configuration_decides_addresses [where files = "demo_files ''vip''" and st = demo_settings and m' = demo_memory
      and now = 200 and requested = None and pools = demo_pools and s = "demo_sa ''vip'' 3" and u = "''vip''",
      OF demo_lib_ok demo_heap_ok memory path range demo_run_ok calls demo_memory_simps(7,3,6)]
  obtain pe al' r al'' where "foldR (do_call demo_lib) demo_run demo_al = Inr al'"
      "acquire_address demo_lib demo_memory 200 pe al' demo_pools (Some (demo_sa ''vip'' 3)) None = Inr (r, al'')"
      "r = Some \<lparr>h_family = AF_INET, h_address = [97, 98, 99, 100]\<rparr>"
    using h' serves by (auto simp: demo_document)
  then show ?thesis using h' by blast
qed

end
