(* ===== verification/Fixed_Pool_Memory.thy ===== *)
theory Fixed_Pool_Memory
  imports Fixed_Pool "HOL-Library.AList"
begin

text \<open>
  The memory of the fixed table: \<open>add\<close> hands a copy of the name and a clone of the host to the table,
  and gives back what the table does not keep; \<open>fixed_pool_destroy\<close> frees what the table holds.  When a
  name is added again, the code frees the new copy of the name, which is right if the table has kept
  the old one.  \<open>hashtable_t\<close> is not part of the repository: \<open>new_key\<close> says whether its \<open>put\<close> takes the
  new key instead.  Keys and hosts live in stores; finding an entry reads its key.
\<close>

section \<open>State and operations\<close>

record fixed_memory =
  fm_keys :: "string store"
  fm_hosts :: "host store"
  fm_next :: nat
  fm_table :: "(string \<times> nat \<times> nat) list"
  fm_count :: int

definition fm_create :: fixed_memory where
  "fm_create = \<lparr>fm_keys = Map.empty, fm_hosts = Map.empty, fm_next = 0, fm_table = [], fm_count = 0\<rparr>"

definition fm_add :: "bool \<Rightarrow> fixed_memory \<Rightarrow> string option \<Rightarrow> host option \<Rightarrow> (bool \<times> fixed_memory) res" where
  "fm_add new_key m user ip =
     (case (user, ip) of
        (Some u, Some h) \<Rightarrow>
          let k = fm_next m; c = Suc k; keys = (fm_keys m)(k \<mapsto> u); hosts = (fm_hosts m)(c \<mapsto> h) in
          (case map_of (fm_table m) u of
             None \<Rightarrow> Inr (True, \<lparr>fm_keys = keys, fm_hosts = hosts, fm_next = Suc c,
               fm_table = AList.update u (k, c) (fm_table m), fm_count = fm_count m + 1\<rparr>)
           | Some (k0, c0) \<Rightarrow>
               bindR (deref keys k0) (\<lambda>_.
               bindR (free_obj hosts c0) (\<lambda>hosts'.
               bindR (free_obj keys k) (\<lambda>keys'.
               Inr (True, \<lparr>fm_keys = keys', fm_hosts = hosts', fm_next = Suc c,
                 fm_table = AList.update u (if new_key then k else k0, c) (fm_table m), fm_count = fm_count m\<rparr>)))))
      | _ \<Rightarrow> Inr (False, m))"

definition fm_lookup :: "fixed_memory \<Rightarrow> string option \<Rightarrow> host option res" where
  "fm_lookup m user =
     (case Option.bind user (map_of (fm_table m)) of
        None \<Rightarrow> Inr None
      | Some (k, c) \<Rightarrow>
          bindR (deref (fm_keys m) k) (\<lambda>_. bindR (deref (fm_hosts m) c) (\<lambda>h. Inr (Some h))))"

definition fm_free_entry :: "string \<times> nat \<times> nat \<Rightarrow> fixed_memory \<Rightarrow> fixed_memory res" where
  "fm_free_entry = (\<lambda>(u, k, c) m.
     bindR (free_obj (fm_hosts m) c) (\<lambda>hosts.
     bindR (free_obj (fm_keys m) k) (\<lambda>keys. Inr (m\<lparr>fm_keys := keys, fm_hosts := hosts\<rparr>))))"

definition fixed_pool_destroy :: "fixed_memory \<Rightarrow> fixed_memory res" where
  "fixed_pool_destroy m = foldR fm_free_entry (fm_table m) m"

section \<open>Ownership\<close>

text \<open>The table owns every live key and host, each through one entry, and its keys spell their names.\<close>

fun entry_key :: "string \<times> nat \<times> nat \<Rightarrow> nat" where "entry_key (u, k, c) = k"

fun entry_host :: "string \<times> nat \<times> nat \<Rightarrow> nat" where "entry_host (u, k, c) = c"

definition fm_inv :: "fixed_memory \<Rightarrow> bool" where
  "fm_inv m \<longleftrightarrow>
     distinct (map fst (fm_table m)) \<and> distinct (map entry_key (fm_table m)) \<and>
     distinct (map entry_host (fm_table m)) \<and>
     dom (fm_keys m) = entry_key ` set (fm_table m) \<and> dom (fm_hosts m) = entry_host ` set (fm_table m) \<and>
     (\<forall>x \<ge> fm_next m. x \<notin> entry_key ` set (fm_table m) \<and> x \<notin> entry_host ` set (fm_table m))"

definition fm_view :: "fixed_memory \<Rightarrow> string \<Rightarrow> host option" where
  "fm_view m u = Option.bind (map_of (fm_table m) u) (\<lambda>(k, c). fm_hosts m c)"

lemma fm_create_inv: "fm_inv fm_create" and fm_create_view: "fm_view fm_create = Map.empty"
  by (simp_all add: fm_inv_def fm_create_def fm_view_def fun_eq_iff)

lemma fm_entry:
  assumes "fm_inv m" and "map_of (fm_table m) u = Some (k, c)"
  shows "\<exists>v h. fm_keys m k = Some v \<and> fm_hosts m c = Some h \<and> fm_view m u = Some h"
proof -
  have "(u, k, c) \<in> set (fm_table m)" using assms(2) by (rule map_of_SomeD)
  from imageI [OF this, of entry_key] imageI [OF this, of entry_host]
  have "k \<in> dom (fm_keys m)" "c \<in> dom (fm_hosts m)" using assms(1) by (simp_all add: fm_inv_def)
  then show ?thesis using assms(2) by (auto simp: fm_view_def)
qed

lemma fm_lookup_view: "fm_inv m \<Longrightarrow> fm_lookup m (Some u) = Inr (fm_view m u)"
proof (cases "map_of (fm_table m) u")
  case (Some e)
  obtain k c where e: "e = (k, c)" by (cases e)
  assume "fm_inv m"
  then obtain v h where "fm_keys m k = Some v" "fm_hosts m c = Some h" using fm_entry Some e by blast
  then show ?thesis using Some e by (simp add: fm_lookup_def fm_view_def store_simps)
qed (simp add: fm_lookup_def fm_view_def)

text \<open>Freeing the entries of a well-formed table.\<close>

lemma fm_free_entries:
  assumes "distinct (map entry_key es)" and "distinct (map entry_host es)"
    and "entry_key ` set es \<subseteq> dom (fm_keys m)" and "entry_host ` set es \<subseteq> dom (fm_hosts m)"
  shows "\<exists>m'. foldR fm_free_entry es m = Inr m' \<and> dom (fm_keys m') = dom (fm_keys m) - entry_key ` set es \<and>
    dom (fm_hosts m') = dom (fm_hosts m) - entry_host ` set es"
  using assms
proof (induction es arbitrary: m)
  case (Cons e es)
  obtain u k c where e: "e = (u, k, c)" by (cases e)
  let ?m = "m\<lparr>fm_keys := (fm_keys m)(k := None), fm_hosts := (fm_hosts m)(c := None)\<rparr>"
  have "fm_free_entry e m = Inr ?m"
    using Cons.prems(3,4) by (auto simp: fm_free_entry_def e store_simps)
  moreover have "\<exists>m'. foldR fm_free_entry es ?m = Inr m' \<and> dom (fm_keys m') = dom (fm_keys ?m) - entry_key ` set es \<and>
      dom (fm_hosts m') = dom (fm_hosts ?m) - entry_host ` set es"
  proof (rule Cons.IH)
    show "distinct (map entry_key es)" "distinct (map entry_host es)" using Cons.prems(1,2) by simp_all
    have "k \<notin> entry_key ` set es" "entry_key ` set es \<subseteq> dom (fm_keys m)" using Cons.prems(1,3) e by simp_all
    then show "entry_key ` set es \<subseteq> dom (fm_keys ?m)" by (simp add: subset_Diff_insert)
    have "c \<notin> entry_host ` set es" "entry_host ` set es \<subseteq> dom (fm_hosts m)" using Cons.prems(2,4) e by simp_all
    then show "entry_host ` set es \<subseteq> dom (fm_hosts ?m)" by (simp add: subset_Diff_insert)
  qed
  ultimately show ?case by (simp add: e Diff_insert2 [symmetric] Diff_insert [symmetric])
qed simp

lemma fm_destroy_all:
  assumes "fm_inv m"
  shows "\<exists>m'. fixed_pool_destroy m = Inr m' \<and> fm_keys m' = Map.empty \<and> fm_hosts m' = Map.empty"
  using fm_free_entries [of "fm_table m" m] assms by (auto simp: fixed_pool_destroy_def fm_inv_def)

section \<open>Adding\<close>

lemma update_new: "map_of t u = None \<Longrightarrow> AList.update u e t = t @ [(u, e)]"
  by (induction t) (auto split: if_splits)

lemma update_old:
  "map_of t u = Some e0 \<Longrightarrow> \<exists>xs ys. t = xs @ (u, e0) # ys \<and> AList.update u e t = xs @ (u, e) # ys"
proof (induction t)
  case (Cons kv t)
  show ?case
  proof (cases "fst kv = u")
    case True
    then show ?thesis using Cons.prems by (intro exI [of _ "[]"] exI [of _ t]) (cases kv, simp)
  next
    case False
    then have "map_of t u = Some e0" using Cons.prems by (cases kv) simp
    then obtain xs ys where "t = xs @ (u, e0) # ys" "AList.update u e t = xs @ (u, e) # ys" using Cons.IH by blast
    then show ?thesis using False by (intro exI [of _ "kv # xs"] exI [of _ ys]) (cases kv, simp)
  qed
qed simp

lemma fm_fresh:
  assumes "fm_inv m" and "fm_next m \<le> x"
  shows "fm_keys m x = None" "fm_hosts m x = None" "x \<notin> entry_key ` set (fm_table m)" "x \<notin> entry_host ` set (fm_table m)"
proof -
  show k: "x \<notin> entry_key ` set (fm_table m)" and h: "x \<notin> entry_host ` set (fm_table m)"
    using assms unfolding fm_inv_def by blast+
  have "dom (fm_keys m) = entry_key ` set (fm_table m)" "dom (fm_hosts m) = entry_host ` set (fm_table m)"
    using assms(1) by (simp_all add: fm_inv_def)
  with k h show "fm_keys m x = None" "fm_hosts m x = None" by blast+
qed

text \<open>A new name.\<close>

lemma fm_add_new:
  assumes inv: "fm_inv m" and u: "map_of (fm_table m) u = None"
  shows "\<exists>m'. fm_add new_key m (Some u) (Some h) = Inr (True, m') \<and> fm_inv m' \<and>
    fm_view m' = (fm_view m)(u \<mapsto> h) \<and> fm_count m' = fm_count m + 1"
proof -
  let ?k = "fm_next m" and ?c = "Suc (fm_next m)"
  let ?m = "\<lparr>fm_keys = (fm_keys m)(?k \<mapsto> u), fm_hosts = (fm_hosts m)(?c \<mapsto> h), fm_next = Suc ?c,
    fm_table = fm_table m @ [(u, ?k, ?c)], fm_count = fm_count m + 1\<rparr>"
  have run: "fm_add new_key m (Some u) (Some h) = Inr (True, ?m)"
    using u by (simp add: fm_add_def update_new Let_def)
  note fk = fm_fresh [OF inv, of ?k, simplified] and fc = fm_fresh [OF inv, of ?c, simplified]
  have fresh: "?c \<notin> dom (fm_hosts m)" using fc(2) by (simp add: domIff)
  have "fm_inv ?m"
    using inv u fk(3) fc(4) by (simp add: fm_inv_def map_of_eq_None_iff)
  moreover have "fm_view ?m v = ((fm_view m)(u \<mapsto> h)) v" for v
  proof (cases "map_of (fm_table m) v")
    case None
    then show ?thesis by (simp add: fm_view_def map_add_def)
  next
    case (Some e)
    obtain k c where e: "e = (k, c)" by (cases e)
    have "fm_hosts m c \<noteq> None" "v \<noteq> u" using fm_entry [OF inv, of v k c] Some e u by auto
    then show ?thesis using Some e fresh by (auto simp: fm_view_def map_add_def)
  qed
  ultimately show ?thesis using run by auto
qed

text \<open>A name that is there: what the code leaves, whichever key the table has.\<close>

definition fm_replaced ::
  "bool \<Rightarrow> fixed_memory \<Rightarrow> string \<Rightarrow> host \<Rightarrow> nat \<Rightarrow> nat \<Rightarrow> (string \<times> nat \<times> nat) list \<Rightarrow> (string \<times> nat \<times> nat) list \<Rightarrow> fixed_memory" where
  "fm_replaced new_key m u h k0 c0 xs ys =
     \<lparr>fm_keys = fm_keys m, fm_hosts = (fm_hosts m)(Suc (fm_next m) \<mapsto> h, c0 := None), fm_next = Suc (Suc (fm_next m)),
      fm_table = xs @ (u, if new_key then fm_next m else k0, Suc (fm_next m)) # ys, fm_count = fm_count m\<rparr>"

lemma fm_add_known:
  assumes inv: "fm_inv m" and u: "map_of (fm_table m) u = Some (k0, c0)"
  obtains xs ys where "fm_table m = xs @ (u, k0, c0) # ys"
    "fm_add new_key m (Some u) (Some h) = Inr (True, fm_replaced new_key m u h k0 c0 xs ys)"
    "map_of (fm_table (fm_replaced new_key m u h k0 c0 xs ys)) =
       (map_of (fm_table m))(u \<mapsto> (if new_key then fm_next m else k0, Suc (fm_next m)))"
    "c0 \<noteq> Suc (fm_next m)"
proof -
  let ?k = "fm_next m" and ?c = "Suc (fm_next m)"
  let ?k' = "if new_key then ?k else k0"
  obtain xs ys where t: "fm_table m = xs @ (u, k0, c0) # ys" "AList.update u (?k', ?c) (fm_table m) = xs @ (u, ?k', ?c) # ys"
    using update_old [OF u] by blast
  obtain v h0 where e: "fm_keys m k0 = Some v" "fm_hosts m c0 = Some h0" using fm_entry [OF inv u] by blast
  have fresh: "fm_keys m ?k = None" "fm_hosts m ?c = None" using fm_fresh [OF inv] by simp_all
  then have ne: "k0 \<noteq> ?k" "c0 \<noteq> ?c" using e by auto
  have "(fm_keys m)(?k := None) = fm_keys m" using fresh(1) by (simp add: fun_upd_idem)
  then have "fm_add new_key m (Some u) (Some h) = Inr (True, fm_replaced new_key m u h k0 c0 xs ys)"
    using u e ne t(2) by (simp add: fm_add_def fm_replaced_def Let_def store_simps)
  moreover have "map_of (fm_table (fm_replaced new_key m u h k0 c0 xs ys)) = (map_of (fm_table m))(u \<mapsto> (?k', ?c))"
    unfolding fm_replaced_def by (simp only: fixed_memory.simps t(2) [symmetric] update_conv')
  ultimately show thesis using that t(1) ne(2) by blast
qed

lemma fm_entries_apart:
  assumes inv: "fm_inv m" and "map_of (fm_table m) u = Some (k0, c0)" and "map_of (fm_table m) v = Some (k, c)" and "v \<noteq> u"
  shows "c \<noteq> c0"
proof -
  have mem: "(v, k, c) \<in> set (fm_table m)" "(u, k0, c0) \<in> set (fm_table m)" using assms(2,3) map_of_SomeD by fast+
  have "inj_on entry_host (set (fm_table m))" using inv by (simp add: fm_inv_def distinct_map)
  then show ?thesis using inj_onD [of entry_host "set (fm_table m)" "(v, k, c)" "(u, k0, c0)"] mem assms(4) by auto
qed

text \<open>In a table that keeps its key.\<close>

lemma fm_replaced_inv:
  assumes inv: "fm_inv m" and t: "fm_table m = xs @ (u, k0, c0) # ys" and ne: "c0 \<noteq> Suc (fm_next m)"
  shows "fm_inv (fm_replaced False m u h k0 c0 xs ys)"
proof -
  let ?m = "fm_replaced False m u h k0 c0 xs ys" and ?c = "Suc (fm_next m)"
  have "dom (fm_hosts ?m) = entry_host ` set (fm_table ?m)"
  proof -
    have "c0 \<notin> entry_host ` set xs" "c0 \<notin> entry_host ` set ys"
      and "dom (fm_hosts m) = entry_host ` set xs \<union> insert c0 (entry_host ` set ys)"
      using inv by (simp_all add: fm_inv_def t image_Un)
    moreover have "dom (fm_hosts ?m) = insert ?c (dom (fm_hosts m)) - {c0}" using ne by (auto simp: fm_replaced_def)
    ultimately show ?thesis using ne by (simp add: fm_replaced_def image_Un) blast
  qed
  moreover have "?c \<notin> entry_host ` set (fm_table m)" using fm_fresh(4) [OF inv] by simp
  ultimately show ?thesis using inv unfolding fm_inv_def fm_replaced_def t by (simp add: image_Un)
qed

lemma fm_add_old:
  assumes inv: "fm_inv m" and u: "map_of (fm_table m) u = Some (k0, c0)"
  shows "\<exists>m'. fm_add False m (Some u) (Some h) = Inr (True, m') \<and> fm_inv m' \<and>
    fm_view m' = (fm_view m)(u \<mapsto> h) \<and> fm_count m' = fm_count m"
proof -
  let ?c = "Suc (fm_next m)"
  obtain xs ys where t: "fm_table m = xs @ (u, k0, c0) # ys"
      "fm_add False m (Some u) (Some h) = Inr (True, fm_replaced False m u h k0 c0 xs ys)"
      "map_of (fm_table (fm_replaced False m u h k0 c0 xs ys)) = (map_of (fm_table m))(u \<mapsto> (k0, ?c))" "c0 \<noteq> ?c"
    using fm_add_known [OF inv u, of False h] by auto
  let ?m = "fm_replaced False m u h k0 c0 xs ys"
  have hosts: "fm_hosts ?m = (fm_hosts m)(?c \<mapsto> h, c0 := None)" by (simp add: fm_replaced_def)
  have "fm_view ?m v = ((fm_view m)(u \<mapsto> h)) v" for v
  proof (cases "v = u \<or> map_of (fm_table m) v = None")
    case True
    then show ?thesis using t(3,4) hosts by (auto simp: fm_view_def)
  next
    case False
    then obtain k c where kc: "map_of (fm_table m) v = Some (k, c)" by auto
    have "c \<noteq> c0" using fm_entries_apart [OF inv u kc] False by simp
    moreover have "c \<noteq> ?c" using fm_entry [OF inv kc] fm_fresh(2) [OF inv, of ?c] by auto
    ultimately show ?thesis using kc False t(3) hosts by (simp add: fm_view_def)
  qed
  then show ?thesis using t(2) fm_replaced_inv [OF inv t(1,4)] by (auto simp: fm_replaced_def)
qed

section \<open>Properties\<close>



text \<open>With a table whose \<open>put\<close> takes the new key, adding a known user again leaves a freed key in the
  table: the next lookup of that user reads freed memory, and destroying the table frees the key a
  second time.\<close>

theorem duplicate_user_leaves_freed_key:
  assumes "fm_inv m" and "fm_view m u \<noteq> None"
  shows "\<exists>m'. fm_add True m (Some u) (Some h) = Inr (True, m') \<and> fm_lookup m' (Some u) = Inl Use_After_Free \<and>
    fixed_pool_destroy m' = Inl Use_After_Free"
proof -
  let ?k = "fm_next m" and ?c = "Suc (fm_next m)"
  obtain k0 c0 where u: "map_of (fm_table m) u = Some (k0, c0)"
    using assms(2) by (cases "map_of (fm_table m) u") (auto simp: fm_view_def)
  obtain xs ys where t: "fm_table m = xs @ (u, k0, c0) # ys"
      "fm_add True m (Some u) (Some h) = Inr (True, fm_replaced True m u h k0 c0 xs ys)"
      "map_of (fm_table (fm_replaced True m u h k0 c0 xs ys)) = (map_of (fm_table m))(u \<mapsto> (?k, ?c))" "c0 \<noteq> ?c"
    using fm_add_known [OF assms(1) u, of True h] by auto
  let ?m = "fm_replaced True m u h k0 c0 xs ys"
  have m: "fm_keys ?m = fm_keys m" "fm_hosts ?m = (fm_hosts m)(?c \<mapsto> h, c0 := None)" "fm_table ?m = xs @ (u, ?k, ?c) # ys"
    by (simp_all add: fm_replaced_def)
  have fresh: "fm_keys m ?k = None" "?c \<notin> entry_host ` set xs"
    using fm_fresh(1,4) [OF assms(1)] by (simp_all add: t(1) image_Un)
  have look: "fm_lookup ?m (Some u) = Inl Use_After_Free"
    using t(3) fresh(1) m(1) by (simp add: fm_lookup_def store_simps)
  have xs: "distinct (map entry_key xs)" "distinct (map entry_host xs)" "entry_key ` set xs \<subseteq> dom (fm_keys ?m)"
    "entry_host ` set xs \<subseteq> dom (fm_hosts ?m)"
    using assms(1) by (auto simp: fm_inv_def t(1) m)
  obtain m1 where m1: "foldR fm_free_entry xs ?m = Inr m1" "dom (fm_keys m1) = dom (fm_keys m) - entry_key ` set xs"
      "dom (fm_hosts m1) = dom (fm_hosts ?m) - entry_host ` set xs"
    using fm_free_entries [OF xs] m(1) by auto
  have "?c \<in> dom (fm_hosts m1)" using t(4) fresh(2) unfolding m1(3) m(2) by simp
  moreover have "?k \<notin> dom (fm_keys m1)" using fresh(1) unfolding m1(2) by (simp add: domIff)
  ultimately have "fm_free_entry (u, ?k, ?c) m1 = Inl Use_After_Free"
    by (auto simp: fm_free_entry_def store_simps domIff)
  then have "fixed_pool_destroy ?m = Inl Use_After_Free" using m1(1) m(3) by (simp add: fixed_pool_destroy_def foldR_append)
  then show ?thesis using t(2) look by blast
qed

theorem duplicate_user_leaves_freed_key_witness:
  "\<exists>m m'. fm_add True fm_create (Some ''vip'') (Some \<lparr>h_family = AF_INET, h_address = [1, 2, 3, 4]\<rparr>) = Inr (True, m) \<and>
    fm_add True m (Some ''vip'') (Some \<lparr>h_family = AF_INET, h_address = [1, 2, 3, 5]\<rparr>) = Inr (True, m') \<and>
    fm_lookup m' (Some ''vip'') = Inl Use_After_Free"
proof -
  obtain m where m: "fm_add True fm_create (Some ''vip'') (Some \<lparr>h_family = AF_INET, h_address = [1, 2, 3, 4]\<rparr>) = Inr (True, m)"
      "fm_inv m" "fm_view m ''vip'' \<noteq> None"
    using fm_add_new [OF fm_create_inv, of "''vip''" True "\<lparr>h_family = AF_INET, h_address = [1, 2, 3, 4]\<rparr>"]
    by (auto simp: fm_create_def)
  from duplicate_user_leaves_freed_key [OF m(2,3)] show ?thesis using m(1) by blast
qed

end
