(* ===== verification/Dynamic_Pool_Memory.thy ===== *)
theory Dynamic_Pool_Memory
  imports Dynamic_Pool
begin

text \<open>
  The memory of the dynamic pool: \<open>dynamic_pool_create\<close> allocates the object, the clones of its endpoints
  and the bitmap, and gives everything back when the bitmap cannot be had; \<open>dynamic_pool_destroy\<close> frees
  the four of them and the mutex.  \<open>Dynamic_Pool\<close> has the same pool as a value, which is what
  \<open>pool_value\<close> reads out of the memory.
\<close>

section \<open>State and operations\<close>

record pool_object =
  po_start :: nat
  po_end :: nat
  po_start_h :: u32
  po_end_h :: u32
  po_capacity :: u32
  po_bits :: "nat option"
  po_used :: u32

record pool_memory =
  pm_hosts :: "host store"
  pm_bits :: "u8 list store"
  pm_mutexes :: "unit store"
  pm_pools :: "pool_object store"
  pm_next :: nat

text \<open>\<open>free(NULL)\<close> does nothing.\<close>

definition free_bits :: "pool_memory \<Rightarrow> nat option \<Rightarrow> pool_memory res" where
  "free_bits m b =
     (case b of None \<Rightarrow> Inr m | Some a \<Rightarrow> bindR (free_obj (pm_bits m) a) (\<lambda>bits. Inr (m\<lparr>pm_bits := bits\<rparr>)))"

definition host_destroy :: "pool_memory \<Rightarrow> nat \<Rightarrow> pool_memory res" where
  "host_destroy m a = bindR (free_obj (pm_hosts m) a) (\<lambda>hosts. Inr (m\<lparr>pm_hosts := hosts\<rparr>))"

text \<open>Both ends of a pool's life free the endpoints and the object, in this order.\<close>

definition free_pool :: "pool_memory \<Rightarrow> nat \<Rightarrow> pool_object \<Rightarrow> pool_memory res" where
  "free_pool m p this =
     bindR (host_destroy m (po_start this)) (\<lambda>m.
     bindR (host_destroy m (po_end this)) (\<lambda>m.
     bindR (free_obj (pm_pools m) p) (\<lambda>pools. Inr (m\<lparr>pm_pools := pools\<rparr>))))"

definition pm_create :: "bool \<Rightarrow> pool_memory \<Rightarrow> host option \<Rightarrow> host option \<Rightarrow> (nat option \<times> pool_memory) res" where
  "pm_create calloc_ok m start end =
     (case (start, end) of
        (Some hs, Some he) \<Rightarrow>
          if h_family hs \<noteq> AF_INET \<or> h_family he \<noteq> AF_INET then Inr (None, m)
          else let s = host_to_u32 hs; e = host_to_u32 he in
            if e < s then Inr (None, m)
            else let cap = e - s + 1; p = pm_next m; a = p + 1; b = p + 2; c = p + 3;
                this = \<lparr>po_start = a, po_end = b, po_start_h = s, po_end_h = e, po_capacity = cap,
                  po_bits = if calloc_ok then Some c else None, po_used = 0\<rparr>;
                m1 = m\<lparr>pm_hosts := (pm_hosts m)(a \<mapsto> hs, b \<mapsto> he),
                  pm_bits := if calloc_ok then (pm_bits m)(c \<mapsto> replicate (unat ((cap + 7) div 8)) 0) else pm_bits m,
                  pm_pools := (pm_pools m)(p \<mapsto> this), pm_next := p + 4\<rparr> in
              if po_bits this = None then bindR (free_pool m1 p this) (\<lambda>m2. Inr (None, m2))
              else Inr (Some p, m1\<lparr>pm_mutexes := (pm_mutexes m1)(p \<mapsto> ())\<rparr>)
      | _ \<Rightarrow> Inr (None, m))"

definition dynamic_pool_destroy :: "pool_memory \<Rightarrow> nat \<Rightarrow> pool_memory res" where
  "dynamic_pool_destroy m p =
     bindR (deref (pm_pools m) p) (\<lambda>this.
     bindR (free_obj (pm_mutexes m) p) (\<lambda>mutexes.
     bindR (free_bits (m\<lparr>pm_mutexes := mutexes\<rparr>) (po_bits this)) (\<lambda>m1. free_pool m1 p this)))"

text \<open>The value of a pool.  Its methods read the object, and write the bitmap and the counter.\<close>

definition pool_value :: "pool_memory \<Rightarrow> nat \<Rightarrow> dynamic_pool res" where
  "pool_value m p =
     bindR (deref (pm_pools m) p) (\<lambda>this.
     bindR (deref (pm_hosts m) (po_start this)) (\<lambda>hs.
     bindR (deref (pm_hosts m) (po_end this)) (\<lambda>he.
     bindR (nonnull (po_bits this)) (\<lambda>b.
     bindR (deref (pm_bits m) b) (\<lambda>bs.
       Inr \<lparr>dp_start = hs, dp_end = he, dp_start_h = po_start_h this, dp_end_h = po_end_h this,
            dp_capacity = po_capacity this, dp_bits = bs, dp_used = po_used this\<rparr>)))))"

definition pool_write :: "pool_memory \<Rightarrow> nat \<Rightarrow> dynamic_pool \<Rightarrow> pool_memory res" where
  "pool_write m p d =
     bindR (deref (pm_pools m) p) (\<lambda>this.
     bindR (nonnull (po_bits this)) (\<lambda>b.
       Inr (m\<lparr>pm_bits := (pm_bits m)(b \<mapsto> dp_bits d), pm_pools := (pm_pools m)(p \<mapsto> this\<lparr>po_used := dp_used d\<rparr>)\<rparr>)))"

definition pm_acquire :: "('u, 's, 'f) strongswan \<Rightarrow> pool_memory \<Rightarrow> nat \<Rightarrow> (host option \<times> pool_memory) res" where
  "pm_acquire L m p =
     bindR (pool_value m p) (\<lambda>d. bindR (dp_acquire L d) (\<lambda>(ip, d'). bindR (pool_write m p d') (\<lambda>m'. Inr (ip, m'))))"

definition pm_release :: "host option \<Rightarrow> pool_memory \<Rightarrow> nat \<Rightarrow> pool_memory res" where
  "pm_release ip m p = bindR (pool_value m p) (\<lambda>d. bindR (dp_release d ip) (pool_write m p))"

section \<open>The pool in the memory\<close>

text \<open>Addresses are handed out in order, so that those from \<open>pm_next\<close> on are unused.\<close>

definition memory_fresh :: "pool_memory \<Rightarrow> bool" where
  "memory_fresh m \<longleftrightarrow> (\<forall>a \<ge> pm_next m.
     pm_hosts m a = None \<and> pm_bits m a = None \<and> pm_mutexes m a = None \<and> pm_pools m a = None)"

text \<open>The memory that holds one pool more, with the value \<open>d\<close>, at the next address.\<close>

definition with_pool :: "pool_memory \<Rightarrow> dynamic_pool \<Rightarrow> pool_memory" where
  "with_pool m d =
     (let p = pm_next m in
      \<lparr>pm_hosts = (pm_hosts m)(p + 1 \<mapsto> dp_start d, p + 2 \<mapsto> dp_end d),
       pm_bits = (pm_bits m)(p + 3 \<mapsto> dp_bits d), pm_mutexes = (pm_mutexes m)(p \<mapsto> ()),
       pm_pools = (pm_pools m)(p \<mapsto> \<lparr>po_start = p + 1, po_end = p + 2, po_start_h = dp_start_h d,
         po_end_h = dp_end_h d, po_capacity = dp_capacity d, po_bits = Some (p + 3), po_used = dp_used d\<rparr>),
       pm_next = p + 4\<rparr>)"

lemma with_pool_value: "pool_value (with_pool m d) (pm_next m) = Inr d"
  by (simp add: pool_value_def with_pool_def Let_def store_simps)

lemma with_pool_write:
  "pool_write (with_pool m d) (pm_next m) (d\<lparr>dp_bits := bs, dp_used := n\<rparr>) =
    Inr (with_pool m (d\<lparr>dp_bits := bs, dp_used := n\<rparr>))"
  by (simp add: pool_write_def with_pool_def Let_def store_simps)

lemma create_with_pool:
  assumes "memory_fresh m" and "dynamic_pool_create ok start end = Some d"
  shows "pm_create ok m start end = Inr (Some (pm_next m), with_pool m d)"
  using assms(2)
  by (auto simp: dynamic_pool_create_def pm_create_def with_pool_def Let_def split: option.splits if_splits)

text \<open>A failing construction leaves nothing behind.\<close>

lemma create_without_pool:
  assumes "memory_fresh m" and "dynamic_pool_create ok start end = None"
  shows "\<exists>n. pm_create ok m start end = Inr (None, m\<lparr>pm_next := n\<rparr>)"
proof -
  have same: "f(a := None) = f" if "f a = None" for f :: "nat \<Rightarrow> 'x option" and a using that by (rule fun_upd_idem)
  have none: "pm_hosts m (Suc (pm_next m)) = None" "pm_hosts m (Suc (Suc (pm_next m))) = None" "pm_pools m (pm_next m) = None"
    using assms(1) by (simp_all add: memory_fresh_def)
  have keep: "\<exists>n. m = m\<lparr>pm_next := n\<rparr>" by (rule exI [of _ "pm_next m"]) simp
  show ?thesis
    using assms(2) keep
    by (auto simp: dynamic_pool_create_def pm_create_def free_pool_def host_destroy_def Let_def store_simps
        none same fun_upd_twist [of "Suc (pm_next m)"] split: option.splits if_splits)
qed

lemma destroy_with_pool:
  assumes "memory_fresh m"
  shows "dynamic_pool_destroy (with_pool m d) (pm_next m) = Inr (m\<lparr>pm_next := pm_next m + 4\<rparr>)"
proof -
  have same: "f(a := None) = f" if "f a = None" for f :: "nat \<Rightarrow> 'x option" and a using that by (rule fun_upd_idem)
  have none: "pm_hosts m (Suc (pm_next m)) = None" "pm_hosts m (Suc (Suc (pm_next m))) = None" "pm_pools m (pm_next m) = None"
      "pm_bits m (pm_next m + 3) = None" "pm_mutexes m (pm_next m) = None"
    using assms by (simp_all add: memory_fresh_def)
  show ?thesis
    by (simp add: dynamic_pool_destroy_def with_pool_def free_pool_def free_bits_def host_destroy_def Let_def
        store_simps none same fun_upd_twist [of "Suc (pm_next m)"])
qed

section \<open>The methods in the memory\<close>

text \<open>The methods change the bits and the counter only.\<close>

definition refilled :: "dynamic_pool \<Rightarrow> dynamic_pool \<Rightarrow> bool" where
  "refilled d d' \<longleftrightarrow> (\<exists>bs n. d' = d\<lparr>dp_bits := bs, dp_used := n\<rparr>)"

lemma refilled_intros [simp]:
  "refilled d d" "refilled d (d\<lparr>dp_bits := bs\<rparr>)" "refilled d (d\<lparr>dp_bits := bs, dp_used := n\<rparr>)"
proof -
  have "d = d\<lparr>dp_bits := dp_bits d, dp_used := dp_used d\<rparr>" by simp
  then show "refilled d d" unfolding refilled_def by blast
  have "d\<lparr>dp_bits := bs\<rparr> = d\<lparr>dp_bits := bs, dp_used := dp_used d\<rparr>" by simp
  then show "refilled d (d\<lparr>dp_bits := bs\<rparr>)" unfolding refilled_def by blast
qed (auto simp: refilled_def)

lemma dp_acquire_fields: "dp_acquire L d = Inr (r, d') \<Longrightarrow> refilled d d'"
  by (auto simp: dp_acquire_def res_iff split: if_splits option.splits)

lemma dp_release_fields: "dp_release d ip = Inr d' \<Longrightarrow> refilled d d'"
  by (auto simp: dp_release_def Let_def res_iff split: if_splits option.splits)

lemma pm_acquire_with_pool:
  "pm_acquire L (with_pool m d) (pm_next m) = bindR (dp_acquire L d) (\<lambda>(r, d'). Inr (r, with_pool m d'))"
proof (cases "dp_acquire L d")
  case (Inr r)
  then obtain ip bs n where r: "r = (ip, d\<lparr>dp_bits := bs, dp_used := n\<rparr>)"
    using dp_acquire_fields [of L d "fst r" "snd r"] by (cases r) (auto simp: refilled_def)
  show ?thesis by (simp add: pm_acquire_def with_pool_value with_pool_write Inr r)
qed (simp add: pm_acquire_def with_pool_value)

lemma pm_release_with_pool:
  "pm_release ip (with_pool m d) (pm_next m) = bindR (dp_release d ip) (\<lambda>d'. Inr (with_pool m d'))"
proof (cases "dp_release d ip")
  case (Inr d')
  then obtain bs n where d': "d' = d\<lparr>dp_bits := bs, dp_used := n\<rparr>" using dp_release_fields unfolding refilled_def by blast
  show ?thesis by (simp add: pm_release_def with_pool_value with_pool_write Inr d')
qed (simp add: pm_release_def with_pool_value)

text \<open>A use of the pool, in the memory and as a value.\<close>

datatype pool_call = Take | Give "host option"

definition pm_call :: "('u, 's, 'f) strongswan \<Rightarrow> nat \<Rightarrow> pool_call \<Rightarrow> pool_memory \<Rightarrow> pool_memory res" where
  "pm_call L p c m =
     (case c of Take \<Rightarrow> bindR (pm_acquire L m p) (\<lambda>(ip, m'). Inr m') | Give ip \<Rightarrow> pm_release ip m p)"

definition dp_call :: "('u, 's, 'f) strongswan \<Rightarrow> pool_call \<Rightarrow> dynamic_pool \<Rightarrow> dynamic_pool res" where
  "dp_call L c d = (case c of Take \<Rightarrow> bindR (dp_acquire L d) (\<lambda>(ip, d'). Inr d') | Give ip \<Rightarrow> dp_release d ip)"

lemma pm_call_with_pool: "pm_call L (pm_next m) c (with_pool m d) = bindR (dp_call L c d) (\<lambda>d'. Inr (with_pool m d'))"
  by (cases c; cases "dp_acquire L d") (auto simp: pm_call_def dp_call_def pm_acquire_with_pool pm_release_with_pool)

lemma pm_calls_with_pool:
  "foldR (pm_call L (pm_next m)) cs (with_pool m d) = bindR (foldR (dp_call L) cs d) (\<lambda>d'. Inr (with_pool m d'))"
proof (induction cs arbitrary: d)
  case (Cons c cs)
  then show ?case by (cases "dp_call L c d") (simp_all add: pm_call_with_pool)
qed simp

interpretation uses: call_service "dp_call L" "\<lambda>d. strongswan_ok L \<and> dp_inv d" "\<lambda>_. True"
    "\<lambda>d d'. dp_universe d' = dp_universe d"
  for L :: "('u, 's, 'f) strongswan"
proof (unfold_locales, goal_cases)
  case (1 d c)
  then obtain r d1 d2 where "dp_acquire L d = Inr (r, d1)" "dp_inv d1 \<and> dp_universe d1 = dp_universe d"
      "\<And>ip. \<exists>d2. dp_release d ip = Inr d2 \<and> dp_inv d2 \<and> dp_universe d2 = dp_universe d"
    using dp.take_total [OF 1(1)] dp.take_keeps [OF 1(1)] dp_release_law [of d] by metis
  then show ?case using 1(1) by (cases c) (auto simp: dp_call_def)
qed simp_all

text \<open>
  The life of a pool: a construction that fails leaves nothing behind; one that succeeds leaves exactly
  the pool, the methods in the memory do what they do on the value, and after any uses the destruction
  frees all that was allocated.  A second destruction would use freed memory.
\<close>

lemma dynamic_pool_memory:
  assumes "strongswan_ok L" and "memory_fresh m"
  shows "dynamic_pool_create ok start end = None \<Longrightarrow> \<exists>n. pm_create ok m start end = Inr (None, m\<lparr>pm_next := n\<rparr>)"
    and "dynamic_pool_create ok start end = Some d \<Longrightarrow> dp_fits d \<Longrightarrow>
      \<exists>m1 d' m2. pm_create ok m start end = Inr (Some (pm_next m), m1) \<and>
        foldR (dp_call L) cs d = Inr d' \<and> foldR (pm_call L (pm_next m)) cs m1 = Inr m2 \<and>
        pool_value m2 (pm_next m) = Inr d' \<and>
        dynamic_pool_destroy m2 (pm_next m) = Inr (m\<lparr>pm_next := pm_next m + 4\<rparr>) \<and>
        dynamic_pool_destroy (m\<lparr>pm_next := pm_next m + 4\<rparr>) (pm_next m) = Inl Use_After_Free"
proof -
  assume "dynamic_pool_create ok start end = None"
  then show "\<exists>n. pm_create ok m start end = Inr (None, m\<lparr>pm_next := n\<rparr>)" by (rule create_without_pool [OF assms(2)])
next
  assume d: "dynamic_pool_create ok start end = Some d" and fits: "dp_fits d"
  have "dp_inv d" using dp_created [OF d fits] by simp
  then obtain d' where d': "foldR (dp_call L) cs d = Inr d'" using uses.run_law [of L d cs] assms(1) by (auto simp: list_all_iff)
  have "foldR (pm_call L (pm_next m)) cs (with_pool m d) = Inr (with_pool m d')"
    by (simp add: pm_calls_with_pool d')
  moreover have "dynamic_pool_destroy (m\<lparr>pm_next := pm_next m + 4\<rparr>) (pm_next m) = Inl Use_After_Free"
    using assms(2) by (simp add: dynamic_pool_destroy_def memory_fresh_def store_simps)
  ultimately show "\<exists>m1 d' m2. pm_create ok m start end = Inr (Some (pm_next m), m1) \<and>
        foldR (dp_call L) cs d = Inr d' \<and> foldR (pm_call L (pm_next m)) cs m1 = Inr m2 \<and>
        pool_value m2 (pm_next m) = Inr d' \<and>
        dynamic_pool_destroy m2 (pm_next m) = Inr (m\<lparr>pm_next := pm_next m + 4\<rparr>) \<and>
        dynamic_pool_destroy (m\<lparr>pm_next := pm_next m + 4\<rparr>) (pm_next m) = Inl Use_After_Free"
    using create_with_pool [OF assms(2) d] d' with_pool_value destroy_with_pool [OF assms(2)] by blast
qed

section \<open>The property\<close>

text \<open>C26: \<open>dynamic_pool_create\<close> on IPv4 endpoints in order, whose range leaves room for the rounding
  \<open>(cap + 7) / 8\<close>, makes a well-formed empty pool of exactly the addresses between them, or gives
  everything back when the bitmap cannot be allocated.  Whatever is then acquired and released, no call
  faults, the pool stays well-formed over the same addresses, the memory holds the value that the calls
  compute, and \<open>dynamic_pool_destroy\<close> frees all that was allocated; a second one would use freed memory.\<close>

theorem pool_life_frees_everything:
  assumes "strongswan_ok L" and "memory_fresh m" and "h_family hs = AF_INET" and "h_family he = AF_INET"
    and "host_to_u32 hs \<le> host_to_u32 he" and "unat (host_to_u32 he - host_to_u32 hs) + 8 < 2 ^ 32"
  shows "\<exists>p d d' m1 m2 m3. pm_create True m (Some hs) (Some he) = Inr (Some p, m1) \<and> pool_value m1 p = Inr d \<and>
    dp_inv d \<and> dp_allocated d = {} \<and> dp_universe d = {host_to_u32 hs..host_to_u32 he} \<and>
    foldR (pm_call L p) cs m1 = Inr m2 \<and> pool_value m2 p = Inr d' \<and> foldR (dp_call L) cs d = Inr d' \<and>
    dp_inv d' \<and> dp_universe d' = dp_universe d \<and>
    dynamic_pool_destroy m2 p = Inr m3 \<and> dynamic_pool_destroy m3 p = Inl Use_After_Free \<and>
    (\<exists>n. m3 = m\<lparr>pm_next := n\<rparr>) \<and> (\<exists>n. pm_create False m (Some hs) (Some he) = Inr (None, m\<lparr>pm_next := n\<rparr>))"
proof -
  obtain d where d: "dynamic_pool_create True (Some hs) (Some he) = Some d" "dp_inv d" "dp_allocated d = {}"
      "dp_universe d = {host_to_u32 hs..host_to_u32 he}"
    using dp_create_ok [OF assms(3-6)] by blast
  have "dp_fits d" using d(2) by (simp add: dp_inv_def)
  then obtain m1 d' m2 where run: "pm_create True m (Some hs) (Some he) = Inr (Some (pm_next m), m1)"
      "foldR (dp_call L) cs d = Inr d'" "foldR (pm_call L (pm_next m)) cs m1 = Inr m2" "pool_value m2 (pm_next m) = Inr d'"
      "dynamic_pool_destroy m2 (pm_next m) = Inr (m\<lparr>pm_next := pm_next m + 4\<rparr>)"
      "dynamic_pool_destroy (m\<lparr>pm_next := pm_next m + 4\<rparr>) (pm_next m) = Inl Use_After_Free"
    using dynamic_pool_memory(2) [OF assms(1,2) d(1), of cs] by blast
  have "pool_value m1 (pm_next m) = Inr d"
    using create_with_pool [OF assms(2) d(1)] run(1) with_pool_value [of m d] by simp
  moreover have "dp_inv d' \<and> dp_universe d' = dp_universe d"
    using uses.run_law [of L d cs] assms(1) d(2) run(2) by (auto simp: list_all_iff)
  moreover have "dynamic_pool_create False (Some hs) (Some he) = None" by (simp add: dynamic_pool_create_def Let_def)
  ultimately show ?thesis
    using run d(2-4) dynamic_pool_memory(1) [OF assms(1,2), of False "Some hs" "Some he"] by blast
qed

theorem pool_life_frees_everything_witness:
  "\<exists>p m1 m2 m3 n. pm_create True \<lparr>pm_hosts = Map.empty, pm_bits = Map.empty, pm_mutexes = Map.empty,
      pm_pools = Map.empty, pm_next = 0\<rparr> (Some (demo_host 100)) (Some (demo_host 102)) = Inr (Some p, m1) \<and>
    foldR (pm_call demo_lib p) [Take, Take, Give (Some (demo_host 100)), Take] m1 = Inr m2 \<and>
    dynamic_pool_destroy m2 p = Inr m3 \<and>
    m3 = \<lparr>pm_hosts = Map.empty, pm_bits = Map.empty, pm_mutexes = Map.empty, pm_pools = Map.empty, pm_next = n\<rparr>"
proof -
  let ?m = "\<lparr>pm_hosts = Map.empty, pm_bits = Map.empty, pm_mutexes = Map.empty, pm_pools = Map.empty, pm_next = 0\<rparr>"
  have "memory_fresh ?m" by (simp add: memory_fresh_def)
  from pool_life_frees_everything [OF demo_lib_ok this, of "demo_host 100" "demo_host 102"
      "[Take, Take, Give (Some (demo_host 100)), Take]"]
  show ?thesis by auto
qed

end
