(* ===== verification/Spec2Isabelle.thy ===== *)
theory Spec2Isabelle
  imports Locked_Races Configured_Plugin Fixed_Pool_Memory Dynamic_Pool_Memory
begin

text \<open>
  A verification development for CUPP, the \<open>user-policy\<close> plugin of strongSwan's charon (\<open>plugin/src\<close>): it
  assigns virtual addresses to the users of a VPN, fixed ones from a policy file and dynamic ones from
  a pool, and takes them back when connections end.

  \<^bold>\<open>The program and the theories.\<close>  charon asks the plugin for an address when an IKE_SA comes up
  (\<open>acquire_address\<close>), gives it back (\<open>release_address\<close>, and \<open>ike_updown\<close> as a second way), a periodic job
  sweeps leases whose IKE_SA has vanished, and a reload exchanges the policy while all this goes on.

  \<^item> \<open>Prelude\<close>: results with faults (use after free, NULL, out of bounds), the store of heap objects, C
    strings.  \<open>Strongswan\<close>: the interface to the library as a record of functions, what the code relies
    on as the contract \<open>strongswan_ok\<close> (the laws of \<open>hashtable_t\<close> for compatible hash and equality, and
    \<open>host_create_from_chunk\<close>), and one instance, \<open>demo_lib\<close>, on which closed examples are evaluated.
  \<^item> \<open>Hash_Keys\<close>: the hash and equality functions of \<open>fixed_pool.c\<close> and \<open>session_manager.c\<close>.
  \<^item> \<open>Dynamic_Pool\<close> (\<open>dynamic_pool.c\<close>): the bitmap over the range of addresses, bytes and 32-bit words as in
    the code; \<open>dp_allocated\<close> is the set of addresses a pool has marked.  \<open>Dynamic_Pool_Memory\<close>: the object,
    its endpoints, bitmap and mutex in memory, and \<open>dynamic_pool_destroy\<close>.
  \<^item> \<open>Fixed_Pool\<close> (\<open>fixed_pool.c\<close>): the table of fixed addresses as a map; \<open>Fixed_Pool_Memory\<close>: the same
    operations with the memory of keys and hosts, and \<open>fixed_pool_destroy\<close>.
  \<^item> \<open>Yaml_Loader\<close> (\<open>yaml_loader.c\<close>): the state machine over the events of libyaml.
  \<^item> \<open>Policy_Engine\<close> (\<open>policy_engine.c\<close>): snapshots, lookups, hot reload, and the race of the two.
  \<^item> \<open>Identity_Manager\<close> (\<open>identity_manager.c\<close>): the user name of an IKE_SA.
  \<^item> \<open>Session_Manager\<close> (\<open>session_manager.c\<close>): the lease table with its two indexes over a store of leases;
    its specification is a pair of maps (\<open>spec_bind\<close>, \<open>spec_migrate\<close>, \<open>spec_unbind\<close>).
  \<^item> \<open>Ip_Allocator\<close> (\<open>ip_allocator.c\<close>): acquire, release and sweep over lease table, pool and policy, and
    the invariant \<open>al_inv\<close>; \<open>Allocator_Properties\<close>: what follows for calls one after the other.
  \<^item> \<open>Allocator_Race\<close>, \<open>Race_Properties\<close>: the same calls interleaved by threads, as an implementation of
    \<open>Address_Service\<close>, the abstract service whose calls take effect at once.
  \<^item> \<open>Event_Listener\<close> (\<open>event_listener.c\<close>), \<open>Plugin\<close> (\<open>plugin.c\<close>): the listener, the reference count, the sweep
    job, configuration and construction; \<open>Plugin_Life\<close>, \<open>Plugin_Properties\<close>: the life of the plugin in
    charon.  \<open>Configured_Plugin\<close>: from the policy file through all of these to the addresses.
  \<^item> \<open>Lock_Programs\<close>: programs that lock, unlock and change a shared state, why threads that respect
    an order of the locks do not deadlock, and what the steps of others cannot change meanwhile.
    \<open>Lock_Logic\<close>: a logic for such programs, with an invariant over the shared state and what each thread
    owns (\<open>safe\<close>), and what it gives for all interleavings (\<open>governed\<close>).
  \<^item> \<open>Locked_Calls\<close>: every function of the code that takes a mutex as such a program, lock by lock
    (\<open>acquire_address_p\<close> is \<open>acquire_address\<close>, and so on).  \<open>Lock_Properties\<close>: they do not deadlock, what a
    lock protects changes only under it (\<open>unchanged\<close> says which data belong to which lock), and run
    alone they are the functions of the other theories.
  \<^item> \<open>Ownership\<close>, \<open>Locked_Safety\<close>, \<open>Safety_Properties\<close>: the locked programs are safe in every interleaving of
    their single steps.  \<open>Locked_Races\<close>: runs of them in which a sweep or a lookup finds freed memory, or a
    sweep takes a renewed lease.

  \<^bold>\<open>How the model corresponds to the code.\<close>  A definition has the name of its function, with a prefix
  (\<open>dp_\<close>, \<open>fp_\<close>, \<open>pe_\<close>, \<open>plugin_\<close>) where several files use one name.  A private struct is a record; a pointer
  whose target may be freed is an address in a store, so that a stale pointer is a fault; a pointer that
  may be NULL is an option.  Answers of the memory allocator, the clock (\<open>now\<close>), the IKE_SAs that are
  alive, the files and the parser's events are arguments.  Machine integers keep their width; time is
  \<open>int\<close>, and so is the reference count, which is bounded by the number of jobs.  Addresses of freed
  objects are never used again.

  \<^bold>\<open>What is shown.\<close>  Pool, fixed table, loader, engine, identity and lease table: their behaviour on every
  branch, with the invariant each operation keeps.  Allocator: \<open>al_inv\<close> says that the lease table is
  coherent, that no two users hold one dynamic address, and that the marks of the pool are exactly the
  dynamic addresses held; every sequence of calls keeps it, and the properties of acquire, release and
  sweep are read off the two maps of the lease table.  The locales state what a client relies on, and are
  interpreted on the model's own definitions: \<open>address_pool\<close> and \<open>counted_pool\<close> (the dynamic pool),
  \<open>user_table\<close> (the fixed table), \<open>policy_source\<close> (the engine), \<open>lease_table\<close> (the sessions), and
  \<open>call_service\<close> with \<open>steady_service\<close> for runs of calls of a pool and of the allocator; the allocator
  interprets the latter twice, for the leases that follow a policy and for those that also honour it.

  \<^bold>\<open>Concurrency.\<close>  Two models say what happens when calls overlap.  In \<open>Locked_Calls\<close> the mutexes of the code
  and the checked-out IKE_SAs are locks, taken in the order sweep lock, IKE_SA, allocator, and then one
  of lease table, pool, reload and reference count, which are never held together; a call for an IKE_SA
  is made while its thread has it checked out.  A thread takes one step at a time: it locks, unlocks,
  or makes one access to the shared state, and any thread may be next.  The threads make any calls:
  acquires, releases, up and down events, sweep jobs, reloads, the unregistering, and changes of the
  count of references.  They never deadlock and every run ends.  The invariant (\<open>calls_inv\<close>) says that
  the lease table is coherent and that each marked address of the pool is in one lease or owned by one
  thread, from the unlink of its lease to the clearing of its bit, or from the pool to the new lease;
  likewise an unlinked lease and a replaced snapshot have one owner, who frees them.  It holds in all
  interleavings, so no step faults, with two exceptions that are those of the code and are shown to
  happen: the sweep goes on with plain pointers to leases after it has left the mutex, and a lookup
  reads the policy without a lock while a reload may destroy it.  The sweep also reads the id of a lease
  twice, and releases a lease that was renewed in between; the invariant allows that.

  In \<open>Allocator_Race\<close> a thread runs coarser phases: what the allocator's lock protects is one phase, the
  steps of a release and of a sweep outside the lock are phases of their own.  There every run is one
  of the abstract service, in which an unlinked address is on its way back until it is cleared.  That a
  phase may be taken as one step rests on the locks: while one is held, the others leave the data it
  protects alone (\<open>Lock_Properties\<close>).  In \<open>Plugin_Life\<close> a call of the allocator is one step, and the steps
  are those of the loader, the job queue, the attribute manager and the bus.  The steps of a lookup that
  races with a reload, with the load of the pointer on its own, are in \<open>Policy_Engine\<close>.  The locks inside
  charon's attribute manager, its bus and its job queue are not modelled, and a fault counts as a step,
  not as waiting.

  \<^bold>\<open>Loops.\<close>  The scan of the pool and the hash recurse over a measure or a list.  The loop of the loader ends
  when the parser does; its result is \<open>None\<close> while the parser goes on, and that it returns exactly if
  the parser ends is a theorem, so no fuel is needed.

  \<^bold>\<open>Not modelled.\<close>  Log output (\<open>cupp_log.h\<close>); \<open>cupp_force_include.h\<close> and the build files; failure of
  the allocations whose result the code does not check (\<open>INIT\<close>, \<open>strdup\<close> of the configuration); libyaml,
  hash tables, hosts and identities of strongSwan, which are parameters.
\<close>

end
